(* ===== verification/Prelude.thy ===== *)
theory Prelude
  imports Main "HOL-Library.Word" "HOL-Library.AList"
begin

text \<open>
  Shared vocabulary of the development: the fixed-width integer types of
  \<^verbatim>\<open>include/core/types.hpp\<close>, the lemma collections the component theories feed, and the
  generic facts about words, lists and association lists that several components use.

  Association lists with distinct keys stand for \<^verbatim>\<open>std::unordered_map\<close>: \<^const>\<open>map_of\<close> is
  \<open>find\<close>, \<^const>\<open>AList.update\<close> is \<open>m[k] = v\<close> and \<^const>\<open>AList.delete\<close> is \<open>erase\<close>. The
  iteration order of the C++ container is unspecified, so no property depends on the order
  of such a list.
\<close>

unbundle bit_operations_syntax

type_synonym u8 = "8 word"
type_synonym u16 = "16 word"
type_synonym u32 = "32 word"
type_synonym u64 = "64 word"

type_synonym bytes = "u8 list"

named_theorems ladder_simps "facts about price ladders"
named_theorems wire_simps "evaluation rules of the wire codecs"

section \<open>Words\<close>

lemma unat_add_small:
  fixes a b :: "'a::len word"
  shows "unat a + unat b < 2 ^ LENGTH('a) \<Longrightarrow> unat (a + b) = unat a + unat b"
  by (simp add: unat_add_lem)

lemma unat_u32_less: "unat (a :: u32) < 2 ^ 32"
  using unsigned_less [of a] by simp

lemma uint_u32_range: "0 \<le> uint (a :: u32)" "uint (a :: u32) < 2 ^ 32"
  using unsigned_less [of a, where ?'a = int] by simp_all

lemma unat_sub_small:
  fixes a b :: "'a::len word"
  shows "unat b \<le> unat a \<Longrightarrow> unat (a - b) = unat a - unat b"
  by (simp add: unat_sub word_le_nat_alt)

lemma unat_of_nat_small:
  "n < 2 ^ LENGTH('a) \<Longrightarrow> unat (of_nat n :: 'a::len word) = n"
  by (simp add: unat_of_nat take_bit_nat_eq_self)

section \<open>Lists and association lists\<close>

lemma upt_split_at: "b < n \<Longrightarrow> [0..<n] = [0..<b] @ b # [Suc b..<n]"
  using upt_add_eq_append [of 0 b "n - b"] by (simp add: upt_conv_Cons)

lemma map_of_list_update_snd:
  "distinct (map fst xs) \<Longrightarrow> i < length xs \<Longrightarrow> fst (xs ! i) = k \<Longrightarrow>
   map_of (xs[i := (k, v)]) = (map_of xs)(k \<mapsto> v)"
proof (induction xs arbitrary: i)
  case (Cons x xs)
  then show ?case
    by (cases i; cases x) (auto simp: fun_eq_iff nth_mem intro: image_eqI)
qed simp

lemma length_alist_update:
  "length (AList.update k v xs) = (if k \<in> fst ` set xs then length xs else Suc (length xs))"
  by (induction xs) auto

lemma length_alist_delete:
  "distinct (map fst xs) \<Longrightarrow> k \<in> fst ` set xs \<Longrightarrow>
   length (AList.delete k xs) = length xs - 1"
proof (induction xs)
  case (Cons x xs)
  show ?case
  proof (cases "fst x = k")
    case True
    with Cons.prems(1) have "AList.delete k xs = xs"
      by (force simp: delete_id)
    with True show ?thesis by (cases x) simp
  next
    case False
    with Cons show ?thesis
      by (cases x; cases xs) auto
  qed
qed simp

lemma alist_update_notin: "k \<notin> fst ` set xs \<Longrightarrow> AList.update k v xs = xs @ [(k, v)]"
  by (induction xs) auto

lemma alist_delete_notin: "k \<notin> fst ` set xs \<Longrightarrow> AList.delete k xs = xs"
  by (induction xs) auto

lemma sum_dom_map_of:
  "distinct (map fst xs) \<Longrightarrow>
   (\<Sum>k \<in> dom (map_of xs). f (the (map_of xs k))) = (\<Sum>x\<leftarrow>xs. f (snd x) :: nat)"
proof (induction xs)
  case (Cons x xs)
  obtain a b where x: "x = (a, b)" by (cases x)
  have a: "a \<notin> dom (map_of xs)" using Cons.prems by (simp add: x dom_map_of_conv_image_fst)
  have dom: "dom (map_of (x # xs)) = insert a (dom (map_of xs))" by (simp add: x)
  have "(\<Sum>k \<in> dom (map_of xs). f (the (map_of (x # xs) k))) =
      (\<Sum>k \<in> dom (map_of xs). f (the (map_of xs k)))"
    using a by (intro sum.cong) (auto simp: x)
  moreover have "(\<Sum>k \<in> dom (map_of (x # xs)). f (the (map_of (x # xs) k))) =
      f b + (\<Sum>k \<in> dom (map_of xs). f (the (map_of (x # xs) k)))"
    unfolding dom using a by (subst sum.insert) (auto simp: x finite_dom_map_of)
  moreover have "(\<Sum>k \<in> dom (map_of xs). f (the (map_of xs k))) = (\<Sum>x\<leftarrow>xs. f (snd x))"
    using Cons by simp
  moreover have "(\<Sum>x\<leftarrow>x # xs. f (snd x)) = f b + (\<Sum>x\<leftarrow>xs. f (snd x))" by (simp add: x)
  ultimately show ?case by presburger
qed simp

lemma map_of_eq_Some_mem:
  "distinct (map fst xs) \<Longrightarrow> map_of xs k = Some v \<longleftrightarrow> (k, v) \<in> set xs"
  by simp

lemma in_fst_set_iff: "k \<in> fst ` set xs \<longleftrightarrow> map_of xs k \<noteq> None"
  by (simp add: map_of_eq_None_iff)

end
