(* ===== verification/Object_Pool.thy ===== *)
theory Object_Pool
  imports Prelude
begin

text \<open>
  \<^verbatim>\<open>ObjectPool<T>\<close> of \<^verbatim>\<open>include/core/object_pool.hpp\<close>: a growing vector of slots addressed by
  32-bit handles, and a stack of freed handles that are reused last-in first-out. The locale
  \<open>slot_pool\<close> is what the order book relies on: a handle that is handed out is not in use,
  and the contents of the handles in use are not disturbed.
\<close>

type_synonym Handle = u32

record 'a object_pool =
  pool_slots :: "'a list"
  pool_freed :: "Handle list"

definition pool_new :: "'a object_pool" where
  "pool_new = \<lparr>pool_slots = [], pool_freed = []\<rparr>"

text \<open>\<open>dflt\<close> is the value-initialised \<open>T\<close> that \<^verbatim>\<open>emplace_back()\<close> appends.\<close>

definition pool_alloc :: "'a \<Rightarrow> 'a object_pool \<Rightarrow> Handle \<times> 'a object_pool" where
  "pool_alloc dflt P =
     (if pool_freed P \<noteq> []
      then (last (pool_freed P), P\<lparr>pool_freed := butlast (pool_freed P)\<rparr>)
      else (let sl = pool_slots P @ [dflt]
            in (of_nat (length sl - 1), P\<lparr>pool_slots := sl\<rparr>)))"

definition pool_free :: "Handle \<Rightarrow> 'a object_pool \<Rightarrow> 'a object_pool" where
  "pool_free h P = P\<lparr>pool_freed := pool_freed P @ [h]\<rparr>"

definition pool_get :: "'a object_pool \<Rightarrow> Handle \<Rightarrow> 'a" where
  "pool_get P h = pool_slots P ! unat h"

definition pool_set :: "Handle \<Rightarrow> 'a \<Rightarrow> 'a object_pool \<Rightarrow> 'a object_pool" where
  "pool_set h v P = P\<lparr>pool_slots := (pool_slots P)[unat h := v]\<rparr>"

definition pool_live :: "'a object_pool \<Rightarrow> nat" where
  "pool_live P = length (pool_slots P) - length (pool_freed P)"

definition pool_capacity :: "'a object_pool \<Rightarrow> nat" where
  "pool_capacity P = length (pool_slots P)"

section \<open>The pool contract\<close>

locale slot_pool =
  fixes alloc :: "'p \<Rightarrow> Handle \<times> 'p"
    and free :: "Handle \<Rightarrow> 'p \<Rightarrow> 'p"
    and get :: "'p \<Rightarrow> Handle \<Rightarrow> 'a"
    and put :: "Handle \<Rightarrow> 'a \<Rightarrow> 'p \<Rightarrow> 'p"
    and in_use :: "'p \<Rightarrow> Handle set"
    and invar :: "'p \<Rightarrow> bool"
  assumes alloc_ok: "invar P \<Longrightarrow> card (in_use P) < 2 ^ 32 \<Longrightarrow> alloc P = (h, P') \<Longrightarrow>
      invar P' \<and> h \<notin> in_use P \<and> in_use P' = insert h (in_use P) \<and>
      (\<forall>h' \<in> in_use P. get P' h' = get P h')"
    and free_ok: "invar P \<Longrightarrow> h \<in> in_use P \<Longrightarrow>
      invar (free h P) \<and> in_use (free h P) = in_use P - {h} \<and> get (free h P) = get P"
    and put_ok: "invar P \<Longrightarrow> h \<in> in_use P \<Longrightarrow>
      invar (put h v P) \<and> in_use (put h v P) = in_use P \<and> get (put h v P) h = v \<and>
      (\<forall>h'. h' \<noteq> h \<longrightarrow> get (put h v P) h' = get P h')"
begin

text \<open>Allocating a slot and filling it: the fresh handle holds the value, the others are kept.\<close>

lemma alloc_put:
  assumes "invar P" and "card (in_use P) < 2 ^ 32" and "alloc P = (h, P')"
  shows "invar (put h v P')" and "h \<notin> in_use P" and "in_use (put h v P') = insert h (in_use P)"
    and "get (put h v P') h = v" and "h' \<in> in_use P \<Longrightarrow> get (put h v P') h' = get P h'"
proof -
  note a = alloc_ok [OF assms]
  then have "invar P'" "h \<in> in_use P'" by auto
  note s = put_ok [OF this, of v]
  show "invar (put h v P')" "h \<notin> in_use P" "in_use (put h v P') = insert h (in_use P)"
    "get (put h v P') h = v"
    using a s by auto
  show "get (put h v P') h' = get P h'" if "h' \<in> in_use P"
    using that a s by (metis (no_types))
qed

end

section \<open>The pool meets the contract\<close>

definition pool_in_use :: "'a object_pool \<Rightarrow> Handle set" where
  "pool_in_use P = {h. unat h < length (pool_slots P)} - set (pool_freed P)"

definition pool_invar :: "'a object_pool \<Rightarrow> bool" where
  "pool_invar P \<longleftrightarrow>
     length (pool_slots P) \<le> 2 ^ 32 \<and> distinct (pool_freed P) \<and>
     (\<forall>h \<in> set (pool_freed P). unat h < length (pool_slots P))"

lemma pool_invar_new: "pool_invar pool_new" and pool_in_use_new: "pool_in_use pool_new = {}"
  by (simp_all add: pool_invar_def pool_new_def pool_in_use_def)

lemma card_handles_below: "n \<le> 2 ^ 32 \<Longrightarrow> card {h :: Handle. unat h < n} = n"
proof -
  assume n: "n \<le> 2 ^ 32"
  have "bij_betw unat {h :: Handle. unat h < n} {..<n}"
  proof (rule bij_betw_byWitness [where f' = "of_nat"])
    show "of_nat ` {..<n} \<subseteq> {h :: Handle. unat h < n}"
      using n by (auto simp: unat_of_nat_small)
    show "\<forall>a' \<in> {..<n}. unat (of_nat a' :: Handle) = a'"
      using n by (auto simp: unat_of_nat_small)
  qed auto
  then show ?thesis
    by (metis bij_betw_same_card card_lessThan)
qed

lemma pool_live_eq: "pool_invar P \<Longrightarrow> pool_live P = card (pool_in_use P)"
proof -
  assume P: "pool_invar P"
  then have "card (pool_in_use P) = card {h :: Handle. unat h < length (pool_slots P)} - card (set (pool_freed P))"
    by (auto simp: pool_in_use_def pool_invar_def intro!: card_Diff_subset)
  with P show ?thesis
    by (simp add: pool_live_def pool_invar_def card_handles_below distinct_card)
qed

lemma pool_room:
  assumes "pool_invar P" and "card (pool_in_use P) < 2 ^ 32" and "pool_freed P = []"
  shows "length (pool_slots P) < 2 ^ 32"
  using assms card_handles_below [of "length (pool_slots P)"]
  by (simp add: pool_invar_def pool_in_use_def)

lemma pool_alloc_ok:
  assumes P: "pool_invar P" "card (pool_in_use P) < 2 ^ 32" and al: "pool_alloc dflt P = (h, P')"
  shows "pool_invar P' \<and> h \<notin> pool_in_use P \<and> pool_in_use P' = insert h (pool_in_use P) \<and>
         (\<forall>h' \<in> pool_in_use P. pool_get P' h' = pool_get P h')"
proof (cases "pool_freed P = []")
  case True
  note room = pool_room [OF P True]
  let ?n = "length (pool_slots P)"
  have h: "h = of_nat ?n" "unat h = ?n" and P': "P' = P\<lparr>pool_slots := pool_slots P @ [dflt]\<rparr>"
    using al True room by (auto simp: pool_alloc_def Let_def unat_of_nat_small)
  have "unat h' < Suc ?n \<longleftrightarrow> h' = h \<or> unat h' < ?n" for h' :: Handle
    using h by (metis less_Suc_eq word_unat_eq_iff)
  with True room h P' show ?thesis
    by (auto simp: pool_invar_def pool_in_use_def pool_get_def nth_append)
next
  case False
  then obtain fs where fs: "pool_freed P = fs @ [h]" and P': "P' = P\<lparr>pool_freed := fs\<rparr>"
    using al by (auto simp: pool_alloc_def intro: that [of "butlast (pool_freed P)"])
  with P show ?thesis
    by (auto simp: pool_invar_def pool_in_use_def pool_get_def)
qed

interpretation pool: slot_pool "pool_alloc dflt" pool_free pool_get pool_set pool_in_use pool_invar
proof
  fix P P' :: "'a object_pool" and h :: Handle and v :: 'a
  show "pool_invar P \<Longrightarrow> card (pool_in_use P) < 2 ^ 32 \<Longrightarrow> pool_alloc dflt P = (h, P') \<Longrightarrow>
    pool_invar P' \<and> h \<notin> pool_in_use P \<and> pool_in_use P' = insert h (pool_in_use P) \<and>
    (\<forall>h' \<in> pool_in_use P. pool_get P' h' = pool_get P h')"
    by (rule pool_alloc_ok)
  show "pool_invar P \<Longrightarrow> h \<in> pool_in_use P \<Longrightarrow>
    pool_invar (pool_free h P) \<and> pool_in_use (pool_free h P) = pool_in_use P - {h} \<and>
    pool_get (pool_free h P) = pool_get P"
    by (auto simp: pool_invar_def pool_in_use_def pool_free_def pool_get_def fun_eq_iff)
  show "pool_invar P \<Longrightarrow> h \<in> pool_in_use P \<Longrightarrow>
    pool_invar (pool_set h v P) \<and> pool_in_use (pool_set h v P) = pool_in_use P \<and>
    pool_get (pool_set h v P) h = v \<and>
    (\<forall>h'. h' \<noteq> h \<longrightarrow> pool_get (pool_set h v P) h' = pool_get P h')"
    by (auto simp: pool_invar_def pool_in_use_def pool_set_def pool_get_def
        word_unat_eq_iff [symmetric])
qed

section \<open>Properties\<close>

text \<open>C20. No aliasing of live orders: a handle the pool hands out is not in use, becomes the only
  new one, and storing through it leaves the value behind every other live handle alone; freeing
  a handle releases exactly that handle. The count of live objects is the number of handles in
  use.\<close>

theorem pool_no_aliasing:
  assumes "pool_invar P" and "card (pool_in_use P) < 2 ^ 32" and "pool_alloc dflt P = (h, P')"
  shows "h \<notin> pool_in_use P \<and> pool_invar (pool_set h v P') \<and>
         pool_in_use (pool_set h v P') = insert h (pool_in_use P) \<and>
         pool_get (pool_set h v P') h = v \<and>
         (h' \<notin> pool_in_use P \<or> pool_get (pool_set h v P') h' = pool_get P h') \<and>
         pool_in_use (pool_free h (pool_set h v P')) = pool_in_use P \<and>
         pool_live (pool_set h v P') = Suc (pool_live P)"
proof -
  note a = pool.alloc_put [OF assms]
  have "h \<in> pool_in_use (pool_set h v P')" using a(3) by simp
  note f = pool.free_ok [OF a(1) this]
  have fin: "finite (pool_in_use P)" by simp
  have "pool_live (pool_set h v P') = Suc (pool_live P)"
    using a(2) fin by (simp add: pool_live_eq [OF a(1)] pool_live_eq [OF assms(1)] a(3))
  moreover have "pool_in_use (pool_free h (pool_set h v P')) = pool_in_use P" using f a(2,3) by auto
  ultimately show ?thesis using a by blast
qed

theorem pool_no_aliasing_witness:
  "pool_get (pool_set 0 5 (snd (pool_alloc (0 :: nat) pool_new))) 0 = 5"
proof -
  have room: "card (pool_in_use (pool_new :: nat object_pool)) < 2 ^ 32" by (simp add: pool_in_use_new)
  have "pool_alloc (0 :: nat) pool_new = (0, snd (pool_alloc 0 pool_new))"
    by (simp add: pool_alloc_def pool_new_def)
  from pool_no_aliasing [OF pool_invar_new room this, of 5 0] show ?thesis by (elim conjE)
qed

end
