(* ===== verification/Core_Types.thy ===== *)
theory Core_Types
  imports Prelude
begin

text \<open>
  The scalar types of \<^verbatim>\<open>include/core/types.hpp\<close> and the two instances of the level stores'
  \<^verbatim>\<open>Compare\<close> parameter. \<^verbatim>\<open>Price\<close> is a signed 64-bit count of 1/10000 dollars; every price
  the feed can carry fits in 32 bits (see \<^verbatim>\<open>Itch_Decoder\<close>), so it is an \<^typ>\<open>int\<close> here and
  the components that subtract prices state the range they keep. \<^verbatim>\<open>Qty\<close> is kept at its
  width: level totals are accumulated in 32 bits and do wrap around.
\<close>

type_synonym Price = int
type_synonym Qty = u32
type_synonym OrderRef = u64

text \<open>
  \<^verbatim>\<open>enum class Side : char\<close> has a fixed underlying type, so a cast from a wire byte can
  produce a value none of the enumerators names; \<open>Side_other\<close> keeps that byte.
\<close>

datatype Side = Buy | Sell | Side_None | Side_other u8

definition side_of_byte :: "u8 \<Rightarrow> Side" where
  "side_of_byte b =
     (if b = 0x42 then Buy else if b = 0x53 then Sell
      else if b = 0 then Side_None else Side_other b)"

definition kPriceScale :: Price where
  "kPriceScale = 10000"

text \<open>\<^verbatim>\<open>std::greater<Price>\<close> orders the bids, \<^verbatim>\<open>std::less<Price>\<close> the asks.\<close>

datatype Compare = Std_greater | Std_less

fun cmp :: "Compare \<Rightarrow> Price \<Rightarrow> Price \<Rightarrow> bool" where
  "cmp Std_greater a b = (a > b)"
| "cmp Std_less a b = (a < b)"

lemma cmp_irrefl [simp]: "\<not> cmp c a a"
  by (cases c) auto

lemma cmp_trans: "cmp c a b \<Longrightarrow> cmp c b d \<Longrightarrow> cmp c a d"
  by (cases c) auto

lemma cmp_asym: "cmp c a b \<Longrightarrow> \<not> cmp c b a"
  by (cases c) auto

lemma cmp_total: "a \<noteq> b \<Longrightarrow> cmp c a b \<or> cmp c b a"
  by (cases c) auto

lemma not_cmp: "\<not> cmp c a b \<longleftrightarrow> a = b \<or> cmp c b a"
  by (cases c) auto

lemma transp_cmp: "transp (cmp c)"
  by (auto intro: transpI cmp_trans)

end
