(* ===== verification/Level_Store.thy ===== *)
theory Level_Store
  imports Core_Types
begin

text \<open>
  The interface the order book expects of its price-level store (the template parameter
  \<^verbatim>\<open>LevelStore\<close> of \<^verbatim>\<open>BasicOrderBook\<close>) and its laws. A store shows one \<open>ladder\<close>: the
  non-empty levels, best price first. \<^verbatim>\<open>MapLevels\<close>, \<^verbatim>\<open>FlatLevels\<close> and \<^verbatim>\<open>WindowedLevels\<close>
  are three interpretations of the locale \<open>level_store\<close>, in the theories of those classes.
\<close>

type_synonym ladder = "(Price \<times> Qty) list"

text \<open>The member functions a store offers, gathered as the template argument is.\<close>

record 'l level_ops =
  ls_empty :: 'l
  ls_inc :: "Compare \<Rightarrow> Price \<Rightarrow> Qty \<Rightarrow> 'l \<Rightarrow> 'l"
  ls_dec :: "Compare \<Rightarrow> Price \<Rightarrow> Qty \<Rightarrow> 'l \<Rightarrow> 'l"
  ls_best :: "Compare \<Rightarrow> 'l \<Rightarrow> (Price \<times> Qty) option"
  ls_at :: "Compare \<Rightarrow> 'l \<Rightarrow> Price \<Rightarrow> Qty"
  ls_size :: "Compare \<Rightarrow> 'l \<Rightarrow> nat"
  ls_top :: "Compare \<Rightarrow> 'l \<Rightarrow> nat \<Rightarrow> ladder"

section \<open>Ladders\<close>

definition ladder_at :: "ladder \<Rightarrow> Price \<Rightarrow> Qty" where
  "ladder_at xs p = (case map_of xs p of None \<Rightarrow> 0 | Some q \<Rightarrow> q)"

definition ladder_sorted :: "Compare \<Rightarrow> ladder \<Rightarrow> bool" where
  "ladder_sorted c xs = sorted_wrt (cmp c) (map fst xs)"

definition ladder_ok :: "Compare \<Rightarrow> ladder \<Rightarrow> bool" where
  "ladder_ok c xs = (ladder_sorted c xs \<and> (\<forall>x \<in> set xs. snd x \<noteq> 0))"

lemma ladder_sorted_simps [simp]:
  "ladder_sorted c []"
  "ladder_sorted c (x # xs) \<longleftrightarrow> (\<forall>y \<in> set xs. cmp c (fst x) (fst y)) \<and> ladder_sorted c xs"
  by (auto simp: ladder_sorted_def)

lemma ladder_sorted_append:
  "ladder_sorted c (xs @ ys) \<longleftrightarrow>
   ladder_sorted c xs \<and> ladder_sorted c ys \<and>
   (\<forall>x \<in> set xs. \<forall>y \<in> set ys. cmp c (fst x) (fst y))"
  by (auto simp: ladder_sorted_def sorted_wrt_append)

lemma ladder_ok_simps [simp]:
  "ladder_ok c []"
  "ladder_ok c (x # xs) \<longleftrightarrow>
     snd x \<noteq> 0 \<and> (\<forall>y \<in> set xs. cmp c (fst x) (fst y)) \<and> ladder_ok c xs"
  by (auto simp: ladder_ok_def)

lemma ladder_okD: "ladder_ok c xs \<Longrightarrow> ladder_sorted c xs"
  by (simp add: ladder_ok_def)

lemma ladder_sorted_distinct: "ladder_sorted c xs \<Longrightarrow> distinct (map fst xs)"
  by (induction xs) (auto dest!: bspec)

lemma ladder_at_simps [simp]:
  "ladder_at [] p = 0"
  "ladder_at (x # xs) p = (if fst x = p then snd x else ladder_at xs p)"
  by (auto simp: ladder_at_def split: option.split)

lemma ladder_at_notin: "p \<notin> fst ` set xs \<Longrightarrow> ladder_at xs p = 0"
  by (induction xs) auto

lemma ladder_at_mem:
  "ladder_sorted c xs \<Longrightarrow> (p, q) \<in> set xs \<Longrightarrow> ladder_at xs p = q"
  by (induction xs) auto

lemma ladder_at_nonzero_mem: "ladder_at xs p \<noteq> 0 \<Longrightarrow> (p, ladder_at xs p) \<in> set xs"
  by (induction xs) (auto split: if_splits)

lemma ladder_ok_mem_iff:
  "ladder_ok c xs \<Longrightarrow> (p, q) \<in> set xs \<longleftrightarrow> ladder_at xs p = q \<and> q \<noteq> 0"
  by (metis ladder_at_mem ladder_at_nonzero_mem ladder_okD ladder_ok_def snd_conv)

lemma ladder_ok_append:
  "ladder_ok c (xs @ ys) \<longleftrightarrow>
   ladder_ok c xs \<and> ladder_ok c ys \<and> (\<forall>x \<in> set xs. \<forall>y \<in> set ys. cmp c (fst x) (fst y))"
  by (auto simp: ladder_ok_def ladder_sorted_append)

lemma ladder_at_append:
  "ladder_at (xs @ ys) p = (if p \<in> fst ` set xs then ladder_at xs p else ladder_at ys p)"
  by (induction xs) auto

text \<open>A ladder is determined by the quantity it shows at each price.\<close>

lemma ladder_ok_set_unique:
  "ladder_ok c xs \<Longrightarrow> ladder_ok c ys \<Longrightarrow> set xs = set ys \<Longrightarrow> xs = ys"
proof (induction xs arbitrary: ys)
  case (Cons x xs)
  then obtain y ys' where ys: "ys = y # ys'"
    by (cases ys) auto
  have "x = y"
  proof (rule ccontr)
    assume "x \<noteq> y"
    with Cons.prems(3) have "x \<in> set ys'" "y \<in> set xs"
      by (auto simp: ys)
    with Cons.prems(1,2) have "cmp c (fst x) (fst y)" "cmp c (fst y) (fst x)"
      by (auto simp: ys)
    then show False
      by (auto dest: cmp_asym)
  qed
  moreover have "x \<notin> set xs" "y \<notin> set ys'"
    using Cons.prems(1,2) by (auto simp: ys)
  ultimately have "set xs = set ys'"
    using Cons.prems(3) by (auto simp: ys)
  with Cons.IH [of ys'] Cons.prems \<open>x = y\<close> show ?case
    by (simp add: ys)
qed simp

lemma ladder_unique:
  assumes "ladder_ok c xs" and "ladder_ok c ys" and "ladder_at xs = ladder_at ys"
  shows "xs = ys"
proof -
  have "x \<in> set xs \<longleftrightarrow> x \<in> set ys" for x
    using assms by (cases x) (simp add: ladder_ok_mem_iff)
  then show ?thesis
    using assms(1,2) by (intro ladder_ok_set_unique [of c]) auto
qed

section \<open>The store contract\<close>

text \<open>
  \<open>shown c l\<close> is the ladder a store in state \<open>l\<close> shows. \<open>inc\<close> adds to a level as long as the
  32-bit total does not wrap, \<open>dec\<close> takes away at most what is there, and the queries read
  the ladder. Prices are non-negative, as ITCH prices are.
\<close>

locale level_store =
  fixes LS :: "'l level_ops"
    and invar :: "Compare \<Rightarrow> 'l \<Rightarrow> bool"
    and shown :: "Compare \<Rightarrow> 'l \<Rightarrow> ladder"
  assumes invar_empty: "invar c (ls_empty LS)"
    and shown_empty: "shown c (ls_empty LS) = []"
    and shown_ok: "invar c l \<Longrightarrow> ladder_ok c (shown c l)"
    and invar_inc: "invar c l \<Longrightarrow> 0 \<le> p \<Longrightarrow> q \<noteq> 0 \<Longrightarrow>
      unat (ladder_at (shown c l) p) + unat q < 2 ^ 32 \<Longrightarrow> invar c (ls_inc LS c p q l)"
    and at_inc: "invar c l \<Longrightarrow> 0 \<le> p \<Longrightarrow> q \<noteq> 0 \<Longrightarrow>
      unat (ladder_at (shown c l) p) + unat q < 2 ^ 32 \<Longrightarrow>
      ladder_at (shown c (ls_inc LS c p q l)) =
        (ladder_at (shown c l))(p := ladder_at (shown c l) p + q)"
    and invar_dec: "invar c l \<Longrightarrow> q \<le> ladder_at (shown c l) p \<Longrightarrow>
      invar c (ls_dec LS c p q l)"
    and at_dec: "invar c l \<Longrightarrow> q \<le> ladder_at (shown c l) p \<Longrightarrow>
      ladder_at (shown c (ls_dec LS c p q l)) =
        (ladder_at (shown c l))(p := ladder_at (shown c l) p - q)"
    and best_shown: "invar c l \<Longrightarrow>
      ls_best LS c l = (case shown c l of [] \<Rightarrow> None | x # _ \<Rightarrow> Some x)"
    and at_shown: "invar c l \<Longrightarrow> ls_at LS c l p = ladder_at (shown c l) p"
    and size_shown: "invar c l \<Longrightarrow> ls_size LS c l = length (shown c l)"
    and top_shown: "invar c l \<Longrightarrow> ls_top LS c l n = take n (shown c l)"
begin

text \<open>What \<open>best\<close> promises a client, in terms of \<open>at\<close> alone.\<close>

lemma best_None_iff: "invar c l \<Longrightarrow> ls_best LS c l = None \<longleftrightarrow> (\<forall>p. ls_at LS c l p = 0)"
proof -
  assume l: "invar c l"
  show ?thesis
  proof (cases "shown c l")
    case (Cons x xs)
    with shown_ok [OF l] have "ladder_at (shown c l) (fst x) \<noteq> 0"
      by simp
    with l Cons show ?thesis
      by (force simp: best_shown at_shown)
  qed (simp add: l best_shown at_shown)
qed

lemma best_is_best:
  assumes "invar c l" and "ls_best LS c l = Some (p, q)"
  shows "ls_at LS c l p = q \<and> q \<noteq> 0 \<and>
         (\<forall>p'. p' \<noteq> p \<longrightarrow> ls_at LS c l p' \<noteq> 0 \<longrightarrow> cmp c p p')"
proof -
  obtain xs where xs: "shown c l = (p, q) # xs"
    using assms by (auto simp: best_shown split: list.splits)
  have "cmp c p p'" if "p' \<noteq> p" "ladder_at (shown c l) p' \<noteq> 0" for p'
    using ladder_at_nonzero_mem [OF that(2)] shown_ok [OF assms(1)] that(1) by (auto simp: xs)
  then show ?thesis
    using shown_ok [OF assms(1)] assms(1) by (auto simp: at_shown xs)
qed

lemma best_eq_top1: "invar c l \<Longrightarrow> ls_top LS c l 1 = (case ls_best LS c l of None \<Rightarrow> [] | Some x \<Rightarrow> [x])"
  by (simp add: top_shown best_shown split: list.split)

lemma shown_inc_positive:
  assumes "invar c l" "0 \<le> p" "q \<noteq> 0" "unat (ladder_at (shown c l) p) + unat q < 2 ^ 32"
  shows "unat (ls_at LS c (ls_inc LS c p q l) p) = unat (ls_at LS c l p) + unat q"
  using assms by (simp add: at_shown at_inc invar_inc unat_add_small)

end

text \<open>Two stores that show the same quantities answer every query alike.\<close>

locale two_stores =
  A: level_store LS1 invar1 shown1 + B: level_store LS2 invar2 shown2
  for LS1 :: "'a level_ops" and invar1 shown1 and LS2 :: "'b level_ops" and invar2 shown2
begin

definition same :: "Compare \<Rightarrow> 'a \<Rightarrow> 'b \<Rightarrow> bool" where
  "same c l l' \<longleftrightarrow> invar1 c l \<and> invar2 c l' \<and> shown1 c l = shown2 c l'"

lemma same_empty: "same c (ls_empty LS1) (ls_empty LS2)"
  by (simp add: same_def A.invar_empty B.invar_empty A.shown_empty B.shown_empty)

lemma same_inc:
  assumes "same c l l'" "0 \<le> p" "q \<noteq> 0" "unat (ladder_at (shown1 c l) p) + unat q < 2 ^ 32"
  shows "same c (ls_inc LS1 c p q l) (ls_inc LS2 c p q l')"
  using assms unfolding same_def
  by (auto intro!: ladder_unique [of c] A.invar_inc B.invar_inc A.shown_ok B.shown_ok
      simp: A.at_inc B.at_inc)

lemma same_dec:
  assumes "same c l l'" "q \<le> ladder_at (shown1 c l) p"
  shows "same c (ls_dec LS1 c p q l) (ls_dec LS2 c p q l')"
  using assms unfolding same_def
  by (auto intro!: ladder_unique [of c] A.invar_dec B.invar_dec A.shown_ok B.shown_ok
      simp: A.at_dec B.at_dec)

lemma same_queries:
  assumes "same c l l'"
  shows "ls_best LS1 c l = ls_best LS2 c l'" "ls_at LS1 c l p = ls_at LS2 c l' p"
    "ls_size LS1 c l = ls_size LS2 c l'" "ls_top LS1 c l n = ls_top LS2 c l' n"
  using assms
  by (simp_all add: same_def A.best_shown B.best_shown A.at_shown B.at_shown A.size_shown
      B.size_shown A.top_shown B.top_shown)

end

end
