(* ===== verification/Map_Levels.thy ===== *)
theory Map_Levels
  imports Level_Store
begin

text \<open>
  \<^verbatim>\<open>MapLevels\<close> of \<^verbatim>\<open>include/core/flat_levels.hpp\<close>. Its only field is a
  \<^verbatim>\<open>std::map<Price, Qty, Compare>\<close>, which is modelled by the sequence its iterators walk:
  an association list kept in \<open>Compare\<close> order. The first group of definitions models the
  container operations, the second the member functions.
\<close>

type_synonym omap = ladder

section \<open>Ordered map\<close>

text \<open>Insert a key in order, or assign to the mapped value when the key is there.\<close>

fun omap_put :: "Compare \<Rightarrow> Price \<Rightarrow> Qty \<Rightarrow> omap \<Rightarrow> omap" where
  "omap_put c p v [] = [(p, v)]"
| "omap_put c p v ((k, w) # m) =
     (if cmp c k p then (k, w) # omap_put c p v m
      else if k = p then (p, v) # m
      else (p, v) # (k, w) # m)"

fun omap_erase :: "Price \<Rightarrow> omap \<Rightarrow> omap" where
  "omap_erase p [] = []"
| "omap_erase p ((k, w) # m) = (if k = p then m else (k, w) # omap_erase p m)"

text \<open>\<open>m[p] += q\<close>: \<open>operator[]\<close> value-initialises a missing entry to 0.\<close>

definition omap_add :: "Compare \<Rightarrow> Price \<Rightarrow> Qty \<Rightarrow> omap \<Rightarrow> omap" where
  "omap_add c p q m =
     omap_put c p ((case map_of m p of None \<Rightarrow> 0 | Some v \<Rightarrow> v) + q) m"

lemma set_omap_put: "set (omap_put c p v m) \<subseteq> insert (p, v) (set m)"
  by (induction m) (auto split: if_splits)

lemma keys_omap_put: "fst ` set (omap_put c p v m) = insert p (fst ` set m)"
proof (induction m)
  case (Cons x m)
  then show ?case by (cases x) (simp add: insert_commute)
qed simp

lemma ladder_at_omap_put:
  "ladder_sorted c m \<Longrightarrow> ladder_at (omap_put c p v m) = (ladder_at m)(p := v)"
  by (induction m) (auto simp: fun_eq_iff not_cmp ladder_at_notin)

lemma ladder_sorted_omap_put: "ladder_sorted c m \<Longrightarrow> ladder_sorted c (omap_put c p v m)"
proof (induction m)
  case (Cons x m)
  then show ?case
    using set_omap_put [of c p v m] by (cases x) (auto simp: not_cmp intro: cmp_trans)
qed simp

lemma ladder_ok_omap_put: "ladder_ok c m \<Longrightarrow> v \<noteq> 0 \<Longrightarrow> ladder_ok c (omap_put c p v m)"
  using set_omap_put [of c p v m] by (auto simp: ladder_ok_def ladder_sorted_omap_put)

lemma set_omap_erase: "set (omap_erase p m) \<subseteq> set m"
  by (induction m) (auto split: if_splits)

lemma ladder_sorted_omap_erase: "ladder_sorted c m \<Longrightarrow> ladder_sorted c (omap_erase p m)"
proof (induction m)
  case (Cons x m)
  then show ?case
    using set_omap_erase [of p m] by (cases x) auto
qed simp

lemma ladder_at_omap_erase:
  "ladder_sorted c m \<Longrightarrow> ladder_at (omap_erase p m) = (ladder_at m)(p := 0)"
proof (induction m)
  case (Cons x m)
  then show ?case
    by (cases x) (force simp: fun_eq_iff intro!: ladder_at_notin)
qed (simp add: fun_eq_iff)

lemma ladder_ok_omap_erase: "ladder_ok c m \<Longrightarrow> ladder_ok c (omap_erase p m)"
  using set_omap_erase [of p m] by (auto simp: ladder_ok_def ladder_sorted_omap_erase)

lemma omap_add_alt: "omap_add c p q m = omap_put c p (ladder_at m p + q) m"
  by (simp add: omap_add_def ladder_at_def)

section \<open>The store\<close>

definition map_inc :: "Compare \<Rightarrow> Price \<Rightarrow> Qty \<Rightarrow> omap \<Rightarrow> omap" where
  "map_inc c p q m = omap_add c p q m"

definition map_dec :: "Compare \<Rightarrow> Price \<Rightarrow> Qty \<Rightarrow> omap \<Rightarrow> omap" where
  "map_dec c p q m =
     (case map_of m p of
        None \<Rightarrow> m
      | Some v \<Rightarrow> (let v' = v - q in if v' = 0 then omap_erase p m else omap_put c p v' m))"

definition map_best :: "Compare \<Rightarrow> omap \<Rightarrow> (Price \<times> Qty) option" where
  "map_best c m = (case m of [] \<Rightarrow> None | kv # _ \<Rightarrow> Some kv)"

definition map_at :: "Compare \<Rightarrow> omap \<Rightarrow> Price \<Rightarrow> Qty" where
  "map_at c m p = (case map_of m p of None \<Rightarrow> 0 | Some v \<Rightarrow> v)"

definition map_size :: "Compare \<Rightarrow> omap \<Rightarrow> nat" where
  "map_size c m = length m"

fun map_top_loop :: "nat \<Rightarrow> ladder \<Rightarrow> omap \<Rightarrow> ladder" where
  "map_top_loop n out [] = out"
| "map_top_loop n out (kv # m) =
     (if length out \<ge> n then out else map_top_loop n (out @ [kv]) m)"

definition map_top :: "Compare \<Rightarrow> omap \<Rightarrow> nat \<Rightarrow> ladder" where
  "map_top c m n = map_top_loop n [] m"

definition MapLevels :: "omap level_ops" where
  "MapLevels = \<lparr>ls_empty = [], ls_inc = map_inc, ls_dec = map_dec, ls_best = map_best,
                ls_at = map_at, ls_size = map_size, ls_top = map_top\<rparr>"

lemma MapLevels_simps [simp]:
  "ls_empty MapLevels = []" "ls_inc MapLevels = map_inc" "ls_dec MapLevels = map_dec"
  "ls_best MapLevels = map_best" "ls_at MapLevels = map_at" "ls_size MapLevels = map_size"
  "ls_top MapLevels = map_top"
  by (simp_all add: MapLevels_def)

lemma map_top_loop_take:
  "length out \<le> n \<Longrightarrow> map_top_loop n out m = out @ take (n - length out) m"
proof (induction m arbitrary: out)
  case (Cons kv m)
  show ?case
  proof (cases "n = length out")
    case False
    with Cons.prems have "n - length out = Suc (n - Suc (length out))" by simp
    with Cons.IH [of "out @ [kv]"] Cons.prems False show ?thesis by simp
  qed simp
qed simp

lemma map_top_take [simp]: "map_top c m n = take n m"
  by (simp add: map_top_def map_top_loop_take)

lemma ladder_sorted_map_inc: "ladder_sorted c m \<Longrightarrow> ladder_sorted c (map_inc c p q m)"
  by (simp add: map_inc_def omap_add_def ladder_sorted_omap_put)

lemma ladder_sorted_map_dec: "ladder_sorted c m \<Longrightarrow> ladder_sorted c (map_dec c p q m)"
  by (simp add: map_dec_def Let_def ladder_sorted_omap_put ladder_sorted_omap_erase
      split: option.split)

lemma ladder_at_map_inc:
  "ladder_sorted c m \<Longrightarrow>
   ladder_at (map_inc c p q m) = (ladder_at m)(p := ladder_at m p + q)"
  by (simp add: map_inc_def omap_add_alt ladder_at_omap_put)

lemma ladder_at_map_dec:
  assumes "ladder_sorted c m" and "q \<le> ladder_at m p"
  shows "ladder_at (map_dec c p q m) = (ladder_at m)(p := ladder_at m p - q)"
proof (cases "map_of m p")
  case None
  then have "ladder_at m p = 0" by (simp add: ladder_at_def)
  with None assms show ?thesis by (auto simp: map_dec_def fun_eq_iff)
next
  case (Some v)
  then have v: "ladder_at m p = v" by (simp add: ladder_at_def)
  show ?thesis
  proof (cases "v - q = 0")
    case True
    with Some v assms show ?thesis by (simp add: map_dec_def ladder_at_omap_erase)
  next
    case False
    with Some v assms show ?thesis by (simp add: map_dec_def Let_def ladder_at_omap_put)
  qed
qed

lemma ladder_ok_map_dec: "ladder_ok c m \<Longrightarrow> ladder_ok c (map_dec c p q m)"
  by (simp add: map_dec_def Let_def ladder_ok_omap_put ladder_ok_omap_erase split: option.split)

lemma nonzero_sum_small:
  fixes a b :: u32
  shows "b \<noteq> 0 \<Longrightarrow> unat a + unat b < 2 ^ 32 \<Longrightarrow> a + b \<noteq> 0"
  using unat_add_small [of a b] by (auto simp: unat_eq_zero)

interpretation map_store: level_store MapLevels ladder_ok "\<lambda>c m. m"
proof
  fix c :: Compare and l :: omap and p :: Price and q :: Qty and n :: nat
  show "ladder_ok c l \<Longrightarrow> 0 \<le> p \<Longrightarrow> q \<noteq> 0 \<Longrightarrow> unat (ladder_at l p) + unat q < 2 ^ 32 \<Longrightarrow>
    ladder_ok c (ls_inc MapLevels c p q l)"
    by (simp add: map_inc_def omap_add_alt ladder_ok_omap_put nonzero_sum_small)
  show "ladder_ok c l \<Longrightarrow> q \<le> ladder_at l p \<Longrightarrow> ladder_ok c (ls_dec MapLevels c p q l)"
    by (simp add: ladder_ok_map_dec)
qed (simp_all add: ladder_okD ladder_at_map_inc ladder_at_map_dec map_best_def map_at_def
    ladder_at_def map_size_def)

end
