(* ===== verification/Flat_Levels.thy ===== *)
theory Flat_Levels
  imports Map_Levels
begin

text \<open>
  \<^verbatim>\<open>FlatLevels\<close> of \<^verbatim>\<open>include/core/flat_levels.hpp\<close>: a vector of levels kept sorted by
  \<open>Compare\<close>, searched with \<^verbatim>\<open>std::lower_bound\<close>. The binary search is modelled as the library
  performs it (halving a \<open>[first, first + len)\<close> range) and shown to find the partition point;
  from that the store is shown to equal \<^verbatim>\<open>MapLevels\<close> operation by operation, wrap-around of
  the totals included.
\<close>

section \<open>Binary search\<close>

function lower_bound_loop :: "Compare \<Rightarrow> ladder \<Rightarrow> Price \<Rightarrow> nat \<Rightarrow> nat \<Rightarrow> nat" where
  "lower_bound_loop c v p first len =
     (if len = 0 then first
      else let half = len div 2; mid = first + half
           in if cmp c (fst (v ! mid)) p
              then lower_bound_loop c v p (mid + 1) (len - half - 1)
              else lower_bound_loop c v p first half)"
  by pat_completeness auto
termination
  by (relation "measure (\<lambda>(c, v, p, first, len). len)") auto

declare lower_bound_loop.simps [simp del]

definition flat_find :: "Compare \<Rightarrow> ladder \<Rightarrow> Price \<Rightarrow> nat" where
  "flat_find c v p = lower_bound_loop c v p 0 (length v)"

definition flat_inc :: "Compare \<Rightarrow> Price \<Rightarrow> Qty \<Rightarrow> ladder \<Rightarrow> ladder" where
  "flat_inc c p q v =
     (let it = flat_find c v p
      in if it < length v \<and> fst (v ! it) = p
         then v[it := (fst (v ! it), snd (v ! it) + q)]
         else take it v @ (p, q) # drop it v)"

definition flat_dec :: "Compare \<Rightarrow> Price \<Rightarrow> Qty \<Rightarrow> ladder \<Rightarrow> ladder" where
  "flat_dec c p q v =
     (let it = flat_find c v p
      in if it < length v \<and> fst (v ! it) = p
         then let r = snd (v ! it) - q
              in if r = 0 then take it v @ drop (Suc it) v
                 else v[it := (fst (v ! it), r)]
         else v)"

definition flat_best :: "Compare \<Rightarrow> ladder \<Rightarrow> (Price \<times> Qty) option" where
  "flat_best c v = (if v = [] then None else Some (v ! 0))"

definition flat_at :: "Compare \<Rightarrow> ladder \<Rightarrow> Price \<Rightarrow> Qty" where
  "flat_at c v p =
     (let it = flat_find c v p
      in if it < length v \<and> fst (v ! it) = p then snd (v ! it) else 0)"

definition flat_size :: "Compare \<Rightarrow> ladder \<Rightarrow> nat" where
  "flat_size c v = length v"

function flat_top_loop :: "ladder \<Rightarrow> nat \<Rightarrow> nat \<Rightarrow> ladder \<Rightarrow> ladder" where
  "flat_top_loop v n i out =
     (if i < length v \<and> i < n then flat_top_loop v n (i + 1) (out @ [v ! i]) else out)"
  by pat_completeness auto
termination
  by (relation "measure (\<lambda>(v, n, i, out). length v - i)") auto

declare flat_top_loop.simps [simp del]

definition flat_top :: "Compare \<Rightarrow> ladder \<Rightarrow> nat \<Rightarrow> ladder" where
  "flat_top c v n = flat_top_loop v n 0 []"

definition FlatLevels :: "ladder level_ops" where
  "FlatLevels = \<lparr>ls_empty = [], ls_inc = flat_inc, ls_dec = flat_dec, ls_best = flat_best,
                 ls_at = flat_at, ls_size = flat_size, ls_top = flat_top\<rparr>"

lemma FlatLevels_simps [simp]:
  "ls_empty FlatLevels = []" "ls_inc FlatLevels = flat_inc" "ls_dec FlatLevels = flat_dec"
  "ls_best FlatLevels = flat_best" "ls_at FlatLevels = flat_at" "ls_size FlatLevels = flat_size"
  "ls_top FlatLevels = flat_top"
  by (simp_all add: FlatLevels_def)

section \<open>The search finds the partition point\<close>

lemma ladder_sorted_nth:
  "ladder_sorted c v \<Longrightarrow> i < j \<Longrightarrow> j < length v \<Longrightarrow> cmp c (fst (v ! i)) (fst (v ! j))"
  unfolding ladder_sorted_def using sorted_wrt_nth_less [of "cmp c" "map fst v" i j] by simp

definition partition_point :: "Compare \<Rightarrow> ladder \<Rightarrow> Price \<Rightarrow> nat \<Rightarrow> nat \<Rightarrow> nat \<Rightarrow> bool" where
  "partition_point c v p lo hi r \<longleftrightarrow>
     lo \<le> r \<and> r \<le> hi \<and>
     (\<forall>j. lo \<le> j \<and> j < r \<longrightarrow> cmp c (fst (v ! j)) p) \<and>
     (\<forall>j. r \<le> j \<and> j < hi \<longrightarrow> \<not> cmp c (fst (v ! j)) p)"

lemma partition_point_right:
  assumes "ladder_sorted c v" and "hi \<le> length v" and "lo \<le> mid" and "mid < hi"
    and "cmp c (fst (v ! mid)) p" and "partition_point c v p (Suc mid) hi r"
  shows "partition_point c v p lo hi r"
proof -
  have "cmp c (fst (v ! j)) p" if "j \<le> mid" for j
    using that assms(5) ladder_sorted_nth [OF assms(1), of j mid] assms(2,4)
    by (cases "j = mid") (auto intro: cmp_trans)
  then show ?thesis
    using assms(3,6) unfolding partition_point_def by (metis Suc_leD le_trans not_less_eq_eq)
qed

lemma partition_point_left:
  assumes "ladder_sorted c v" and "hi \<le> length v" and "mid < hi"
    and "\<not> cmp c (fst (v ! mid)) p" and "partition_point c v p lo mid r"
  shows "partition_point c v p lo hi r"
proof -
  have "\<not> cmp c (fst (v ! j)) p" if "mid \<le> j" "j < hi" for j
    using that assms(4) ladder_sorted_nth [OF assms(1), of mid j] assms(2)
    by (cases "j = mid") (auto dest: cmp_trans)
  then show ?thesis
    using assms(3,5) unfolding partition_point_def by (meson le_trans less_imp_le not_le)
qed

lemma lower_bound_loop_spec:
  "ladder_sorted c v \<Longrightarrow> first + len \<le> length v \<Longrightarrow>
   partition_point c v p first (first + len) (lower_bound_loop c v p first len)"
proof (induction c v p first len rule: lower_bound_loop.induct)
  case (1 c v p first len)
  let ?mid = "first + len div 2"
  show ?case
  proof (cases "len = 0")
    case True
    then show ?thesis by (auto simp: lower_bound_loop.simps partition_point_def)
  next
    case False
    then have mid: "?mid < first + len" by simp
    show ?thesis
    proof (cases "cmp c (fst (v ! ?mid)) p")
      case True
      have "?mid + 1 + (len - len div 2 - 1) = first + len" using False by linarith
      with "1.IH"(1) [OF False refl refl True "1.prems"(1)] "1.prems"(2)
      have "partition_point c v p (Suc ?mid) (first + len)
              (lower_bound_loop c v p (?mid + 1) (len - len div 2 - 1))"
        by simp
      from partition_point_right [OF "1.prems" _ mid True this, of first] show ?thesis
        by (simp add: lower_bound_loop.simps [of c v p first len] False True Let_def)
    next
      case notcmp: False
      with "1.IH"(2) [OF False refl refl notcmp "1.prems"(1)] "1.prems"(2)
      have "partition_point c v p first ?mid (lower_bound_loop c v p first (len div 2))"
        by simp
      from partition_point_left [OF "1.prems" mid notcmp this] show ?thesis
        by (simp add: lower_bound_loop.simps [of c v p first len] False notcmp Let_def)
    qed
  qed
qed

lemma flat_find_split:
  assumes "ladder_sorted c v"
  obtains as bs where "v = as @ bs" "flat_find c v p = length as"
    "\<forall>x \<in> set as. cmp c (fst x) p" "\<forall>x \<in> set bs. \<not> cmp c (fst x) p"
proof -
  let ?r = "flat_find c v p"
  note spec = lower_bound_loop_spec [OF assms, of 0 "length v" p, folded flat_find_def,
      unfolded partition_point_def, simplified]
  have "\<forall>x \<in> set (take ?r v). cmp c (fst x) p"
    using spec by (metis (no_types, lifting) in_set_conv_nth length_take min.absorb2 nth_take)
  moreover have "\<forall>x \<in> set (drop ?r v). \<not> cmp c (fst x) p"
  proof
    fix x assume "x \<in> set (drop ?r v)"
    then obtain k where "k < length v - ?r" "x = v ! (?r + k)"
      by (auto simp: in_set_conv_nth)
    with spec show "\<not> cmp c (fst x) p" by simp
  qed
  ultimately show thesis
    using that [of "take ?r v" "drop ?r v"] spec by simp
qed

section \<open>Equality with the ordered map\<close>

lemma omap_put_append:
  "\<forall>x \<in> set as. cmp c (fst x) p \<Longrightarrow> omap_put c p v (as @ bs) = as @ omap_put c p v bs"
  by (induction as) auto

lemma omap_erase_append:
  "\<forall>x \<in> set as. cmp c (fst x) p \<Longrightarrow> omap_erase p (as @ bs) = as @ omap_erase p bs"
  by (induction as) auto

lemma map_of_append_cmp:
  "\<forall>x \<in> set as. cmp c (fst x) p \<Longrightarrow> map_of (as @ bs) p = map_of bs p"
  by (induction as) auto

text \<open>Past the partition point a level either is the one looked for or is worse.\<close>

lemma flat_find_cases:
  assumes "ladder_sorted c v"
  obtains (hit) as q bs where "v = as @ (p, q) # bs" "flat_find c v p = length as"
      "\<forall>x \<in> set as. cmp c (fst x) p"
  | (miss) as bs where "v = as @ bs" "flat_find c v p = length as"
      "\<forall>x \<in> set as. cmp c (fst x) p" "\<forall>x \<in> set bs. cmp c p (fst x)"
proof -
  obtain as bs where v: "v = as @ bs" "flat_find c v p = length as"
    "\<forall>x \<in> set as. cmp c (fst x) p" "\<forall>x \<in> set bs. \<not> cmp c (fst x) p"
    using flat_find_split [OF assms] by blast
  show thesis
  proof (cases "bs \<noteq> [] \<and> fst (hd bs) = p")
    case True
    then show ?thesis
      using hit [of as "snd (hd bs)" "tl bs"] v by (cases bs) auto
  next
    case False
    have "\<forall>x \<in> set bs. cmp c p (fst x)"
    proof (cases bs)
      case (Cons b bs')
      with False v(4) have "cmp c p (fst b)" by (auto simp: not_cmp)
      with Cons assms v(1) show ?thesis by (auto simp: ladder_sorted_append intro: cmp_trans)
    qed simp
    then show ?thesis using miss [of as bs] v by simp
  qed
qed

lemma map_of_cmp_None: "\<forall>x \<in> set bs. cmp c p (fst x) \<Longrightarrow> map_of bs p = None"
  by (force simp: map_of_eq_None_iff)

lemma omap_put_cmp_Cons:
  "\<forall>x \<in> set bs. cmp c p (fst x) \<Longrightarrow> omap_put c p v bs = (p, v) # bs"
  by (cases bs) (auto dest: cmp_asym)

lemmas partitioned_simps = omap_put_append omap_erase_append map_of_append_cmp map_of_cmp_None
  omap_put_cmp_Cons

lemma flat_inc_eq_map_inc:
  assumes "ladder_sorted c v"
  shows "flat_inc c p q v = map_inc c p q v"
  using assms
proof (cases rule: flat_find_cases [of c v p])
  case (hit as q0 bs)
  then show ?thesis
    by (simp add: flat_inc_def map_inc_def omap_add_def partitioned_simps del: map_of_append)
next
  case (miss as bs)
  then have "\<not> (bs \<noteq> [] \<and> fst (hd bs) = p)" by (cases bs) auto
  with miss show ?thesis
    by (auto simp: flat_inc_def map_inc_def omap_add_def partitioned_simps Let_def nth_append
        hd_conv_nth
        simp del: map_of_append)
qed

lemma flat_dec_eq_map_dec:
  assumes "ladder_sorted c v"
  shows "flat_dec c p q v = map_dec c p q v"
  using assms
proof (cases rule: flat_find_cases [of c v p])
  case (hit as q0 bs)
  then show ?thesis
    by (simp add: flat_dec_def map_dec_def partitioned_simps Let_def del: map_of_append)
next
  case (miss as bs)
  then have "\<not> (bs \<noteq> [] \<and> fst (hd bs) = p)" by (cases bs) auto
  with miss show ?thesis
    by (auto simp: flat_dec_def map_dec_def partitioned_simps Let_def nth_append hd_conv_nth
        simp del: map_of_append)
qed

lemma flat_at_eq_map_at:
  assumes "ladder_sorted c v"
  shows "flat_at c v p = map_at c v p"
  using assms
proof (cases rule: flat_find_cases [of c v p])
  case (hit as q0 bs)
  then show ?thesis
    by (simp add: flat_at_def map_at_def partitioned_simps Let_def del: map_of_append)
next
  case (miss as bs)
  then have "\<not> (bs \<noteq> [] \<and> fst (hd bs) = p)" by (cases bs) auto
  with miss show ?thesis
    by (auto simp: flat_at_def map_at_def partitioned_simps Let_def nth_append hd_conv_nth
        simp del: map_of_append)
qed

lemma flat_best_eq_map_best: "flat_best c v = map_best c v"
  by (cases v) (simp_all add: flat_best_def map_best_def)

lemma flat_top_loop_take:
  "i \<le> length v \<Longrightarrow> flat_top_loop v n i out = out @ take (n - i) (drop i v)"
proof (induction v n i out rule: flat_top_loop.induct)
  case (1 v n i out)
  show ?case
  proof (cases "i < length v \<and> i < n")
    case True
    with 1 have "flat_top_loop v n i out = out @ v ! i # take (n - Suc i) (drop (Suc i) v)"
      by (simp add: flat_top_loop.simps [of v n i out])
    also have "v ! i # take (n - Suc i) (drop (Suc i) v) = take (n - i) (drop i v)"
      using True by (metis Cons_nth_drop_Suc Suc_diff_Suc take_Suc_Cons)
    finally show ?thesis .
  qed (auto simp: flat_top_loop.simps [of v n i out])
qed

lemma flat_top_take [simp]: "flat_top c v n = take n v"
  by (simp add: flat_top_def flat_top_loop_take)

interpretation flat_store: level_store FlatLevels ladder_ok "\<lambda>c m. m"
proof
  fix c :: Compare and l :: omap and p :: Price and q :: Qty
  assume l: "ladder_ok c l"
  note eqs = flat_inc_eq_map_inc flat_dec_eq_map_dec flat_at_eq_map_at ladder_okD [OF l]
  show "0 \<le> p \<Longrightarrow> q \<noteq> 0 \<Longrightarrow> unat (ladder_at l p) + unat q < 2 ^ 32 \<Longrightarrow>
    ladder_ok c (ls_inc FlatLevels c p q l)"
    using map_store.invar_inc [OF l] by (simp add: eqs)
  show "0 \<le> p \<Longrightarrow> q \<noteq> 0 \<Longrightarrow> unat (ladder_at l p) + unat q < 2 ^ 32 \<Longrightarrow>
    ladder_at (ls_inc FlatLevels c p q l) = (ladder_at l)(p := ladder_at l p + q)"
    using map_store.at_inc [OF l] by (simp add: eqs)
  show "q \<le> ladder_at l p \<Longrightarrow> ladder_ok c (ls_dec FlatLevels c p q l)"
    using map_store.invar_dec [OF l] by (simp add: eqs)
  show "q \<le> ladder_at l p \<Longrightarrow>
    ladder_at (ls_dec FlatLevels c p q l) = (ladder_at l)(p := ladder_at l p - q)"
    using map_store.at_dec [OF l] by (simp add: eqs)
  show "ls_best FlatLevels c l = (case l of [] \<Rightarrow> None | x # _ \<Rightarrow> Some x)"
    using map_store.best_shown [OF l] by (simp add: flat_best_eq_map_best)
  show "ls_at FlatLevels c l p = ladder_at l p"
    using map_store.at_shown [OF l] by (simp add: eqs)
qed (simp_all add: flat_size_def)

section \<open>Properties\<close>

text \<open>The sorted vector is a drop-in for the map: on every sorted vector each operation of
  \<^verbatim>\<open>FlatLevels\<close>, found by binary search, gives exactly what \<^verbatim>\<open>MapLevels\<close> gives, for every
  price and quantity (32-bit wrap-around included), and the vector stays sorted.\<close>

theorem flat_equals_map:
  assumes "ladder_sorted c v"
  shows "flat_inc c p q v = map_inc c p q v \<and> flat_dec c p q v = map_dec c p q v \<and>
         flat_at c v p = map_at c v p \<and> flat_best c v = map_best c v \<and>
         flat_size c v = map_size c v \<and> flat_top c v n = map_top c v n \<and>
         ladder_sorted c (flat_inc c p q v) \<and> ladder_sorted c (flat_dec c p q v)"
  using assms
  by (simp add: flat_inc_eq_map_inc flat_dec_eq_map_dec flat_at_eq_map_at flat_best_eq_map_best
      flat_size_def map_size_def ladder_sorted_map_inc ladder_sorted_map_dec)

theorem flat_equals_map_witness:
  "flat_inc Std_greater 4 7 [(5, 1), (3, 2)] = map_inc Std_greater 4 7 [(5, 1), (3, 2)] \<and>
   map_inc Std_greater 4 7 [(5, 1), (3, 2)] = [(5, 1), (4, 7), (3, 2)]"
proof -
  have "ladder_sorted Std_greater [(5, 1), (3, 2)]" by simp
  from flat_equals_map [OF this, of 4 7] show ?thesis by (simp add: map_inc_def omap_add_def)
qed

text \<open>\<^verbatim>\<open>std::lower_bound\<close> as the vector uses it: the index found splits a sorted ladder into
  the levels strictly better than the price and the rest, so it is the level's position if the
  price is present and its insertion point otherwise.\<close>

theorem flat_find_partitions:
  assumes "ladder_sorted c v"
  shows "flat_find c v p \<le> length v \<and>
         list_all (\<lambda>x. cmp c (fst x) p) (take (flat_find c v p) v) \<and>
         list_all (\<lambda>x. \<not> cmp c (fst x) p) (drop (flat_find c v p) v)"
proof -
  obtain as bs where "v = as @ bs" "flat_find c v p = length as"
    "\<forall>x \<in> set as. cmp c (fst x) p" "\<forall>x \<in> set bs. \<not> cmp c (fst x) p"
    by (rule flat_find_split [OF assms])
  then show ?thesis by (simp add: list_all_iff)
qed

theorem flat_find_partitions_witness:
  "flat_find Std_less [(10, 1), (20, 1), (30, 1)] 20 \<le> 3"
  using flat_find_partitions [of Std_less "[(10, 1), (20, 1), (30, 1)]" 20] by simp

end
