(* ===== verification/Windowed_Levels.thy ===== *)
theory Windowed_Levels
  imports Map_Levels
begin

text \<open>
  \<^verbatim>\<open>WindowedLevels\<close> of \<^verbatim>\<open>include/core/windowed_levels.hpp\<close>: an array of \<open>kWindow\<close> slots, one
  per price tick from \<open>wl_base\<close> on, a tracked index of the best slot, a count of the non-empty
  slots, and an ordered map for the levels outside the window. The member functions are
  translated one by one; the theory ends with the interpretation of \<open>level_store\<close>, so this
  array shows the same ladder as \<^verbatim>\<open>MapLevels\<close> for every price an ITCH message can carry.
\<close>

section \<open>Definitions\<close>

record windowed =
  wl_slots :: "Qty list"
  wl_overflow :: omap
  wl_base :: Price
  wl_best_idx :: nat
  wl_count :: nat
  wl_has_base :: bool

definition win_empty :: windowed where
  "win_empty = \<lparr>wl_slots = [], wl_overflow = [], wl_base = 0, wl_best_idx = 0, wl_count = 0,
                wl_has_base = False\<rparr>"

definition kWindow :: nat where
  "kWindow = 65536"

definition in_window :: "windowed \<Rightarrow> Price \<Rightarrow> bool" where
  "in_window s p = (wl_has_base s \<and> p \<ge> wl_base s \<and> p - wl_base s < int kWindow)"

text \<open>The cast to \<^verbatim>\<open>std::size_t\<close> reduces modulo \<open>2 ^ 64\<close>.\<close>

definition win_index :: "windowed \<Rightarrow> Price \<Rightarrow> nat" where
  "win_index s p = nat ((p - wl_base s) mod 2 ^ 64)"

definition window_best_price :: "windowed \<Rightarrow> Price" where
  "window_best_price s = wl_base s + int (wl_best_idx s)"

definition best_price :: "Compare \<Rightarrow> windowed \<Rightarrow> Price" where
  "best_price c s =
     (if wl_count s = 0 then fst (hd (wl_overflow s))
      else if wl_overflow s = [] \<or> \<not> cmp c (fst (hd (wl_overflow s))) (window_best_price s)
      then window_best_price s
      else fst (hd (wl_overflow s)))"

function next_window_idx :: "Compare \<Rightarrow> Qty list \<Rightarrow> nat \<Rightarrow> nat option" where
  "next_window_idx c sl i =
     (if cmp c 1 0 then
        (if i = 0 then None
         else if sl ! (i - 1) \<noteq> 0 then Some (i - 1)
         else next_window_idx c sl (i - 1))
      else
        (if i + 1 \<ge> length sl then None
         else if sl ! (i + 1) \<noteq> 0 then Some (i + 1)
         else next_window_idx c sl (i + 1)))"
  by pat_completeness auto
termination
  by (relation "measure (\<lambda>(c, sl, i). if cmp c 1 0 then i else length sl - i)") auto

declare next_window_idx.simps [simp del]

definition place_in_window :: "Compare \<Rightarrow> Price \<Rightarrow> Qty \<Rightarrow> windowed \<Rightarrow> windowed" where
  "place_in_window c p q s =
     (let idx = win_index s p;
          was_empty = (wl_slots s ! idx = 0);
          s1 = s\<lparr>wl_slots := (wl_slots s)[idx := wl_slots s ! idx + q]\<rparr>
      in if was_empty
         then s1\<lparr>wl_best_idx := (if wl_count s = 0 \<or> cmp c p (window_best_price s) then idx
                              else wl_best_idx s),
                 wl_count := wl_count s + 1\<rparr>
         else s1)"

definition rescan_best :: "Compare \<Rightarrow> windowed \<Rightarrow> windowed" where
  "rescan_best c s =
     (if wl_count s = 0 then s\<lparr>wl_best_idx := 0\<rparr>
      else case next_window_idx c (wl_slots s) (wl_best_idx s) of
             Some i \<Rightarrow> s\<lparr>wl_best_idx := i\<rparr>
           | None \<Rightarrow>
               (case find (\<lambda>j. wl_slots s ! j \<noteq> 0)
                       (if cmp c 1 0 then rev [0..<length (wl_slots s)] else [0..<length (wl_slots s)]) of
                  Some j \<Rightarrow> s\<lparr>wl_best_idx := j\<rparr>
                | None \<Rightarrow> s))"

definition win_collect :: "windowed \<Rightarrow> ladder" where
  "win_collect s =
     (if wl_has_base s
      then map (\<lambda>i. (wl_base s + int i, wl_slots s ! i))
             (filter (\<lambda>i. wl_slots s ! i \<noteq> 0) [0..<length (wl_slots s)])
      else []) @ wl_overflow s"

definition win_bucket :: "Compare \<Rightarrow> Price \<times> Qty \<Rightarrow> windowed \<Rightarrow> windowed" where
  "win_bucket c kv s =
     (if in_window s (fst kv) then place_in_window c (fst kv) (snd kv) s
      else s\<lparr>wl_overflow := omap_add c (fst kv) (snd kv) (wl_overflow s)\<rparr>)"

definition recenter_to :: "Compare \<Rightarrow> Price \<Rightarrow> windowed \<Rightarrow> windowed" where
  "recenter_to c center s =
     (let all = win_collect s;
          nb = center - int (kWindow div 2);
          new_base = (if nb < 0 then 0 else nb)
      in fold (win_bucket c) all
           \<lparr>wl_slots = replicate kWindow 0, wl_overflow = [], wl_base = new_base, wl_best_idx = 0,
            wl_count = 0, wl_has_base = True\<rparr>)"

definition win_inc :: "Compare \<Rightarrow> Price \<Rightarrow> Qty \<Rightarrow> windowed \<Rightarrow> windowed" where
  "win_inc c p q s =
     (if q = 0 then s
      else if \<not> wl_has_base s then place_in_window c p q (recenter_to c p s)
      else if \<not> in_window s p then
        (if (wl_count s = 0 \<and> wl_overflow s = []) \<or> cmp c p (best_price c s)
         then place_in_window c p q (recenter_to c p s)
         else s\<lparr>wl_overflow := omap_add c p q (wl_overflow s)\<rparr>)
      else place_in_window c p q s)"

definition win_dec :: "Compare \<Rightarrow> Price \<Rightarrow> Qty \<Rightarrow> windowed \<Rightarrow> windowed" where
  "win_dec c p q s =
     (if in_window s p then
        (let idx = win_index s p
         in if wl_slots s ! idx = 0 then s
            else let r = wl_slots s ! idx - q;
                     s1 = s\<lparr>wl_slots := (wl_slots s)[idx := r]\<rparr>
                 in if r = 0
                    then (let s2 = s1\<lparr>wl_count := wl_count s - 1\<rparr>
                          in if idx = wl_best_idx s then rescan_best c s2 else s2)
                    else s1)
      else
        (case map_of (wl_overflow s) p of
           None \<Rightarrow> s
         | Some v \<Rightarrow>
             (let r = v - q
              in s\<lparr>wl_overflow := (if r = 0 then omap_erase p (wl_overflow s)
                                 else omap_put c p r (wl_overflow s))\<rparr>)))"

definition win_best :: "Compare \<Rightarrow> windowed \<Rightarrow> (Price \<times> Qty) option" where
  "win_best c s =
     (let hw = (wl_count s > 0); ho = (wl_overflow s \<noteq> [])
      in if \<not> hw \<and> \<not> ho then None
         else if hw \<and> (\<not> ho \<or> \<not> cmp c (fst (hd (wl_overflow s))) (window_best_price s))
         then Some (window_best_price s, wl_slots s ! wl_best_idx s)
         else Some (hd (wl_overflow s)))"

definition win_at :: "Compare \<Rightarrow> windowed \<Rightarrow> Price \<Rightarrow> Qty" where
  "win_at c s p =
     (if in_window s p then wl_slots s ! win_index s p
      else case map_of (wl_overflow s) p of None \<Rightarrow> 0 | Some v \<Rightarrow> v)"

definition win_size :: "Compare \<Rightarrow> windowed \<Rightarrow> nat" where
  "win_size c s = wl_count s + length (wl_overflow s)"

function win_top_loop ::
  "Compare \<Rightarrow> windowed \<Rightarrow> nat \<Rightarrow> nat \<Rightarrow> bool \<Rightarrow> omap \<Rightarrow> ladder \<Rightarrow> ladder" where
  "win_top_loop c s n wi w_valid ofl out =
     (if length out < n \<and> (w_valid \<or> ofl \<noteq> []) then
        (if w_valid \<and> (ofl = [] \<or> \<not> cmp c (fst (hd ofl)) (wl_base s + int wi)) then
           (case next_window_idx c (wl_slots s) wi of
              None \<Rightarrow> win_top_loop c s n wi False ofl (out @ [(wl_base s + int wi, wl_slots s ! wi)])
            | Some i \<Rightarrow> win_top_loop c s n i True ofl (out @ [(wl_base s + int wi, wl_slots s ! wi)]))
         else win_top_loop c s n wi w_valid (tl ofl) (out @ [hd ofl]))
      else out)"
  by pat_completeness auto
termination
  by (relation "measure (\<lambda>(c, s, n, wi, w_valid, ofl, out). n - length out)") auto

declare win_top_loop.simps [simp del]

definition win_top :: "Compare \<Rightarrow> windowed \<Rightarrow> nat \<Rightarrow> ladder" where
  "win_top c s n =
     (if n = 0 then []
      else win_top_loop c s n (wl_best_idx s) (wl_count s > 0) (wl_overflow s) [])"

definition WindowedLevels :: "windowed level_ops" where
  "WindowedLevels = \<lparr>ls_empty = win_empty, ls_inc = win_inc, ls_dec = win_dec,
     ls_best = win_best, ls_at = win_at, ls_size = win_size, ls_top = win_top\<rparr>"

lemma WindowedLevels_simps [simp]:
  "ls_empty WindowedLevels = win_empty" "ls_inc WindowedLevels = win_inc"
  "ls_dec WindowedLevels = win_dec" "ls_best WindowedLevels = win_best"
  "ls_at WindowedLevels = win_at" "ls_size WindowedLevels = win_size"
  "ls_top WindowedLevels = win_top"
  by (simp_all add: WindowedLevels_def)

section \<open>Window indices in \<open>Compare\<close> order\<close>

text \<open>\<open>idx_from c n i\<close> lists the window indices from \<open>i\<close> on, towards the worse prices.\<close>

definition idx_after :: "Compare \<Rightarrow> nat \<Rightarrow> nat \<Rightarrow> nat list" where
  "idx_after c n i = (case c of Std_greater \<Rightarrow> rev [0..<i] | Std_less \<Rightarrow> [Suc i..<n])"

definition idx_all :: "Compare \<Rightarrow> nat \<Rightarrow> nat list" where
  "idx_all c n = (case c of Std_greater \<Rightarrow> rev [0..<n] | Std_less \<Rightarrow> [0..<n])"

definition used :: "Qty list \<Rightarrow> nat set" where
  "used sl = {i. i < length sl \<and> sl ! i \<noteq> 0}"

abbreviation live_idx :: "Qty list \<Rightarrow> nat list \<Rightarrow> nat list" where
  "live_idx sl is \<equiv> filter (\<lambda>i. sl ! i \<noteq> 0) is"

definition best_slot :: "Compare \<Rightarrow> Qty list \<Rightarrow> nat \<Rightarrow> bool" where
  "best_slot c sl b \<longleftrightarrow> b \<in> used sl \<and> (\<forall>j \<in> used sl. j = b \<or> cmp c (int b) (int j))"

lemma finite_used [simp]: "finite (used sl)"
  by (rule finite_subset [of _ "{..<length sl}"]) (auto simp: used_def)

lemma sorted_idx_all: "sorted_wrt (\<lambda>i j. cmp c (int i) (int j)) (idx_all c n)"
  by (cases c) (simp_all add: idx_all_def sorted_wrt_rev)

lemma set_idx_all [simp]: "set (idx_all c n) = {..<n}"
  by (cases c) (auto simp: idx_all_def)

lemma distinct_idx_all [simp]: "distinct (idx_all c n)"
  by (cases c) (auto simp: idx_all_def)

lemma next_window_idx_greater [simp]:
  "next_window_idx Std_greater sl 0 = None"
  "next_window_idx Std_greater sl (Suc i) =
     (if sl ! i \<noteq> 0 then Some i else next_window_idx Std_greater sl i)"
  by (simp_all add: next_window_idx.simps [of Std_greater])

lemma next_window_idx_less:
  "next_window_idx Std_less sl i =
     (if i + 1 \<ge> length sl then None
      else if sl ! (i + 1) \<noteq> 0 then Some (i + 1)
      else next_window_idx Std_less sl (i + 1))"
  by (simp add: next_window_idx.simps [of Std_less sl i])

text \<open>The scan returns the next non-empty slot, and skips only empty ones.\<close>

definition scan_ok :: "Compare \<Rightarrow> Qty list \<Rightarrow> nat \<Rightarrow> nat option \<Rightarrow> bool" where
  "scan_ok c sl i r \<longleftrightarrow>
     (case r of
        None \<Rightarrow> live_idx sl (idx_after c (length sl) i) = []
      | Some j \<Rightarrow> j \<in> used sl \<and>
          live_idx sl (idx_after c (length sl) i) = j # live_idx sl (idx_after c (length sl) j))"

lemma scan_ok_greater: "i < length sl \<Longrightarrow> scan_ok Std_greater sl i (next_window_idx Std_greater sl i)"
  by (induction i) (auto simp: scan_ok_def idx_after_def used_def split: option.splits)

lemma scan_ok_less: "i < length sl \<Longrightarrow> scan_ok Std_less sl i (next_window_idx Std_less sl i)"
proof (induction "length sl - i" arbitrary: i rule: less_induct)
  case less
  show ?case
  proof (cases "i + 1 \<ge> length sl")
    case True
    then show ?thesis by (simp add: next_window_idx_less [of sl i] scan_ok_def idx_after_def)
  next
    case False
    then have "scan_ok Std_less sl (i + 1) (next_window_idx Std_less sl (i + 1))"
      using less by simp
    moreover have "[Suc i..<length sl] = Suc i # [Suc (Suc i)..<length sl]"
      using False by (simp add: upt_conv_Cons)
    ultimately show ?thesis
      using False
      by (auto simp: next_window_idx_less [of sl i] scan_ok_def idx_after_def used_def
          split: option.splits)
  qed
qed

lemma scan_ok: "i < length sl \<Longrightarrow> scan_ok c sl i (next_window_idx c sl i)"
  by (cases c) (simp_all add: scan_ok_greater scan_ok_less)

lemma best_slot_scan:
  assumes "best_slot c sl b"
  shows "live_idx sl (idx_all c (length sl)) = b # live_idx sl (idx_after c (length sl) b)"
proof -
  have b: "b < length sl" "sl ! b \<noteq> 0"
    using assms by (auto simp: best_slot_def used_def)
  have others: "sl ! j = 0" if "j < length sl" "j \<noteq> b" "\<not> cmp c (int b) (int j)" for j
    using assms that by (auto simp: best_slot_def used_def)
  show ?thesis
  proof (cases c)
    case Std_greater
    have "rev [0..<length sl] = rev [Suc b..<length sl] @ b # rev [0..<b]"
      by (simp add: upt_split_at [OF b(1)])
    moreover have "live_idx sl (rev [Suc b..<length sl]) = []"
      using others Std_greater by (auto simp: filter_empty_conv)
    ultimately show ?thesis
      using b(2) by (simp add: Std_greater idx_all_def idx_after_def)
  next
    case Std_less
    have "[0..<length sl] = [0..<b] @ b # [Suc b..<length sl]"
      by (rule upt_split_at [OF b(1)])
    moreover have "live_idx sl [0..<b] = []"
      using others b(1) Std_less by (auto simp: filter_empty_conv)
    ultimately show ?thesis
      using b(2) by (simp add: Std_less idx_all_def idx_after_def)
  qed
qed

section \<open>Invariant and the ladder shown\<close>

definition win_invar :: "Compare \<Rightarrow> windowed \<Rightarrow> bool" where
  "win_invar c s \<longleftrightarrow>
     (if wl_has_base s then length (wl_slots s) = kWindow
      else wl_slots s = [] \<and> wl_overflow s = []) \<and>
     wl_count s = card (used (wl_slots s)) \<and>
     (wl_count s > 0 \<longrightarrow> best_slot c (wl_slots s) (wl_best_idx s)) \<and>
     ladder_ok c (wl_overflow s) \<and>
     (\<forall>x \<in> set (wl_overflow s). \<not> in_window s (fst x))"

definition win_part :: "Price \<Rightarrow> Qty list \<Rightarrow> nat list \<Rightarrow> ladder" where
  "win_part b sl is = map (\<lambda>i. (b + int i, sl ! i)) (live_idx sl is)"

fun merge :: "Compare \<Rightarrow> ladder \<Rightarrow> ladder \<Rightarrow> ladder" where
  "merge c [] ys = ys"
| "merge c xs [] = xs"
| "merge c (x # xs) (y # ys) =
     (if \<not> cmp c (fst y) (fst x) then x # merge c xs (y # ys) else y # merge c (x # xs) ys)"

definition win_shown :: "Compare \<Rightarrow> windowed \<Rightarrow> ladder" where
  "win_shown c s =
     merge c (win_part (wl_base s) (wl_slots s) (idx_all c (length (wl_slots s)))) (wl_overflow s)"

lemma merge_Nil2 [simp]: "merge c xs [] = xs"
  by (cases xs) auto

lemma set_merge: "set (merge c xs ys) = set xs \<union> set ys"
  by (induction c xs ys rule: merge.induct) auto

lemma length_merge: "length (merge c xs ys) = length xs + length ys"
  by (induction c xs ys rule: merge.induct) auto

lemma ladder_ok_merge:
  "ladder_ok c xs \<Longrightarrow> ladder_ok c ys \<Longrightarrow> fst ` set xs \<inter> fst ` set ys = {} \<Longrightarrow>
   ladder_ok c (merge c xs ys)"
proof (induction c xs ys rule: merge.induct)
  case (3 c x xs y ys)
  then show ?case
    by (auto simp: set_merge not_cmp intro: cmp_trans)
qed auto

lemma ladder_at_merge:
  "fst ` set xs \<inter> fst ` set ys = {} \<Longrightarrow>
   ladder_at (merge c xs ys) p = (if p \<in> fst ` set xs then ladder_at xs p else ladder_at ys p)"
  by (induction c xs ys rule: merge.induct) (auto simp: ladder_at_notin)

lemma ladder_ok_win_part: "ladder_ok c (win_part b sl (idx_all c (length sl)))"
proof -
  have "sorted_wrt (\<lambda>i j. cmp c (b + int i) (b + int j)) (live_idx sl (idx_all c (length sl)))"
    using sorted_idx_all [of c "length sl"]
    by (intro sorted_wrt_filter) (cases c; simp)
  then show ?thesis
    by (auto simp: win_part_def ladder_ok_def ladder_sorted_def sorted_wrt_map)
qed

lemma keys_win_part: "fst ` set (win_part b sl (idx_all c (length sl))) = (\<lambda>i. b + int i) ` used sl"
  by (auto simp: win_part_def used_def image_iff)

lemma ladder_at_win_part:
  "ladder_at (win_part b sl (idx_all c (length sl))) p =
     (if b \<le> p \<and> nat (p - b) < length sl then sl ! nat (p - b) else 0)"
proof (cases "p \<in> (\<lambda>i. b + int i) ` used sl")
  case True
  then obtain i where i: "i \<in> used sl" "p = b + int i" by auto
  then have "(p, sl ! i) \<in> set (win_part b sl (idx_all c (length sl)))"
    by (auto simp: win_part_def used_def)
  with ladder_ok_win_part i show ?thesis
    by (auto simp: used_def dest: ladder_at_mem [OF ladder_okD])
next
  case False
  have "sl ! nat (p - b) = 0" if "b \<le> p" "nat (p - b) < length sl"
    using False that by (force simp: used_def image_iff)
  moreover have "ladder_at (win_part b sl (idx_all c (length sl))) p = 0"
    using False by (intro ladder_at_notin) (simp add: keys_win_part)
  ultimately show ?thesis by auto
qed

lemma win_index_in: "in_window s p \<Longrightarrow> win_index s p = nat (p - wl_base s) \<and> win_index s p < kWindow"
  by (auto simp: in_window_def win_index_def kWindow_def)

lemma win_index_eq:
  "in_window s p \<Longrightarrow> in_window s p' \<Longrightarrow> win_index s p' = win_index s p \<longleftrightarrow> p' = p"
  using win_index_in [of s p] win_index_in [of s p'] by (auto simp: in_window_def)

lemma in_window_iff_slot:
  "win_invar c s \<Longrightarrow>
   in_window s p \<longleftrightarrow> wl_base s \<le> p \<and> nat (p - wl_base s) < length (wl_slots s)"
  by (auto simp: win_invar_def in_window_def split: if_splits)

lemma win_keys_disjoint:
  assumes "win_invar c s"
  shows "(\<lambda>i. wl_base s + int i) ` used (wl_slots s) \<inter> fst ` set (wl_overflow s) = {}"
  using assms in_window_iff_slot [OF assms] by (fastforce simp: win_invar_def used_def)

lemma ladder_ok_win_shown: "win_invar c s \<Longrightarrow> ladder_ok c (win_shown c s)"
  unfolding win_shown_def
  using win_keys_disjoint [of c s]
  by (intro ladder_ok_merge ladder_ok_win_part) (simp_all add: keys_win_part win_invar_def)

text \<open>The quantity the merged ladder shows at a price is what \<open>at\<close> returns.\<close>

lemma ladder_at_win_shown:
  assumes "win_invar c s"
  shows "ladder_at (win_shown c s) p = win_at c s p"
proof -
  let ?w = "win_part (wl_base s) (wl_slots s) (idx_all c (length (wl_slots s)))"
  have disj: "fst ` set ?w \<inter> fst ` set (wl_overflow s) = {}"
    using win_keys_disjoint [OF assms] by (simp add: keys_win_part)
  show ?thesis
  proof (cases "in_window s p")
    case True
    then have ov: "p \<notin> fst ` set (wl_overflow s)"
      using assms by (force simp: win_invar_def)
    then have "ladder_at (win_shown c s) p = ladder_at ?w p"
      by (auto simp: win_shown_def ladder_at_merge [OF disj] ladder_at_notin)
    with True show ?thesis
      using in_window_iff_slot [OF assms, of p] win_index_in [OF True]
      by (simp add: win_at_def ladder_at_win_part)
  next
    case False
    then have "p \<notin> fst ` set ?w"
      using in_window_iff_slot [OF assms, of p] by (auto simp: keys_win_part used_def)
    then have "ladder_at (win_shown c s) p = ladder_at (wl_overflow s) p"
      by (simp add: win_shown_def ladder_at_merge [OF disj])
    with False show ?thesis
      by (simp add: win_at_def ladder_at_def)
  qed
qed

section \<open>Queries read the ladder\<close>

abbreviation win_from :: "Compare \<Rightarrow> windowed \<Rightarrow> nat \<Rightarrow> ladder" where
  "win_from c s i \<equiv>
     win_part (wl_base s) (wl_slots s) (i # idx_after c (length (wl_slots s)) i)"

lemma win_part_all:
  assumes "win_invar c s"
  shows "win_part (wl_base s) (wl_slots s) (idx_all c (length (wl_slots s))) =
         (if wl_count s > 0 then win_from c s (wl_best_idx s) else [])"
proof (cases "wl_count s > 0")
  case True
  with assms have b: "best_slot c (wl_slots s) (wl_best_idx s)"
    by (simp add: win_invar_def)
  then have "wl_slots s ! wl_best_idx s \<noteq> 0"
    by (simp add: best_slot_def used_def)
  with True show ?thesis
    by (simp add: win_part_def best_slot_scan [OF b])
next
  case False
  with assms have "used (wl_slots s) = {}"
    by (simp add: win_invar_def)
  with False show ?thesis
    by (auto simp: win_part_def filter_empty_conv used_def)
qed

lemma win_from_Cons:
  "i \<in> used (wl_slots s) \<Longrightarrow>
   win_from c s i = (wl_base s + int i, wl_slots s ! i) #
     win_part (wl_base s) (wl_slots s) (idx_after c (length (wl_slots s)) i)"
  by (simp add: win_part_def used_def)

lemma win_from_next:
  "i \<in> used (wl_slots s) \<Longrightarrow>
   win_part (wl_base s) (wl_slots s) (idx_after c (length (wl_slots s)) i) =
     (case next_window_idx c (wl_slots s) i of
        None \<Rightarrow> [] | Some j \<Rightarrow> win_from c s j)"
  using scan_ok [of i "wl_slots s" c]
  by (auto simp: scan_ok_def used_def win_part_def split: option.splits)

lemma next_window_idx_used:
  "next_window_idx c sl i = Some j \<Longrightarrow> i < length sl \<Longrightarrow> j \<in> used sl"
  using scan_ok [of i sl c] by (simp add: scan_ok_def)

lemma win_top_loop_take:
  "(w_valid \<Longrightarrow> wi \<in> used (wl_slots s)) \<Longrightarrow> length out \<le> n \<Longrightarrow>
   win_top_loop c s n wi w_valid ofl out =
     out @ take (n - length out) (merge c (if w_valid then win_from c s wi else []) ofl)"
proof (induction c s n wi w_valid ofl out rule: win_top_loop.induct)
  case (1 c s n wi w_valid ofl out)
  let ?take_w = "w_valid \<and> (ofl = [] \<or> \<not> cmp c (fst (hd ofl)) (wl_base s + int wi))"
  show ?case
  proof (cases "length out < n \<and> (w_valid \<or> ofl \<noteq> [])")
    case False
    then show ?thesis
      using "1.prems" by (auto simp: win_top_loop.simps [of c s n wi w_valid ofl out])
  next
    case go: True
    then have take_Cons: "take (n - length out) (x # xs) = x # take (n - Suc (length out)) xs"
      for x :: "Price \<times> Qty" and xs
      by (metis Suc_diff_Suc take_Suc_Cons)
    show ?thesis
    proof (cases ?take_w)
      case True
      then have wi: "wi \<in> used (wl_slots s)" "wi < length (wl_slots s)"
        using "1.prems" by (auto simp: used_def)
      have eq: "win_top_loop c s n wi w_valid ofl out =
          win_top_loop c s n (case next_window_idx c (wl_slots s) wi of None \<Rightarrow> wi | Some i \<Rightarrow> i)
            (next_window_idx c (wl_slots s) wi \<noteq> None) ofl
            (out @ [(wl_base s + int wi, wl_slots s ! wi)])"
        using go True
        by (subst win_top_loop.simps) (simp split: option.split)
      have mrg: "merge c (win_from c s wi) ofl = (wl_base s + int wi, wl_slots s ! wi) #
          merge c (win_part (wl_base s) (wl_slots s) (idx_after c (length (wl_slots s)) wi)) ofl"
        using True unfolding win_from_Cons [OF wi(1)] by (cases ofl) auto
      show ?thesis
        unfolding eq
        using "1.IH"(1,2) [OF go True] go True next_window_idx_used [OF _ wi(2)]
        by (cases "next_window_idx c (wl_slots s) wi")
          (simp_all add: mrg take_Cons win_from_next [OF wi(1)])
    next
      case False
      then obtain y ys where ofl: "ofl = y # ys"
        using go by (cases ofl) auto
      have eq: "win_top_loop c s n wi w_valid ofl out = win_top_loop c s n wi w_valid ys (out @ [y])"
        using go False by (subst win_top_loop.simps) (auto simp: ofl)
      have "merge c (if w_valid then win_from c s wi else []) ofl =
          y # merge c (if w_valid then win_from c s wi else []) ys"
        using False "1.prems"(1) by (cases w_valid) (auto simp: ofl win_from_Cons)
      then show ?thesis
        unfolding eq using "1.IH"(3) [OF go False] "1.prems" go
        by (simp add: ofl take_Cons)
    qed
  qed
qed

lemma win_top_shown:
  assumes "win_invar c s"
  shows "win_top c s n = take n (win_shown c s)"
proof -
  have "wl_count s > 0 \<Longrightarrow> wl_best_idx s \<in> used (wl_slots s)"
    using assms by (simp add: win_invar_def best_slot_def)
  then show ?thesis
    by (simp add: win_top_def win_shown_def win_part_all [OF assms] win_top_loop_take)
qed

lemma win_best_shown:
  assumes "win_invar c s"
  shows "win_best c s = (case win_shown c s of [] \<Rightarrow> None | x # _ \<Rightarrow> Some x)"
proof -
  have "wl_count s > 0 \<Longrightarrow> wl_best_idx s \<in> used (wl_slots s)"
    using assms by (simp add: win_invar_def best_slot_def)
  then show ?thesis
    by (cases "wl_overflow s")
      (auto simp: win_best_def win_shown_def win_part_all [OF assms] window_best_price_def
        win_from_Cons)
qed

lemma win_size_shown:
  assumes "win_invar c s"
  shows "win_size c s = length (win_shown c s)"
proof -
  have "length (live_idx (wl_slots s) (idx_all c (length (wl_slots s)))) = card (used (wl_slots s))"
    by (subst distinct_card [symmetric]) (auto simp: used_def intro: arg_cong [where f = card])
  with assms show ?thesis
    by (simp add: win_size_def win_shown_def length_merge win_part_def win_invar_def)
qed

section \<open>Updates keep the invariant\<close>

lemma used_update:
  "i < length sl \<Longrightarrow>
   used (sl[i := v]) = (if v = 0 then used sl - {i} else insert i (used sl))"
  by (auto simp: used_def nth_list_update split: if_splits)

lemma best_slot_insert:
  assumes "best_slot c sl b" and "i < length sl" and "v \<noteq> 0"
  shows "best_slot c (sl[i := v]) (if cmp c (int i) (int b) then i else b)"
  using assms by (auto simp: best_slot_def used_update not_cmp intro: cmp_trans)

lemma best_slot_insert_same:
  "best_slot c sl b \<Longrightarrow> i \<in> used sl \<Longrightarrow> v \<noteq> 0 \<Longrightarrow> best_slot c (sl[i := v]) b"
  by (auto simp: best_slot_def used_update used_def [of sl] split: if_splits)

lemma best_slot_single: "used sl = {} \<Longrightarrow> i < length sl \<Longrightarrow> v \<noteq> 0 \<Longrightarrow> best_slot c (sl[i := v]) i"
  by (simp add: best_slot_def used_update)

lemma cmp_shift: "cmp c (b + i) (b + j) = cmp c i j"
  by (cases c) auto

lemma place_in_window_sel [simp]:
  "wl_slots (place_in_window c p q s) =
     (wl_slots s)[win_index s p := wl_slots s ! win_index s p + q]"
  "wl_overflow (place_in_window c p q s) = wl_overflow s"
  "wl_base (place_in_window c p q s) = wl_base s"
  "wl_has_base (place_in_window c p q s) = wl_has_base s"
  "win_index (place_in_window c p q s) = win_index s"
  "in_window (place_in_window c p q s) = in_window s"
  by (simp_all add: place_in_window_def Let_def win_index_def in_window_def fun_eq_iff)

lemma place_in_window_count:
  "wl_count (place_in_window c p q s) =
     (if wl_slots s ! win_index s p = 0 then Suc (wl_count s) else wl_count s)"
  "wl_best_idx (place_in_window c p q s) =
     (if wl_slots s ! win_index s p = 0 \<and> (wl_count s = 0 \<or> cmp c p (window_best_price s))
      then win_index s p else wl_best_idx s)"
  by (simp_all add: place_in_window_def Let_def)

text \<open>
  Placing a quantity at a price inside the window. The slot index is in range, so the array
  access of the C++ code is defined.
\<close>

lemma place_in_window_ok:
  assumes inv: "win_invar c s" and p: "in_window s p" and q: "q \<noteq> 0"
    and small: "unat (win_at c s p) + unat q < 2 ^ 32"
  shows "win_invar c (place_in_window c p q s)"
    and "win_at c (place_in_window c p q s) = (win_at c s)(p := win_at c s p + q)"
proof -
  let ?i = "win_index s p" and ?sl = "wl_slots s"
  have len: "length ?sl = kWindow" and hb: "wl_has_base s"
    using inv p by (auto simp: win_invar_def in_window_def split: if_splits)
  have i: "?i < length ?sl" "p = wl_base s + int ?i"
    using win_index_in [OF p] p len by (auto simp: in_window_def)
  have at: "win_at c s p = ?sl ! ?i"
    using p by (simp add: win_at_def)
  have nz: "?sl ! ?i + q \<noteq> 0"
    using small nonzero_sum_small [OF q, of "?sl ! ?i"] by (simp add: at)
  have at': "win_at c (place_in_window c p q s) p' = (if p' = p then ?sl ! ?i + q else win_at c s p')" for p'
  proof (cases "in_window s p'")
    case True
    then have "win_index s p' = ?i \<longleftrightarrow> p' = p" "win_index s p' < length ?sl"
      using win_index_eq [OF p True] win_index_in [OF True] len by auto
    with True i(1) p show ?thesis
      by (cases "p' = p") (simp_all add: win_at_def)
  next
    case False
    with p show ?thesis
      by (auto simp: win_at_def)
  qed
  then show "win_at c (place_in_window c p q s) = (win_at c s)(p := win_at c s p + q)"
    by (auto simp: fun_eq_iff at)
  have cmp_idx: "cmp c p (window_best_price s) = cmp c (int ?i) (int (wl_best_idx s))"
    using cmp_shift [of c "wl_base s" "int ?i" "int (wl_best_idx s)"] i(2)
    by (simp add: window_best_price_def)
  have cnt: "wl_count s = card (used ?sl)"
    and best: "wl_count s > 0 \<Longrightarrow> best_slot c ?sl (wl_best_idx s)"
    using inv by (auto simp: win_invar_def)
  show "win_invar c (place_in_window c p q s)"
  proof (cases "?sl ! ?i = 0")
    case True
    then have "?i \<notin> used ?sl" by (simp add: used_def)
    then have card: "card (used (?sl[?i := q])) = Suc (card (used ?sl))"
      using i q by (simp add: used_update)
    have "best_slot c (?sl[?i := q])
        (if wl_count s = 0 \<or> cmp c (int ?i) (int (wl_best_idx s)) then ?i else wl_best_idx s)"
      using best_slot_insert [OF best i(1) q] best_slot_single [OF _ i(1) q, of c] cnt
      by (cases "wl_count s = 0") auto
    with True inv card show ?thesis
      by (simp add: win_invar_def place_in_window_count cmp_idx hb)
  next
    case False
    then have u: "?i \<in> used ?sl" using i by (simp add: used_def)
    then have "wl_count s > 0" by (auto simp: cnt card_gt_0_iff)
    then have "best_slot c (?sl[?i := ?sl ! ?i + q]) (wl_best_idx s)"
      using best_slot_insert_same [OF best u nz] by simp
    moreover have "used (?sl[?i := ?sl ! ?i + q]) = used ?sl"
      using u nz i(1) by (auto simp: used_update)
    ultimately show ?thesis
      using False inv by (simp add: win_invar_def place_in_window_count)
  qed
qed

lemma overflow_add_ok:
  assumes inv: "win_invar c s" and hb: "wl_has_base s" and p: "\<not> in_window s p" and q: "q \<noteq> 0"
    and small: "unat (win_at c s p) + unat q < 2 ^ 32"
  defines "s' \<equiv> s\<lparr>wl_overflow := omap_add c p q (wl_overflow s)\<rparr>"
  shows "win_invar c s'" and "win_at c s' = (win_at c s)(p := win_at c s p + q)"
proof -
  have ok: "ladder_ok c (wl_overflow s)" using inv by (simp add: win_invar_def)
  have at: "win_at c s p = ladder_at (wl_overflow s) p"
    using p by (simp add: win_at_def ladder_at_def)
  have inw: "in_window s' = in_window s"
    by (simp add: s'_def in_window_def fun_eq_iff)
  have ov: "ladder_ok c (wl_overflow s')"
    using ok q small nonzero_sum_small [OF q]
    by (simp add: s'_def omap_add_alt at ladder_ok_omap_put)
  have "ladder_at (wl_overflow s') = (ladder_at (wl_overflow s))(p := win_at c s p + q)"
    using ladder_okD [OF ok] by (simp add: s'_def omap_add_alt ladder_at_omap_put at)
  then have "win_at c s' p' = (if p' = p then win_at c s p + q else win_at c s p')" for p'
    using p inw by (simp add: win_at_def ladder_at_def [symmetric] s'_def win_index_def)
  then show "win_at c s' = (win_at c s)(p := win_at c s p + q)"
    by (simp add: fun_eq_iff)
  have "\<forall>x \<in> set (wl_overflow s'). \<not> in_window s (fst x)"
    using inv p set_omap_put [of c p "ladder_at (wl_overflow s) p + q" "wl_overflow s"]
    by (fastforce simp: s'_def omap_add_alt win_invar_def)
  with inv hb ov inw show "win_invar c s'"
    by (simp add: win_invar_def) (simp add: s'_def)
qed

lemma win_bucket_ok:
  assumes "win_invar c s" and "wl_has_base s" and "q \<noteq> 0"
    and "unat (win_at c s p) + unat q < 2 ^ 32"
  shows "win_invar c (win_bucket c (p, q) s)"
    and "win_at c (win_bucket c (p, q) s) = (win_at c s)(p := win_at c s p + q)"
    and "wl_base (win_bucket c (p, q) s) = wl_base s" and "wl_has_base (win_bucket c (p, q) s)"
  using place_in_window_ok [OF assms(1) _ assms(3,4)] overflow_add_ok [OF assms(1,2) _ assms(3,4)]
    assms(2)
  by (cases "in_window s p"; simp add: win_bucket_def)+

lemma win_bucket_fold:
  assumes "win_invar c s" and "wl_has_base s" and "distinct (map fst xs)"
    and "\<forall>x \<in> set xs. snd x \<noteq> 0 \<and> win_at c s (fst x) = 0"
  shows "win_invar c (fold (win_bucket c) xs s) \<and> wl_has_base (fold (win_bucket c) xs s) \<and>
         wl_base (fold (win_bucket c) xs s) = wl_base s \<and>
         win_at c (fold (win_bucket c) xs s) =
           (\<lambda>p. if p \<in> fst ` set xs then ladder_at xs p else win_at c s p)"
  using assms
proof (induction xs arbitrary: s)
  case (Cons x xs)
  obtain p q where x: "x = (p, q)" by (cases x)
  have q: "q \<noteq> 0" "win_at c s p = 0" "unat (win_at c s p) + unat q < 2 ^ 32"
    using Cons.prems(4) unat_u32_less [of q] by (auto simp: x)
  note step = win_bucket_ok [OF Cons.prems(1,2) q(1,3)]
  have "\<forall>y \<in> set xs. snd y \<noteq> 0 \<and> win_at c (win_bucket c x s) (fst y) = 0"
    using Cons.prems(3,4) by (force simp: x step)
  from Cons.IH [OF step(1,4) _ this [unfolded x]] Cons.prems(3) show ?case
    by (auto simp: x step fun_eq_iff q)
qed auto

lemma win_collect_ladder:
  assumes "win_invar c s"
  shows "distinct (map fst (win_collect s))" and "\<forall>x \<in> set (win_collect s). snd x \<noteq> 0"
    and "ladder_at (win_collect s) p = win_at c s p"
proof -
  let ?w = "win_part (wl_base s) (wl_slots s) [0..<length (wl_slots s)]"
  have up: "[0..<length (wl_slots s)] = idx_all Std_less (length (wl_slots s))"
    by (simp add: idx_all_def)
  have col: "win_collect s = ?w @ wl_overflow s"
    using assms by (auto simp: win_collect_def win_part_def win_invar_def split: if_splits)
  have ok: "ladder_ok Std_less ?w" and keys: "fst ` set ?w = (\<lambda>i. wl_base s + int i) ` used (wl_slots s)"
    unfolding up by (rule ladder_ok_win_part, rule keys_win_part)
  have ov: "ladder_ok c (wl_overflow s)" using assms by (simp add: win_invar_def)
  have disj: "fst ` set ?w \<inter> fst ` set (wl_overflow s) = {}"
    using win_keys_disjoint [OF assms] by (simp add: keys)
  then show "distinct (map fst (win_collect s))"
    using ok ov by (simp add: col ladder_sorted_distinct [OF ladder_okD])
  show "\<forall>x \<in> set (win_collect s). snd x \<noteq> 0"
    using ok ov by (auto simp: col ladder_ok_def)
  have "ladder_at (win_collect s) p = (if p \<in> fst ` set ?w then ladder_at ?w p else ladder_at (wl_overflow s) p)"
    by (simp add: col ladder_at_append)
  also have "\<dots> = ladder_at (win_shown c s) p"
    using disj by (auto simp: win_shown_def ladder_at_merge [OF win_keys_disjoint [OF assms, folded keys_win_part [where c = c]]]
        keys keys_win_part ladder_at_win_part up)
  finally show "ladder_at (win_collect s) p = win_at c s p"
    by (simp add: ladder_at_win_shown [OF assms])
qed

text \<open>Re-centring moves the window without changing what any price shows.\<close>

lemma recenter_to_ok:
  assumes "win_invar c s" and "0 \<le> p"
  shows "win_invar c (recenter_to c p s)" and "in_window (recenter_to c p s) p"
    and "wl_has_base (recenter_to c p s)" and "win_at c (recenter_to c p s) = win_at c s"
proof -
  define nb where "nb = (if p - int (kWindow div 2) < 0 then 0 else p - int (kWindow div 2))"
  define s0 where "s0 = \<lparr>wl_slots = replicate kWindow 0, wl_overflow = [], wl_base = nb,
    wl_best_idx = 0, wl_count = 0, wl_has_base = True\<rparr>"
  have used0: "used (replicate kWindow 0) = {}" by (auto simp: used_def)
  have at0: "win_at c s0 = (\<lambda>_. 0)"
  proof
    fix x
    have "wl_slots s0 = replicate kWindow 0" "wl_overflow s0 = []" by (simp_all add: s0_def)
    with win_index_in [of s0 x] show "win_at c s0 x = 0"
      by (cases "in_window s0 x") (simp_all add: win_at_def)
  qed
  have inv0: "win_invar c s0" "wl_has_base s0" by (simp_all add: win_invar_def used0 s0_def)
  have rc: "recenter_to c p s = fold (win_bucket c) (win_collect s) s0"
    by (simp add: recenter_to_def Let_def s0_def nb_def)
  note col = win_collect_ladder [OF assms(1)]
  have f: "win_invar c (recenter_to c p s)" "wl_has_base (recenter_to c p s)"
      "wl_base (recenter_to c p s) = nb"
      "win_at c (recenter_to c p s) =
        (\<lambda>p. if p \<in> fst ` set (win_collect s) then ladder_at (win_collect s) p else 0)"
    using win_bucket_fold [OF inv0 col(1)] col(2) by (auto simp: rc at0 fun_eq_iff) (simp add: s0_def)
  show "win_invar c (recenter_to c p s)" "wl_has_base (recenter_to c p s)" by (fact f)+
  show "in_window (recenter_to c p s) p"
    using f(2,3) assms(2) by (auto simp: in_window_def kWindow_def nb_def)
  show "win_at c (recenter_to c p s) = win_at c s"
    using ladder_at_notin [of _ "win_collect s"] by (auto simp: f(4) fun_eq_iff col(3) [symmetric])
qed

lemma win_inc_ok:
  assumes "win_invar c s" and "0 \<le> p" and "q \<noteq> 0" and "unat (win_at c s p) + unat q < 2 ^ 32"
  shows "win_invar c (win_inc c p q s)"
    and "win_at c (win_inc c p q s) = (win_at c s)(p := win_at c s p + q)"
proof -
  note rc = recenter_to_ok [OF assms(1,2)]
  note placed = place_in_window_ok [OF rc(1,2) assms(3), unfolded rc(4), OF assms(4)]
  note here = place_in_window_ok [OF assms(1) _ assms(3,4)]
  note spill = overflow_add_ok [OF assms(1) _ _ assms(3,4)]
  show "win_invar c (win_inc c p q s)"
    using assms(3) placed(1) here(1) spill(1) by (auto simp: win_inc_def)
  show "win_at c (win_inc c p q s) = (win_at c s)(p := win_at c s p + q)"
    using assms(3) placed(2) here(2) spill(2) by (auto simp: win_inc_def)
qed

text \<open>Emptying the best slot: the scan finds the next one if there is any.\<close>

lemma rescan_best_ok:
  assumes "best_slot c sl b" and "sl' = sl[b := 0]" and "used sl' \<noteq> {}"
  obtains j where "next_window_idx c sl' b = Some j" "best_slot c sl' j"
proof -
  have b: "b < length sl" using assms(1) by (auto simp: best_slot_def used_def)
  have us: "used sl' = used sl - {b}" using b by (simp add: assms(2) used_update)
  have live': "live_idx sl' is = filter (\<lambda>i. i \<noteq> b) (live_idx sl is)" for "is"
    using b by (auto simp: assms(2) nth_list_update intro!: filter_cong)
  have after: "live_idx sl' (idx_all c (length sl')) = live_idx sl' (idx_after c (length sl') b)"
    unfolding live' using best_slot_scan [OF assms(1)] by (simp add: assms(2) del: filter_filter)
  have sc: "scan_ok c sl' b (next_window_idx c sl' b)"
    using b by (intro scan_ok) (simp add: assms(2))
  obtain k where k: "k \<in> used sl'" using assms(3) by blast
  then have "live_idx sl' (idx_all c (length sl')) \<noteq> []"
    by (auto simp: used_def filter_empty_conv)
  with sc after obtain j where j: "next_window_idx c sl' b = Some j" "j \<in> used sl'"
    "live_idx sl' (idx_all c (length sl')) = j # live_idx sl' (idx_after c (length sl') j)"
    by (auto simp: scan_ok_def split: option.splits)
  have "sorted_wrt (\<lambda>i j. cmp c (int i) (int j)) (live_idx sl' (idx_all c (length sl')))"
    by (intro sorted_wrt_filter sorted_idx_all)
  moreover have "i \<in> set (live_idx sl' (idx_all c (length sl')))" if "i \<in> used sl'" for i
    using that by (auto simp: used_def)
  ultimately have "best_slot c sl' j"
    using j by (fastforce simp: best_slot_def)
  with j(1) show thesis by (rule that)
qed

lemma rescan_best_sel [simp]:
  "wl_slots (rescan_best c s) = wl_slots s" "wl_overflow (rescan_best c s) = wl_overflow s"
  "wl_base (rescan_best c s) = wl_base s" "wl_count (rescan_best c s) = wl_count s"
  "wl_has_base (rescan_best c s) = wl_has_base s"
  by (simp_all add: rescan_best_def split: option.split)

lemma win_dec_window_ok:
  assumes inv: "win_invar c s" and p: "in_window s p" and q: "q \<le> win_at c s p"
  shows "win_invar c (win_dec c p q s)"
    and "win_at c (win_dec c p q s) = (win_at c s)(p := win_at c s p - q)"
proof -
  let ?i = "win_index s p" and ?sl = "wl_slots s" and ?s' = "win_dec c p q s"
  have len: "length ?sl = kWindow" "wl_has_base s"
    using inv p by (auto simp: win_invar_def in_window_def split: if_splits)
  then have i: "?i < length ?sl" using win_index_in [OF p] by simp
  have at: "win_at c s p = ?sl ! ?i" using p by (simp add: win_at_def)
  have cnt: "wl_count s = card (used ?sl)"
    and best: "wl_count s > 0 \<Longrightarrow> best_slot c ?sl (wl_best_idx s)"
    using inv by (auto simp: win_invar_def)
  have same: "wl_base ?s' = wl_base s" "wl_has_base ?s' = wl_has_base s"
      "wl_overflow ?s' = wl_overflow s"
    by (simp_all add: win_dec_def Let_def p)
  have sl': "wl_slots ?s' = ?sl[?i := ?sl ! ?i - q]"
  proof (cases "?sl ! ?i = 0")
    case True
    then have "?sl[?i := 0] = ?sl" by (metis list_update_id)
    with True q show ?thesis by (simp add: win_dec_def Let_def p at)
  qed (simp add: win_dec_def Let_def p)
  have inw: "in_window ?s' = in_window s" "win_index ?s' = win_index s"
    by (simp_all add: in_window_def win_index_def same fun_eq_iff)
  have "win_at c ?s' p' = (if p' = p then win_at c s p - q else win_at c s p')" for p'
  proof (cases "in_window s p'")
    case True
    then have "win_index s p' = ?i \<longleftrightarrow> p' = p" "win_index s p' < length ?sl"
      using win_index_eq [OF p True] win_index_in [OF True] len by auto
    with True i p show ?thesis
      by (cases "p' = p") (simp_all add: win_at_def inw sl')
  next
    case False
    with p show ?thesis by (auto simp: win_at_def inw same)
  qed
  then show "win_at c ?s' = (win_at c s)(p := win_at c s p - q)"
    by (simp add: fun_eq_iff)
  have idx: "wl_count ?s' = card (used (wl_slots ?s')) \<and>
      (wl_count ?s' > 0 \<longrightarrow> best_slot c (wl_slots ?s') (wl_best_idx ?s'))"
  proof (cases "?i \<in> used ?sl")
    case False
    then have "?sl ! ?i = 0" using i by (simp add: used_def)
    then show ?thesis using cnt best p by (simp add: win_dec_def)
  next
    case u: True
    then have nz: "?sl ! ?i \<noteq> 0" by (simp add: used_def)
    have pos: "wl_count s > 0" using u by (auto simp: cnt card_gt_0_iff)
    note b = best [OF pos]
    show ?thesis
    proof (cases "?sl ! ?i - q = 0")
      case False
      then have "wl_count ?s' = wl_count s" "wl_best_idx ?s' = wl_best_idx s"
        using p nz by (simp_all add: win_dec_def Let_def)
      moreover have "used (wl_slots ?s') = used ?sl"
        using u False i by (auto simp: sl' used_update)
      ultimately show ?thesis
        using best_slot_insert_same [OF b u False] cnt by (simp add: sl')
    next
      case zero: True
      then have us: "used (wl_slots ?s') = used ?sl - {?i}"
        using i by (simp add: sl' used_update)
      have cnt': "wl_count ?s' = card (used (wl_slots ?s'))"
        using p nz zero u cnt
        unfolding us by (simp add: win_dec_def Let_def card_Diff_singleton)
      moreover have "best_slot c (wl_slots ?s') (wl_best_idx ?s')" if c: "wl_count ?s' > 0"
      proof (cases "?i = wl_best_idx s")
        case False
        then have "wl_best_idx ?s' = wl_best_idx s"
          using p nz zero by (simp add: win_dec_def Let_def)
        with b False show ?thesis by (auto simp: best_slot_def us)
      next
        case True
        have ne: "used (?sl[wl_best_idx s := 0]) \<noteq> {}"
          using c zero True by (auto simp: cnt' card_gt_0_iff sl')
        obtain j where j: "next_window_idx c (?sl[wl_best_idx s := 0]) (wl_best_idx s) = Some j"
          "best_slot c (?sl[wl_best_idx s := 0]) j"
          using rescan_best_ok [OF b refl ne] by blast
        have "wl_count s - 1 \<noteq> 0"
          using c cnt' us u cnt by (simp add: card_Diff_singleton)
        then have "wl_best_idx ?s' = j"
          using p nz zero True j by (simp add: win_dec_def Let_def rescan_best_def)
        with j(2) show ?thesis using zero True by (simp add: sl')
      qed
      ultimately show ?thesis by blast
    qed
  qed
  with inv show "win_invar c ?s'"
    by (simp add: win_invar_def same inw sl')
qed

lemma win_dec_overflow_ok:
  assumes inv: "win_invar c s" and p: "\<not> in_window s p" and q: "q \<le> win_at c s p"
  shows "win_invar c (win_dec c p q s)"
    and "win_at c (win_dec c p q s) = (win_at c s)(p := win_at c s p - q)"
proof -
  let ?s' = "win_dec c p q s"
  have ok: "ladder_ok c (wl_overflow s)" using inv by (simp add: win_invar_def)
  have at: "win_at c s p = ladder_at (wl_overflow s) p"
    using p by (simp add: win_at_def ladder_at_def)
  have s': "?s' = s\<lparr>wl_overflow := map_dec c p q (wl_overflow s)\<rparr>"
    using p by (simp add: win_dec_def map_dec_def Let_def split: option.split)
  have inw: "in_window ?s' = in_window s" "win_index ?s' = win_index s"
    by (simp_all add: in_window_def win_index_def s' fun_eq_iff)
  have "ladder_at (wl_overflow ?s') = (ladder_at (wl_overflow s))(p := win_at c s p - q)"
    using ladder_at_map_dec [OF ladder_okD [OF ok], of q p] q by (simp add: s' at)
  then have "win_at c ?s' p' = (if p' = p then win_at c s p - q else win_at c s p')" for p'
    using p by (simp add: win_at_def ladder_at_def [symmetric] inw) (simp add: s')
  then show "win_at c ?s' = (win_at c s)(p := win_at c s p - q)"
    by (simp add: fun_eq_iff)
  have "\<forall>x \<in> set (wl_overflow ?s'). \<not> in_window s (fst x)"
    using inv p by (auto simp: s' win_invar_def map_dec_def Let_def split: option.splits
        dest!: set_omap_put [THEN subsetD] set_omap_erase [THEN subsetD])
  moreover have "map_dec c p q [] = []" by (simp add: map_dec_def)
  ultimately show "win_invar c ?s'"
    using inv ladder_ok_map_dec [OF ok, of p q]
    by (auto simp: win_invar_def inw) (auto simp: s' used_def split: if_splits)
qed

lemma win_dec_ok:
  assumes "win_invar c s" and "q \<le> win_at c s p"
  shows "win_invar c (win_dec c p q s)"
    and "win_at c (win_dec c p q s) = (win_at c s)(p := win_at c s p - q)"
  using win_dec_window_ok [OF assms(1) _ assms(2)] win_dec_overflow_ok [OF assms(1) _ assms(2)]
  by (cases "in_window s p"; blast)+

lemma win_invar_empty: "win_invar c win_empty"
  by (simp add: win_invar_def win_empty_def used_def)

interpretation win_store: level_store WindowedLevels win_invar win_shown
proof
  fix c :: Compare and l :: windowed and p :: Price and q :: Qty
  assume l: "win_invar c l"
  note at = ladder_at_win_shown [OF l]
  assume "0 \<le> p" "q \<noteq> 0" "unat (ladder_at (win_shown c l) p) + unat q < 2 ^ 32"
  then have inc: "0 \<le> p" "q \<noteq> 0" "unat (win_at c l p) + unat q < 2 ^ 32" by (simp_all add: at)
  show "win_invar c (ls_inc WindowedLevels c p q l)"
    using win_inc_ok(1) [OF l inc] by simp
  show "ladder_at (win_shown c (ls_inc WindowedLevels c p q l)) =
      (ladder_at (win_shown c l))(p := ladder_at (win_shown c l) p + q)"
    using win_inc_ok [OF l inc] by (simp add: fun_eq_iff ladder_at_win_shown l)
next
  fix c :: Compare and l :: windowed and p :: Price and q :: Qty
  assume l: "win_invar c l" and "q \<le> ladder_at (win_shown c l) p"
  then have q: "q \<le> win_at c l p" by (simp add: ladder_at_win_shown)
  show "win_invar c (ls_dec WindowedLevels c p q l)"
    using win_dec_ok(1) [OF l q] by simp
  show "ladder_at (win_shown c (ls_dec WindowedLevels c p q l)) =
      (ladder_at (win_shown c l))(p := ladder_at (win_shown c l) p - q)"
    using win_dec_ok [OF l q] by (simp add: fun_eq_iff ladder_at_win_shown l)
qed (simp_all add: win_invar_empty ladder_ok_win_shown win_best_shown ladder_at_win_shown
    win_size_shown win_top_shown, simp add: win_shown_def win_empty_def win_part_def idx_all_def split: Compare.split)

end
