(* ===== verification/Itch_Decoder.thy ===== *)
theory Itch_Decoder
  imports Core_Types
begin

text \<open>
  The decoded ITCH 5.0 message (\<^verbatim>\<open>include/itch/messages.hpp\<close>) and the decoder
  (\<^verbatim>\<open>src/itch/decoder.cpp\<close>): big-endian field readers, the table of message lengths, and
  \<open>decode\<close> with its length guards. A buffer is the list of bytes readable from the pointer;
  the lemmas show that \<open>decode\<close> accepts exactly the handled types with enough bytes, that it
  reads only the first \<open>len\<close> of them, and what range the decoded fields have.
\<close>

section \<open>Messages\<close>

datatype MsgType =
    Unknown | SystemEvent | StockDirectory | AddOrder | AddOrderMpid | OrderExecuted
  | OrderExecutedWithPrice | OrderCancel | OrderDelete | OrderReplace | Trade | CrossTrade

record Message =
  msg_type :: MsgType
  stock_locate :: u16
  timestamp :: u64
  order_ref :: u64
  new_order_ref :: u64
  match_number :: u64
  m_side :: Side
  m_shares :: u32
  m_price :: Price
  stock :: string
  event_code :: char

definition Message_init :: Message where
  "Message_init =
     \<lparr>msg_type = Unknown, stock_locate = 0, timestamp = 0, order_ref = 0, new_order_ref = 0,
      match_number = 0, m_side = Side_None, m_shares = 0, m_price = 0,
      stock = replicate 8 (CHR 0x00), event_code = CHR 0x00\<rparr>"

section \<open>Decoder\<close>

definition byte_char :: "u8 \<Rightarrow> char" where
  "byte_char b = char_of (unat b)"

definition rd16 :: "bytes \<Rightarrow> nat \<Rightarrow> u16" where
  "rd16 p i = push_bit 8 (ucast (p ! i)) OR ucast (p ! (i + 1))"

definition rd32 :: "bytes \<Rightarrow> nat \<Rightarrow> u32" where
  "rd32 p i =
     push_bit 24 (ucast (p ! i)) OR push_bit 16 (ucast (p ! (i + 1))) OR
     push_bit 8 (ucast (p ! (i + 2))) OR ucast (p ! (i + 3))"

fun rd_be :: "bytes \<Rightarrow> nat \<Rightarrow> nat \<Rightarrow> u64" where
  "rd_be p i 0 = 0"
| "rd_be p i (Suc n) = push_bit 8 (rd_be p i n) OR ucast (p ! (i + n))"

definition rd48 :: "bytes \<Rightarrow> nat \<Rightarrow> u64" where
  "rd48 p i = rd_be p i 6"

definition rd64 :: "bytes \<Rightarrow> nat \<Rightarrow> u64" where
  "rd64 p i = rd_be p i 8"

definition rd_chars :: "bytes \<Rightarrow> nat \<Rightarrow> string" where
  "rd_chars p i = map (\<lambda>k. byte_char (p ! (i + k))) [0..<8]"

definition message_length :: "char \<Rightarrow> nat" where
  "message_length t =
     (if t = CHR ''S'' then 12 else if t = CHR ''R'' then 39 else if t = CHR ''H'' then 25
      else if t = CHR ''Y'' then 20 else if t = CHR ''L'' then 26 else if t = CHR ''V'' then 35
      else if t = CHR ''W'' then 12 else if t = CHR ''K'' then 28 else if t = CHR ''J'' then 35
      else if t = CHR ''h'' then 21 else if t = CHR ''A'' then 36 else if t = CHR ''F'' then 40
      else if t = CHR ''E'' then 31 else if t = CHR ''C'' then 36 else if t = CHR ''X'' then 23
      else if t = CHR ''D'' then 19 else if t = CHR ''U'' then 35 else if t = CHR ''P'' then 44
      else if t = CHR ''Q'' then 40 else if t = CHR ''B'' then 19 else if t = CHR ''I'' then 50
      else if t = CHR ''N'' then 20 else if t = CHR ''O'' then 48 else 0)"

text \<open>
  The result is the returned flag and the final value of the \<open>out\<close> parameter, which a
  failing call may have overwritten. \<open>None\<close> for the buffer is the null pointer.
\<close>

definition decode :: "bytes option \<Rightarrow> nat \<Rightarrow> Message \<Rightarrow> bool \<times> Message" where
  "decode bufp len out =
     (case bufp of
        None \<Rightarrow> (False, out)
      | Some buf \<Rightarrow>
        (if len < 11 then (False, out) else
         (let m = Message_init\<lparr>stock_locate := rd16 buf 1, timestamp := rd48 buf 5\<rparr>;
              t = byte_char (buf ! 0)
          in if t = CHR ''S'' then
               (if len < 12 then (False, m)
                else (True, m\<lparr>msg_type := SystemEvent, event_code := byte_char (buf ! 11)\<rparr>))
             else if t = CHR ''R'' then
               (if len < 39 then (False, m)
                else (True, m\<lparr>msg_type := StockDirectory, stock := rd_chars buf 11\<rparr>))
             else if t = CHR ''A'' then
               (if len < 36 then (False, m)
                else (True, m\<lparr>msg_type := AddOrder, order_ref := rd64 buf 11,
                              m_side := side_of_byte (buf ! 19), m_shares := rd32 buf 20,
                              stock := rd_chars buf 24, m_price := uint (rd32 buf 32)\<rparr>))
             else if t = CHR ''F'' then
               (if len < 40 then (False, m)
                else (True, m\<lparr>msg_type := AddOrderMpid, order_ref := rd64 buf 11,
                              m_side := side_of_byte (buf ! 19), m_shares := rd32 buf 20,
                              stock := rd_chars buf 24, m_price := uint (rd32 buf 32)\<rparr>))
             else if t = CHR ''E'' then
               (if len < 31 then (False, m)
                else (True, m\<lparr>msg_type := OrderExecuted, order_ref := rd64 buf 11,
                              m_shares := rd32 buf 19, match_number := rd64 buf 23\<rparr>))
             else if t = CHR ''C'' then
               (if len < 36 then (False, m)
                else (True, m\<lparr>msg_type := OrderExecutedWithPrice, order_ref := rd64 buf 11,
                              m_shares := rd32 buf 19, match_number := rd64 buf 23,
                              m_price := uint (rd32 buf 32)\<rparr>))
             else if t = CHR ''X'' then
               (if len < 23 then (False, m)
                else (True, m\<lparr>msg_type := OrderCancel, order_ref := rd64 buf 11,
                              m_shares := rd32 buf 19\<rparr>))
             else if t = CHR ''D'' then
               (if len < 19 then (False, m)
                else (True, m\<lparr>msg_type := OrderDelete, order_ref := rd64 buf 11\<rparr>))
             else if t = CHR ''U'' then
               (if len < 35 then (False, m)
                else (True, m\<lparr>msg_type := OrderReplace, order_ref := rd64 buf 11,
                              new_order_ref := rd64 buf 19, m_shares := rd32 buf 27,
                              m_price := uint (rd32 buf 31)\<rparr>))
             else if t = CHR ''P'' then
               (if len < 44 then (False, m)
                else (True, m\<lparr>msg_type := Trade, order_ref := rd64 buf 11,
                              m_side := side_of_byte (buf ! 19), m_shares := rd32 buf 20,
                              stock := rd_chars buf 24, m_price := uint (rd32 buf 32),
                              match_number := rd64 buf 36\<rparr>))
             else if t = CHR ''Q'' then
               (if len < 40 then (False, m)
                else (True, m\<lparr>msg_type := CrossTrade, stock := rd_chars buf 19,
                              m_price := uint (rd32 buf 27), match_number := rd64 buf 31\<rparr>))
             else (False, m))))"

section \<open>What the decoder accepts\<close>

definition handled_types :: string where
  "handled_types = ''SRAFECXDUPQ''"

lemma byte_char_eq_iff: "byte_char b = c \<longleftrightarrow> b = of_nat (of_char c)"
proof -
  have "unat b < 256" using unsigned_less [of b, where ?'a = nat] by simp
  then have oc: "of_char (byte_char b) = unat b" by (simp add: byte_char_def)
  show ?thesis
  proof
    assume "byte_char b = c"
    then show "b = of_nat (of_char c)" using oc by auto
  next
    assume "b = of_nat (of_char c)"
    moreover have "(of_char c :: nat) < 256" by simp
    ultimately show "byte_char b = c" by (simp add: byte_char_def unat_of_nat_small)
  qed
qed

lemma byte_char_inj [simp]: "byte_char a = byte_char b \<longleftrightarrow> a = b"
  using byte_char_eq_iff [of a "byte_char b"] byte_char_eq_iff [of b "byte_char b"] by auto

lemma decode_null: "decode None len out = (False, out)"
  by (simp add: decode_def)

lemma decode_short: "len < 11 \<Longrightarrow> decode (Some buf) len out = (False, out)"
  by (simp add: decode_def)

lemma decode_ok_iff:
  "fst (decode (Some buf) len out) \<longleftrightarrow>
     byte_char (buf ! 0) \<in> set handled_types \<and> message_length (byte_char (buf ! 0)) \<le> len"
  by (auto simp: decode_def Let_def handled_types_def message_length_def)

section \<open>Only the framed bytes are read\<close>

lemma rd16_take [simp]: "i + 1 < len \<Longrightarrow> rd16 (take len p) i = rd16 p i"
  by (simp add: rd16_def)

lemma rd32_take [simp]: "i + 3 < len \<Longrightarrow> rd32 (take len p) i = rd32 p i"
  by (simp add: rd32_def)

lemma rd_be_take: "i + n \<le> len \<Longrightarrow> rd_be (take len p) i n = rd_be p i n"
  by (induction n) auto

lemma rd48_take [simp]: "i + 6 \<le> len \<Longrightarrow> rd48 (take len p) i = rd48 p i"
  by (simp add: rd48_def rd_be_take)

lemma rd64_take [simp]: "i + 8 \<le> len \<Longrightarrow> rd64 (take len p) i = rd64 p i"
  by (simp add: rd64_def rd_be_take)

lemma rd_chars_take [simp]: "i + 8 \<le> len \<Longrightarrow> rd_chars (take len p) i = rd_chars p i"
  by (auto simp: rd_chars_def)

lemma decode_reads_len_bytes: "decode (Some (take len buf)) len out = decode (Some buf) len out"
  by (simp add: decode_def Let_def)

lemma decode_append: "decode (Some (buf @ rest)) (length buf) out = decode (Some buf) (length buf) out"
  using decode_reads_len_bytes [of "length buf" "buf @ rest" out] by simp

section \<open>Ranges of the decoded fields\<close>

lemma bit_rd_be: "bit (rd_be p i n) k \<Longrightarrow> k < 8 * n"
proof (induction n arbitrary: k)
  case (Suc n)
  then consider "bit (rd_be p i n) (k - 8)" | "k < 8"
    by (auto simp: bit_simps dest: bit_imp_le_length)
  then show ?case
    by cases (auto dest: Suc.IH)
qed simp

lemma rd_be_bound: "unat (rd_be p i n) < 2 ^ (8 * n)"
proof -
  have "take_bit (8 * n) (rd_be p i n) = rd_be p i n"
    by (rule bit_word_eqI) (auto simp: bit_simps dest: bit_rd_be)
  then show ?thesis
    by (metis take_bit_nat_less_exp unsigned_take_bit_eq)
qed

lemma decode_timestamp_bound:
  "fst (decode (Some buf) len out) \<Longrightarrow> unat (timestamp (snd (decode (Some buf) len out))) < 2 ^ 48"
  using rd_be_bound [of buf 5 6] by (auto simp: decode_def Let_def rd48_def)

lemma decode_price_range:
  "fst (decode (Some buf) len out) \<Longrightarrow>
   0 \<le> m_price (snd (decode (Some buf) len out)) \<and> m_price (snd (decode (Some buf) len out)) < 2 ^ 32"
proof -
  have u: "0 \<le> uint w \<and> uint w < 2 ^ 32" for w :: u32
    using unsigned_less [of w, where ?'a = int] by simp
  assume "fst (decode (Some buf) len out)"
  then show ?thesis
    using u by (auto simp: decode_def Let_def Message_init_def split: if_splits)
qed

text \<open>The fields each message type carries.\<close>

definition fields_typed :: "Message \<Rightarrow> bool" where
  "fields_typed m \<longleftrightarrow>
     msg_type m \<noteq> Unknown \<and> length (stock m) = 8 \<and>
     (m_price m \<noteq> 0 \<longrightarrow> msg_type m \<in> {AddOrder, AddOrderMpid, OrderExecutedWithPrice, OrderReplace, Trade, CrossTrade}) \<and>
     (m_shares m \<noteq> 0 \<longrightarrow>
        msg_type m \<in> {AddOrder, AddOrderMpid, OrderExecuted, OrderExecutedWithPrice, OrderCancel, OrderReplace, Trade}) \<and>
     (order_ref m \<noteq> 0 \<longrightarrow>
        msg_type m \<in> {AddOrder, AddOrderMpid, OrderExecuted, OrderExecutedWithPrice, OrderCancel, OrderDelete, OrderReplace, Trade}) \<and>
     (new_order_ref m \<noteq> 0 \<longrightarrow> msg_type m = OrderReplace) \<and>
     (match_number m \<noteq> 0 \<longrightarrow> msg_type m \<in> {OrderExecuted, OrderExecutedWithPrice, Trade, CrossTrade}) \<and>
     (m_side m \<noteq> Side_None \<longrightarrow> msg_type m \<in> {AddOrder, AddOrderMpid, Trade}) \<and>
     (stock m \<noteq> replicate 8 (CHR 0x00) \<longrightarrow> msg_type m \<in> {StockDirectory, AddOrder, AddOrderMpid, Trade, CrossTrade}) \<and>
     (event_code m \<noteq> CHR 0x00 \<longrightarrow> msg_type m = SystemEvent)"

definition well_typed :: "Message \<Rightarrow> bool" where
  "well_typed m \<longleftrightarrow> fields_typed m \<and> 0 \<le> m_price m \<and> m_price m < 2 ^ 32 \<and> unat (timestamp m) < 2 ^ 48"

lemma length_rd_chars [simp]: "length (rd_chars p i) = 8"
  by (simp add: rd_chars_def)

lemma decode_fields: "fst (decode (Some buf) len out) \<Longrightarrow> fields_typed (snd (decode (Some buf) len out))"
  by (simp add: decode_def Let_def split: if_splits) (simp_all add: fields_typed_def Message_init_def)

section \<open>Properties\<close>

text \<open>C17. What the decoder accepts: \<open>decode\<close> succeeds exactly on a non-null buffer of one of the
  eleven handled types that has at least the length the ITCH table gives that type.\<close>

theorem decode_accepts_iff:
  "fst (decode bufp len out) \<longleftrightarrow>
     (\<exists>buf. bufp = Some buf \<and> byte_char (buf ! 0) \<in> set handled_types \<and>
            message_length (byte_char (buf ! 0)) \<le> len)"
  by (cases bufp) (simp_all add: decode_null decode_ok_iff)

text \<open>C18. Memory safety of the decoder: the result depends on the first \<open>len\<close> bytes only, whatever
  follows them in memory, and a failing call with fewer than 11 bytes leaves \<open>out\<close> untouched.\<close>

theorem decode_stays_in_bounds:
  "decode (Some (buf @ rest)) (length buf) out = decode (Some buf) (length buf) out \<and>
   (11 \<le> len \<or> decode (Some buf) len out = (False, out))"
  by (cases "len < 11") (simp_all add: decode_append decode_short)

text \<open>C19. Accepted messages are well typed: a field that the ITCH type of the message does not carry has
  its default, prices are in \<open>[0, 2 ^ 32)\<close>, timestamps below \<open>2 ^ 48\<close> and symbols eight characters long,
  whatever the out parameter held before.\<close>

theorem decode_well_typed:
  assumes "decode bufp len out = (True, m)"
  shows "well_typed m"
proof -
  obtain buf where buf: "bufp = Some buf" using assms by (cases bufp) (simp_all add: decode_null)
  have "fst (decode (Some buf) len out)" "m = snd (decode (Some buf) len out)" using assms buf by simp_all
  with decode_price_range [of buf len out] decode_timestamp_bound [of buf len out] decode_fields [of buf len out]
  show ?thesis unfolding well_typed_def by (metis (no_types))
qed

theorem decode_well_typed_witness:
  "well_typed (snd (decode (Some (0x58 # replicate 22 1)) 23 Message_init))"
proof -
  have X: "byte_char 0x58 = CHR ''X''" by (simp add: byte_char_eq_iff)
  have "fst (decode (Some (0x58 # replicate 22 1)) 23 Message_init)"
    by (simp add: decode_ok_iff X handled_types_def message_length_def)
  then have "decode (Some (0x58 # replicate 22 1)) 23 Message_init =
      (True, snd (decode (Some (0x58 # replicate 22 1)) 23 Message_init))"
    by (metis prod.collapse)
  then show ?thesis by (rule decode_well_typed)
qed

end
