(* ===== verification/Order_Book.thy ===== *)
theory Order_Book
  imports Object_Pool Map_Levels Flat_Levels Windowed_Levels Itch_Decoder
begin

text \<open>
  \<^verbatim>\<open>BasicOrderBook<LevelStore>\<close> of \<^verbatim>\<open>include/book/order_book.hpp\<close>. The template parameter
  is the operations record \<open>LS\<close>; \<open>bids\<close> is \<^verbatim>\<open>LevelStore<std::greater>\<close> and \<open>asks\<close> is
  \<^verbatim>\<open>LevelStore<std::less>\<close>. Orders live in an object pool, found through the
  \<open>order_ref \<rightarrow> handle\<close> index.

  The abstract book is the finite map from order references to orders that the feed
  describes. The theory shows that every operation acts on that map as ITCH prescribes, that
  the incrementally kept level totals are the sums over the map, and that the book's own
  \<open>invariant_ok\<close> check holds in every state a well-formed feed reaches.
\<close>

section \<open>The book\<close>

record Order =
  o_side :: Side
  o_price :: Price
  o_shares :: Qty

definition Order_init :: Order where
  "Order_init = \<lparr>o_side = Side_None, o_price = 0, o_shares = 0\<rparr>"

record 'l order_book =
  bids :: 'l
  asks :: 'l
  orders :: "Order object_pool"
  index :: "(OrderRef \<times> Handle) list"

definition book_new :: "'l level_ops \<Rightarrow> 'l order_book" where
  "book_new LS =
     \<lparr>bids = ls_empty LS, asks = ls_empty LS, orders = pool_new, index = []\<rparr>"

definition book_add ::
  "'l level_ops \<Rightarrow> OrderRef \<Rightarrow> Side \<Rightarrow> Price \<Rightarrow> Qty \<Rightarrow> 'l order_book \<Rightarrow> 'l order_book" where
  "book_add LS ref side price shares b =
     (if shares = 0 then b
      else let (h, P) = pool_alloc Order_init (orders b);
               b1 = b\<lparr>orders := pool_set h \<lparr>o_side = side, o_price = price, o_shares = shares\<rparr> P,
                      index := AList.update ref h (index b)\<rparr>
           in if side = Buy then b1\<lparr>bids := ls_inc LS Std_greater price shares (bids b)\<rparr>
              else b1\<lparr>asks := ls_inc LS Std_less price shares (asks b)\<rparr>)"

definition dec_level :: "'l level_ops \<Rightarrow> Side \<Rightarrow> Price \<Rightarrow> Qty \<Rightarrow> 'l order_book \<Rightarrow> 'l order_book" where
  "dec_level LS side price d b =
     (if side = Buy then b\<lparr>bids := ls_dec LS Std_greater price d (bids b)\<rparr>
      else b\<lparr>asks := ls_dec LS Std_less price d (asks b)\<rparr>)"

definition book_reduce ::
  "'l level_ops \<Rightarrow> OrderRef \<Rightarrow> Qty \<Rightarrow> 'l order_book \<Rightarrow> bool \<times> 'l order_book" where
  "book_reduce LS ref qty b =
     (case map_of (index b) ref of
        None \<Rightarrow> (False, b)
      | Some h \<Rightarrow>
          (let o1 = pool_get (orders b) h;
               d = (if qty < o_shares o1 then qty else o_shares o1);
               o2 = o1\<lparr>o_shares := o_shares o1 - d\<rparr>;
               b1 = b\<lparr>orders := pool_set h o2 (orders b)\<rparr>;
               b2 = dec_level LS (o_side o2) (o_price o2) d b1
           in if o_shares o2 = 0
              then (True, b2\<lparr>orders := pool_free h (orders b2),
                            index := AList.delete ref (index b2)\<rparr>)
              else (True, b2)))"

definition book_remove :: "'l level_ops \<Rightarrow> OrderRef \<Rightarrow> 'l order_book \<Rightarrow> bool \<times> 'l order_book" where
  "book_remove LS ref b =
     (case map_of (index b) ref of
        None \<Rightarrow> (False, b)
      | Some h \<Rightarrow>
          (let ord = pool_get (orders b) h;
               b1 = dec_level LS (o_side ord) (o_price ord) (o_shares ord) b
           in (True, b1\<lparr>orders := pool_free h (orders b1),
                       index := AList.delete ref (index b1)\<rparr>)))"

definition book_replace ::
  "'l level_ops \<Rightarrow> OrderRef \<Rightarrow> OrderRef \<Rightarrow> Qty \<Rightarrow> Price \<Rightarrow> 'l order_book \<Rightarrow> bool \<times> 'l order_book"
  where
  "book_replace LS orig_ref new_ref new_shares new_price b =
     (case map_of (index b) orig_ref of
        None \<Rightarrow> (False, b)
      | Some h \<Rightarrow>
          (let side = o_side (pool_get (orders b) h);
               b1 = snd (book_remove LS orig_ref b)
           in (True, book_add LS new_ref side new_price new_shares b1)))"

definition book_apply :: "'l level_ops \<Rightarrow> Message \<Rightarrow> 'l order_book \<Rightarrow> 'l order_book" where
  "book_apply LS m b =
     (case msg_type m of
        AddOrder \<Rightarrow> book_add LS (order_ref m) (m_side m) (m_price m) (m_shares m) b
      | AddOrderMpid \<Rightarrow> book_add LS (order_ref m) (m_side m) (m_price m) (m_shares m) b
      | OrderExecuted \<Rightarrow> snd (book_reduce LS (order_ref m) (m_shares m) b)
      | OrderExecutedWithPrice \<Rightarrow> snd (book_reduce LS (order_ref m) (m_shares m) b)
      | OrderCancel \<Rightarrow> snd (book_reduce LS (order_ref m) (m_shares m) b)
      | OrderDelete \<Rightarrow> snd (book_remove LS (order_ref m) b)
      | OrderReplace \<Rightarrow>
          snd (book_replace LS (order_ref m) (new_order_ref m) (m_shares m) (m_price m) b)
      | _ \<Rightarrow> b)"

definition best_bid :: "'l level_ops \<Rightarrow> 'l order_book \<Rightarrow> (Price \<times> Qty) option" where
  "best_bid LS b = ls_best LS Std_greater (bids b)"

definition best_ask :: "'l level_ops \<Rightarrow> 'l order_book \<Rightarrow> (Price \<times> Qty) option" where
  "best_ask LS b = ls_best LS Std_less (asks b)"

definition qty_at :: "'l level_ops \<Rightarrow> 'l order_book \<Rightarrow> Side \<Rightarrow> Price \<Rightarrow> Qty" where
  "qty_at LS b side p =
     (if side = Buy then ls_at LS Std_greater (bids b) p else ls_at LS Std_less (asks b) p)"

definition order_count :: "'l order_book \<Rightarrow> nat" where
  "order_count b = length (index b)"

definition bid_levels :: "'l level_ops \<Rightarrow> 'l order_book \<Rightarrow> nat" where
  "bid_levels LS b = ls_size LS Std_greater (bids b)"

definition ask_levels :: "'l level_ops \<Rightarrow> 'l order_book \<Rightarrow> nat" where
  "ask_levels LS b = ls_size LS Std_less (asks b)"

definition depth :: "'l level_ops \<Rightarrow> 'l order_book \<Rightarrow> Side \<Rightarrow> nat \<Rightarrow> ladder" where
  "depth LS b side n =
     (if side = Buy then ls_top LS Std_greater (bids b) n else ls_top LS Std_less (asks b) n)"

definition book_bids :: "'l level_ops \<Rightarrow> 'l order_book \<Rightarrow> nat \<Rightarrow> ladder" where
  "book_bids LS b n = ls_top LS Std_greater (bids b) n"

definition book_asks :: "'l level_ops \<Rightarrow> 'l order_book \<Rightarrow> nat \<Rightarrow> ladder" where
  "book_asks LS b n = ls_top LS Std_less (asks b) n"

text \<open>\<open>None\<close> is the early \<^verbatim>\<open>return false\<close> of the loop over the index.\<close>

fun rebuild_levels ::
  "Order object_pool \<Rightarrow> (OrderRef \<times> Handle) list \<Rightarrow> omap \<times> omap \<Rightarrow> (omap \<times> omap) option" where
  "rebuild_levels P [] acc = Some acc"
| "rebuild_levels P (kv # kvs) (rb, ra) =
     (let ord = pool_get P (snd kv)
      in if o_shares ord = 0 then None
         else if o_side ord = Buy
         then rebuild_levels P kvs (omap_add Std_greater (o_price ord) (o_shares ord) rb, ra)
         else if o_side ord = Sell
         then rebuild_levels P kvs (rb, omap_add Std_less (o_price ord) (o_shares ord) ra)
         else None)"

definition invariant_ok :: "'l level_ops \<Rightarrow> 'l order_book \<Rightarrow> bool" where
  "invariant_ok LS b =
     (case rebuild_levels (orders b) (index b) ([], []) of
        None \<Rightarrow> False
      | Some (rb, ra) \<Rightarrow>
          (if length rb \<noteq> ls_size LS Std_greater (bids b) then False
           else if length ra \<noteq> ls_size LS Std_less (asks b) then False
           else list_all (\<lambda>kv. ls_at LS Std_greater (bids b) (fst kv) = snd kv) rb \<and>
                list_all (\<lambda>kv. ls_at LS Std_less (asks b) (fst kv) = snd kv) ra))"

section \<open>The abstract book\<close>

type_synonym spec_book = "OrderRef \<rightharpoonup> Order"

definition orders_of :: "'l order_book \<Rightarrow> spec_book" where
  "orders_of b = (\<lambda>r. map_option (pool_get (orders b)) (map_of (index b) r))"

definition spec_add :: "OrderRef \<Rightarrow> Side \<Rightarrow> Price \<Rightarrow> Qty \<Rightarrow> spec_book \<Rightarrow> spec_book" where
  "spec_add r s p q M =
     (if q = 0 then M else M(r \<mapsto> \<lparr>o_side = s, o_price = p, o_shares = q\<rparr>))"

definition spec_reduce :: "OrderRef \<Rightarrow> Qty \<Rightarrow> spec_book \<Rightarrow> spec_book" where
  "spec_reduce r q M =
     (case M r of
        None \<Rightarrow> M
      | Some ord \<Rightarrow> if o_shares ord \<le> q then M(r := None)
                    else M(r \<mapsto> ord\<lparr>o_shares := o_shares ord - q\<rparr>))"

definition spec_remove :: "OrderRef \<Rightarrow> spec_book \<Rightarrow> spec_book" where
  "spec_remove r M = M(r := None)"

definition spec_replace :: "OrderRef \<Rightarrow> OrderRef \<Rightarrow> Qty \<Rightarrow> Price \<Rightarrow> spec_book \<Rightarrow> spec_book" where
  "spec_replace r r' q p M =
     (case M r of None \<Rightarrow> M | Some ord \<Rightarrow> spec_add r' (o_side ord) p q (M(r := None)))"

definition spec_apply :: "Message \<Rightarrow> spec_book \<Rightarrow> spec_book" where
  "spec_apply m M =
     (if msg_type m \<in> {AddOrder, AddOrderMpid}
      then spec_add (order_ref m) (m_side m) (m_price m) (m_shares m) M
      else if msg_type m \<in> {OrderExecuted, OrderExecutedWithPrice, OrderCancel}
      then spec_reduce (order_ref m) (m_shares m) M
      else if msg_type m = OrderDelete then spec_remove (order_ref m) M
      else if msg_type m = OrderReplace
      then spec_replace (order_ref m) (new_order_ref m) (m_shares m) (m_price m) M
      else M)"

text \<open>The resting quantity at a price: the sum over the orders of one side there.\<close>

definition resting :: "Side \<Rightarrow> Price \<Rightarrow> Order \<Rightarrow> nat" where
  "resting s p ord = (if o_side ord = s \<and> o_price ord = p then unat (o_shares ord) else 0)"

definition spec_depth :: "spec_book \<Rightarrow> Side \<Rightarrow> Price \<Rightarrow> nat" where
  "spec_depth M s p = (\<Sum>r \<in> dom M. resting s p (the (M r)))"

lemma spec_depth_insert:
  assumes "finite (dom M)" and "M r = None"
  shows "spec_depth (M(r \<mapsto> ord)) s p = resting s p ord + spec_depth M s p"
proof -
  have "(\<Sum>x \<in> dom M. resting s p (the ((M(r \<mapsto> ord)) x))) = spec_depth M s p"
    unfolding spec_depth_def using assms(2) by (intro sum.cong) auto
  then show ?thesis
    using assms by (simp add: spec_depth_def domIff)
qed

lemma spec_depth_split:
  assumes "finite (dom M)" and "M r = Some ord"
  shows "spec_depth M s p = resting s p ord + spec_depth (M(r := None)) s p"
proof -
  have "M = (M(r := None))(r \<mapsto> ord)" using assms(2) by auto
  then show ?thesis
    using spec_depth_insert [of "M(r := None)" r ord s p] assms(1)
    by (metis finite_Diff dom_fun_upd fun_upd_same)
qed

lemma spec_depth_empty [simp]: "spec_depth Map.empty s p = 0"
  by (simp add: spec_depth_def)

section \<open>The index and the pool refine the abstract book\<close>

text \<open>Every indexed handle is in use, and no two references share one.\<close>

definition index_ok :: "'l order_book \<Rightarrow> bool" where
  "index_ok b \<longleftrightarrow>
     pool_invar (orders b) \<and> distinct (map fst (index b)) \<and> distinct (map snd (index b)) \<and>
     snd ` set (index b) \<subseteq> pool_in_use (orders b)"

lemma index_okD:
  assumes "index_ok b" and "map_of (index b) r = Some h"
  shows "h \<in> pool_in_use (orders b)" and "pool_invar (orders b)"
    and "map_of (index b) r' = Some h \<Longrightarrow> r' = r"
proof -
  have "(r, h) \<in> set (index b)" using assms(2) by (rule map_of_SomeD)
  then show "h \<in> pool_in_use (orders b)" using assms(1) by (force simp: index_ok_def)
  show "pool_invar (orders b)" using assms(1) by (simp add: index_ok_def)
  assume "map_of (index b) r' = Some h"
  then have "(r', h) \<in> set (index b)" by (rule map_of_SomeD)
  moreover have "distinct (map snd (index b))" using assms(1) by (simp add: index_ok_def)
  ultimately show "r' = r"
    using \<open>(r, h) \<in> set (index b)\<close> by (metis eq_key_imp_eq_value fst_conv inj_on_def distinct_map snd_conv)
qed

lemma finite_dom_orders_of [simp]: "finite (dom (orders_of b))"
proof -
  have "dom (orders_of b) = dom (map_of (index b))" by (auto simp: orders_of_def dom_def)
  then show ?thesis by (simp add: finite_dom_map_of)
qed

lemma snd_set_alist_update: "snd ` set (AList.update k v xs) \<subseteq> insert v (snd ` set xs)"
  by (induction xs) auto

lemma distinct_snd_alist_update:
  "distinct (map snd xs) \<Longrightarrow> v \<notin> snd ` set xs \<Longrightarrow> distinct (map snd (AList.update k v xs))"
proof (induction xs)
  case (Cons x xs)
  then show ?case using snd_set_alist_update [of k v xs] by auto
qed simp

lemma snd_set_alist_delete: "snd ` set (AList.delete k xs) \<subseteq> snd ` set xs"
  by (auto simp: AList.delete_eq)

lemma distinct_snd_alist_delete: "distinct (map snd xs) \<Longrightarrow> distinct (map snd (AList.delete k xs))"
  by (auto simp: AList.delete_eq distinct_map inj_on_def)

lemma snd_set_alist_delete_eq:
  "distinct (map fst xs) \<Longrightarrow> distinct (map snd xs) \<Longrightarrow> map_of xs k = Some v \<Longrightarrow>
   snd ` set (AList.delete k xs) = snd ` set xs - {v}"
proof (induction xs)
  case (Cons x xs)
  obtain a b where x: "x = (a, b)" by (cases x)
  show ?case
  proof (cases "a = k")
    case True
    then have "AList.delete k xs = xs" using Cons.prems(1) by (simp add: x alist_delete_notin)
    with True Cons.prems show ?thesis by (auto simp: x)
  next
    case False
    then have "v \<in> snd ` set xs" using Cons.prems(3) by (force simp: x dest: map_of_SomeD)
    with False Cons show ?thesis by (auto simp: x)
  qed
qed simp

lemma index_add:
  assumes "index_ok b" and "card (pool_in_use (orders b)) < 2 ^ 32"
    and al: "pool_alloc Order_init (orders b) = (h, P)"
    and b': "b' = b\<lparr>orders := pool_set h ord P, index := AList.update r h (index b)\<rparr>"
  shows "index_ok b'" and "orders_of b' = (orders_of b)(r \<mapsto> ord)"
    and "pool_in_use (orders b') = insert h (pool_in_use (orders b))"
    and "h \<notin> pool_in_use (orders b)"
proof -
  have P: "pool_invar (orders b)" using assms(1) by (simp add: index_ok_def)
  note a = pool.alloc_put [OF P assms(2) al]
  have fresh: "h \<notin> snd ` set (index b)" using a(2) assms(1) by (auto simp: index_ok_def)
  show "pool_in_use (orders b') = insert h (pool_in_use (orders b))"
    and "h \<notin> pool_in_use (orders b)"
    using a(2,3) by (simp_all add: b')
  have "snd ` set (index b) \<subseteq> pool_in_use (orders b)" using assms(1) by (simp add: index_ok_def)
  then have "snd ` set (AList.update r h (index b)) \<subseteq> insert h (pool_in_use (orders b))"
    using snd_set_alist_update [of r h "index b"] by (meson insert_mono order_trans)
  then show "index_ok b'"
    using assms(1) a(1,3) fresh
    by (simp add: index_ok_def b' distinct_snd_alist_update distinct_update)
  show "orders_of b' = (orders_of b)(r \<mapsto> ord)"
  proof
    fix r'
    have "pool_get (pool_set h ord P) h' = pool_get (orders b) h'" if "map_of (index b) r' = Some h'" for h'
      using a(5) index_okD(1) [OF assms(1) that] by blast
    then show "orders_of b' r' = ((orders_of b)(r \<mapsto> ord)) r'"
      using a(4) by (auto simp: orders_of_def b' update_conv' map_option_case split: option.split)
  qed
qed

lemma index_set:
  assumes ok: "index_ok b" and h: "map_of (index b) r = Some h"
    and b': "b' = b\<lparr>orders := pool_set h ord (orders b)\<rparr>"
  shows "index_ok b'" and "orders_of b' = (orders_of b)(r \<mapsto> ord)"
    and "pool_in_use (orders b') = pool_in_use (orders b)"
proof -
  note D = index_okD [OF ok h]
  note s = pool.put_ok [OF D(2,1), of ord]
  show "index_ok b'" "pool_in_use (orders b') = pool_in_use (orders b)"
    using ok s by (auto simp: index_ok_def b')
  show "orders_of b' = (orders_of b)(r \<mapsto> ord)"
  proof
    fix r'
    have "pool_get (pool_set h ord (orders b)) h' = pool_get (orders b) h'"
      if "map_of (index b) r' = Some h'" "r' \<noteq> r" for h'
      using s that D(3) [of r'] by (metis (no_types))
    then show "orders_of b' r' = ((orders_of b)(r \<mapsto> ord)) r'"
      using s h by (cases "map_of (index b) r'") (auto simp: orders_of_def b')
  qed
qed

lemma index_erase:
  assumes ok: "index_ok b" and h: "map_of (index b) r = Some h"
    and b': "b' = b\<lparr>orders := pool_free h (orders b), index := AList.delete r (index b)\<rparr>"
  shows "index_ok b'" and "orders_of b' = (orders_of b)(r := None)"
    and "pool_in_use (orders b') = pool_in_use (orders b) - {h}"
    and "snd ` set (index b') = snd ` set (index b) - {h}"
proof -
  note D = index_okD [OF ok h]
  note f = pool.free_ok [OF D(2,1)]
  have dist: "distinct (map fst (index b))" "distinct (map snd (index b))"
    using ok by (simp_all add: index_ok_def)
  show set: "snd ` set (index b') = snd ` set (index b) - {h}"
    using snd_set_alist_delete_eq [OF dist h] by (simp add: b')
  show "pool_in_use (orders b') = pool_in_use (orders b) - {h}" using f by (simp add: b')
  show "index_ok b'"
    using ok f set by (auto simp: index_ok_def b' distinct_snd_alist_delete distinct_delete)
  show "orders_of b' = (orders_of b)(r := None)"
  proof
    fix r'
    have "pool_get (pool_free h (orders b)) = pool_get (orders b)" using f by simp
    then show "orders_of b' r' = ((orders_of b)(r := None)) r'"
      by (simp add: orders_of_def b' delete_conv')
  qed
qed

lemma dec_level_sel [simp]:
  "orders (dec_level LS sd p d b) = orders b" "index (dec_level LS sd p d b) = index b"
  "orders_of (dec_level LS sd p d b) = orders_of b"
  "index_ok (dec_level LS sd p d b) = index_ok b"
  "bids (dec_level LS sd p d b) = (if sd = Buy then ls_dec LS Std_greater p d (bids b) else bids b)"
  "asks (dec_level LS sd p d b) = (if sd = Buy then asks b else ls_dec LS Std_less p d (asks b))"
  by (simp_all add: dec_level_def orders_of_def index_ok_def)

lemma orders_of_cong:
  "orders b = orders b' \<Longrightarrow> index b = index b' \<Longrightarrow> orders_of b = orders_of b'"
  "orders b = orders b' \<Longrightarrow> index b = index b' \<Longrightarrow> index_ok b = index_ok b'"
  by (simp_all add: orders_of_def index_ok_def)

text \<open>The three mutators as one record update each, with the levels on the side.\<close>

lemma book_add_split:
  assumes "pool_alloc Order_init (orders b) = (h, P)" and "q \<noteq> 0"
  shows "orders (book_add LS r sd p q b) = pool_set h \<lparr>o_side = sd, o_price = p, o_shares = q\<rparr> P"
    and "index (book_add LS r sd p q b) = AList.update r h (index b)"
    and "bids (book_add LS r sd p q b) =
      (if sd = Buy then ls_inc LS Std_greater p q (bids b) else bids b)"
    and "asks (book_add LS r sd p q b) =
      (if sd = Buy then asks b else ls_inc LS Std_less p q (asks b))"
  using assms by (simp_all add: book_add_def Let_def)

lemma book_add_refines:
  assumes "index_ok b" and "q \<noteq> 0 \<Longrightarrow> card (pool_in_use (orders b)) < 2 ^ 32"
  shows "index_ok (book_add LS r sd p q b)"
    and "orders_of (book_add LS r sd p q b) = spec_add r sd p q (orders_of b)"
proof -
  obtain h P where al: "pool_alloc Order_init (orders b) = (h, P)" by fastforce
  show "index_ok (book_add LS r sd p q b)"
    and "orders_of (book_add LS r sd p q b) = spec_add r sd p q (orders_of b)"
  proof (atomize (full), cases "q = 0")
    case False
    note split = book_add_split(1,2) [OF al False, of LS r sd p]
    define b' where "b' = b\<lparr>orders := orders (book_add LS r sd p q b),
                           index := index (book_add LS r sd p q b)\<rparr>"
    note ia = index_add [OF assms(1) assms(2) [OF False] al b'_def [unfolded split]]
    have "orders (book_add LS r sd p q b) = orders b'" "index (book_add LS r sd p q b) = index b'"
      by (simp_all add: b'_def)
    from orders_of_cong [OF this] ia(1,2) False
    show "index_ok (book_add LS r sd p q b) \<and>
        orders_of (book_add LS r sd p q b) = spec_add r sd p q (orders_of b)"
      by (simp add: spec_add_def)
  qed (simp add: book_add_def spec_add_def assms)
qed

lemma book_remove_refines:
  assumes "index_ok b"
  shows "fst (book_remove LS r b) \<longleftrightarrow> orders_of b r \<noteq> None"
    and "index_ok (snd (book_remove LS r b))"
    and "orders_of (snd (book_remove LS r b)) = spec_remove r (orders_of b)"
proof (atomize (full), cases "map_of (index b) r")
  case None
  then show "(fst (book_remove LS r b) \<longleftrightarrow> orders_of b r \<noteq> None) \<and>
      index_ok (snd (book_remove LS r b)) \<and>
      orders_of (snd (book_remove LS r b)) = spec_remove r (orders_of b)"
    using assms by (auto simp: book_remove_def orders_of_def spec_remove_def fun_eq_iff)
next
  case (Some h)
  let ?ord = "pool_get (orders b) h"
  let ?b1 = "dec_level LS (o_side ?ord) (o_price ?ord) (o_shares ?ord) b"
  have ok: "index_ok ?b1" and h: "map_of (index ?b1) r = Some h" using assms Some by simp_all
  note er = index_erase [OF ok h refl]
  from Some er(1,2) show "(fst (book_remove LS r b) \<longleftrightarrow> orders_of b r \<noteq> None) \<and>
      index_ok (snd (book_remove LS r b)) \<and>
      orders_of (snd (book_remove LS r b)) = spec_remove r (orders_of b)"
    by (simp add: book_remove_def Let_def spec_remove_def) (simp add: orders_of_def)
qed

lemma book_reduce_split:
  assumes "map_of (index b) r = Some h" and "ord = pool_get (orders b) h"
    and "d = (if q < o_shares ord then q else o_shares ord)"
    and "o2 = ord\<lparr>o_shares := o_shares ord - d\<rparr>"
  shows "bids (snd (book_reduce LS r q b)) =
      (if o_side ord = Buy then ls_dec LS Std_greater (o_price ord) d (bids b) else bids b)"
    and "asks (snd (book_reduce LS r q b)) =
      (if o_side ord = Buy then asks b else ls_dec LS Std_less (o_price ord) d (asks b))"
    and "orders (snd (book_reduce LS r q b)) =
      (if o_shares o2 = 0 then pool_free h (pool_set h o2 (orders b)) else pool_set h o2 (orders b))"
    and "index (snd (book_reduce LS r q b)) =
      (if o_shares o2 = 0 then AList.delete r (index b) else index b)"
  by (simp_all add: book_reduce_def Let_def assms)

lemma book_reduce_refines:
  assumes "index_ok b"
  shows "fst (book_reduce LS r q b) \<longleftrightarrow> orders_of b r \<noteq> None"
    and "index_ok (snd (book_reduce LS r q b))"
    and "orders_of (snd (book_reduce LS r q b)) = spec_reduce r q (orders_of b)"
proof (atomize (full), cases "map_of (index b) r")
  case None
  then show "(fst (book_reduce LS r q b) \<longleftrightarrow> orders_of b r \<noteq> None) \<and>
      index_ok (snd (book_reduce LS r q b)) \<and>
      orders_of (snd (book_reduce LS r q b)) = spec_reduce r q (orders_of b)"
    using assms by (simp add: book_reduce_def orders_of_def spec_reduce_def)
next
  case (Some h)
  define ord where "ord = pool_get (orders b) h"
  have M: "orders_of b r = Some ord" using Some by (simp add: orders_of_def ord_def)
  define d where "d = (if q < o_shares ord then q else o_shares ord)"
  define o2 where "o2 = ord\<lparr>o_shares := o_shares ord - d\<rparr>"
  define b2 where
    "b2 = dec_level LS (o_side o2) (o_price o2) d (b\<lparr>orders := pool_set h o2 (orders b)\<rparr>)"
  note st = index_set [OF assms Some refl, of o2]
  have b2: "index_ok b2" "map_of (index b2) r = Some h"
    "orders_of b2 = (orders_of b)(r \<mapsto> o2)"
    using st Some by (simp_all add: b2_def)
  note er = index_erase [OF b2(1,2) refl]
  have red: "book_reduce LS r q b =
      (if o_shares o2 = 0
       then (True, b2\<lparr>orders := pool_free h (orders b2), index := AList.delete r (index b2)\<rparr>)
       else (True, b2))"
    by (simp add: book_reduce_def Some Let_def b2_def o2_def d_def ord_def)
  have zero: "o_shares o2 = 0 \<longleftrightarrow> o_shares ord \<le> q"
    by (auto simp: o2_def d_def)
  have "d = q" if "\<not> o_shares ord \<le> q" using that by (simp add: d_def not_le)
  with zero show "(fst (book_reduce LS r q b) \<longleftrightarrow> orders_of b r \<noteq> None) \<and>
      index_ok (snd (book_reduce LS r q b)) \<and>
      orders_of (snd (book_reduce LS r q b)) = spec_reduce r q (orders_of b)"
    using er(1,2) b2 by (simp add: red M spec_reduce_def) (simp add: o2_def)
qed

lemma book_remove_in_use:
  "index_ok b \<Longrightarrow> orders_of b r \<noteq> None \<Longrightarrow>
   card (pool_in_use (orders (snd (book_remove LS r b)))) < card (pool_in_use (orders b))"
proof -
  assume ok: "index_ok b" and "orders_of b r \<noteq> None"
  then obtain h where h: "map_of (index b) r = Some h" by (auto simp: orders_of_def)
  note f = pool.free_ok [OF index_okD(2,1) [OF ok h]]
  then have "pool_in_use (orders (snd (book_remove LS r b))) = pool_in_use (orders b) - {h}"
    by (simp add: book_remove_def h Let_def)
  moreover have "finite (pool_in_use (orders b))" by simp
  ultimately show ?thesis
    using index_okD(1) [OF ok h] by (metis card_Diff1_less)
qed

lemma book_replace_refines:
  assumes "index_ok b"
  shows "fst (book_replace LS r r' q p b) \<longleftrightarrow> orders_of b r \<noteq> None"
    and "index_ok (snd (book_replace LS r r' q p b))"
    and "orders_of (snd (book_replace LS r r' q p b)) = spec_replace r r' q p (orders_of b)"
proof (atomize (full), cases "map_of (index b) r")
  case None
  then show "(fst (book_replace LS r r' q p b) \<longleftrightarrow> orders_of b r \<noteq> None) \<and>
      index_ok (snd (book_replace LS r r' q p b)) \<and>
      orders_of (snd (book_replace LS r r' q p b)) = spec_replace r r' q p (orders_of b)"
    using assms by (simp add: book_replace_def orders_of_def spec_replace_def)
next
  case (Some h)
  then have M: "orders_of b r = Some (pool_get (orders b) h)" by (simp add: orders_of_def)
  let ?b1 = "snd (book_remove LS r b)"
  note rm = book_remove_refines [OF assms, of LS r]
  have "card (pool_in_use (orders ?b1)) < card (pool_in_use (orders b))"
    using book_remove_in_use [OF assms] M by simp
  moreover have "card (pool_in_use (orders b)) \<le> 2 ^ 32"
    using card_mono [OF _ subset_UNIV, of "pool_in_use (orders b)"] by (simp add: card_word)
  ultimately have "card (pool_in_use (orders ?b1)) < 2 ^ 32" by simp
  note ad = book_add_refines [OF rm(2) this]
  show "(fst (book_replace LS r r' q p b) \<longleftrightarrow> orders_of b r \<noteq> None) \<and>
      index_ok (snd (book_replace LS r r' q p b)) \<and>
      orders_of (snd (book_replace LS r r' q p b)) = spec_replace r r' q p (orders_of b)"
    using ad M Some rm(3) by (simp add: book_replace_def Let_def spec_replace_def spec_remove_def)
qed

text \<open>An order message may need a free handle; the other messages never do.\<close>

definition pool_room_for :: "Message \<Rightarrow> 'l order_book \<Rightarrow> bool" where
  "pool_room_for m b \<longleftrightarrow>
     (msg_type m \<in> {AddOrder, AddOrderMpid} \<longrightarrow> card (pool_in_use (orders b)) < 2 ^ 32)"

lemma book_apply_refines:
  assumes "index_ok b" and "pool_room_for m b"
  shows "index_ok (book_apply LS m b)"
    and "orders_of (book_apply LS m b) = spec_apply m (orders_of b)"
  using assms(2)
  by (cases "msg_type m"; simp add: book_apply_def spec_apply_def pool_room_for_def
      book_add_refines [OF assms(1)] book_remove_refines [OF assms(1)]
      book_reduce_refines [OF assms(1)] book_replace_refines [OF assms(1)] assms(1))+

section \<open>Level totals\<close>

definition order_valid :: "Order \<Rightarrow> bool" where
  "order_valid ord \<longleftrightarrow> o_shares ord \<noteq> 0 \<and> o_side ord \<in> {Buy, Sell} \<and> 0 \<le> o_price ord"

definition totals ::
  "'l level_ops \<Rightarrow> (Compare \<Rightarrow> 'l \<Rightarrow> bool) \<Rightarrow> 'l \<Rightarrow> 'l \<Rightarrow> spec_book \<Rightarrow> bool" where
  "totals LS I B A M \<longleftrightarrow>
     I Std_greater B \<and> I Std_less A \<and>
     (\<forall>p. unat (ls_at LS Std_greater B p) = spec_depth M Buy p) \<and>
     (\<forall>p. unat (ls_at LS Std_less A p) = spec_depth M Sell p)"

text \<open>
  The invariant of the whole book: the index and the pool agree exactly (no slot leaks),
  every order is a non-empty order of a proper side, and the level totals are the sums.
\<close>

definition book_inv :: "'l level_ops \<Rightarrow> (Compare \<Rightarrow> 'l \<Rightarrow> bool) \<Rightarrow> 'l order_book \<Rightarrow> bool" where
  "book_inv LS I b \<longleftrightarrow>
     index_ok b \<and> snd ` set (index b) = pool_in_use (orders b) \<and>
     (\<forall>r ord. orders_of b r = Some ord \<longrightarrow> order_valid ord) \<and>
     totals LS I (bids b) (asks b) (orders_of b)"

text \<open>
  What a feed must satisfy for the totals to stay exact: new references are fresh, sides are
  \<open>B\<close> or \<open>S\<close>, and no level total reaches \<open>2 ^ 32\<close> shares.
\<close>

definition add_allowed :: "OrderRef \<Rightarrow> Side \<Rightarrow> Price \<Rightarrow> Qty \<Rightarrow> spec_book \<Rightarrow> bool" where
  "add_allowed r sd p q M \<longleftrightarrow>
     q = 0 \<or> (M r = None \<and> sd \<in> {Buy, Sell} \<and> 0 \<le> p \<and> spec_depth M sd p + unat q < 2 ^ 32)"

definition msg_allowed :: "Message \<Rightarrow> spec_book \<Rightarrow> bool" where
  "msg_allowed m M \<longleftrightarrow>
     (if msg_type m \<in> {AddOrder, AddOrderMpid}
      then add_allowed (order_ref m) (m_side m) (m_price m) (m_shares m) M \<and>
           (m_shares m = 0 \<or> card (dom M) < 2 ^ 32)
      else if msg_type m = OrderReplace
      then (case M (order_ref m) of
              None \<Rightarrow> True
            | Some ord \<Rightarrow> add_allowed (new_order_ref m) (o_side ord) (m_price m) (m_shares m)
                            (M(order_ref m := None)))
      else True)"

section \<open>Rebuilding the levels from the index\<close>

text \<open>A feed is allowed when each message is, in the book the earlier ones lead to.\<close>

fun feed_allowed :: "Message list \<Rightarrow> spec_book \<Rightarrow> bool" where
  "feed_allowed [] M \<longleftrightarrow> True"
| "feed_allowed (m # ms) M \<longleftrightarrow> msg_allowed m M \<and> feed_allowed ms (spec_apply m M)"

definition book_run :: "'l level_ops \<Rightarrow> Message list \<Rightarrow> 'l order_book" where
  "book_run LS ms = fold (book_apply LS) ms (book_new LS)"

lemma orders_of_book_new [simp]: "orders_of (book_new LS) = Map.empty"
  by (simp add: orders_of_def book_new_def fun_eq_iff)

text \<open>
  What a best price promises: it shows the total resting at its price, and no price with
  resting shares is better.
\<close>

definition is_best ::
  "(Price \<Rightarrow> Price \<Rightarrow> bool) \<Rightarrow> (Price \<Rightarrow> nat) \<Rightarrow> (Price \<times> Qty) option \<Rightarrow> bool" where
  "is_best better D x \<longleftrightarrow>
     (case x of
        None \<Rightarrow> \<forall>p. D p = 0
      | Some (p, q) \<Rightarrow> unat q = D p \<and> D p > 0 \<and> (\<forall>p'. D p' > 0 \<longrightarrow> p' = p \<or> better p p'))"

abbreviation resting_sum :: "Order object_pool \<Rightarrow> Side \<Rightarrow> Price \<Rightarrow> (OrderRef \<times> Handle) list \<Rightarrow> nat" where
  "resting_sum P s p kvs \<equiv> (\<Sum>kv\<leftarrow>kvs. resting s p (pool_get P (snd kv)))"

lemma spec_depth_index:
  assumes "index_ok b"
  shows "spec_depth (orders_of b) s p = resting_sum (orders b) s p (index b)"
proof -
  have "dom (orders_of b) = dom (map_of (index b))"
    by (auto simp: orders_of_def dom_def)
  moreover have "the (orders_of b r) = pool_get (orders b) (the (map_of (index b) r))"
    if "r \<in> dom (map_of (index b))" for r
    using that by (auto simp: orders_of_def)
  ultimately have "spec_depth (orders_of b) s p =
      (\<Sum>r \<in> dom (map_of (index b)). resting s p (pool_get (orders b) (the (map_of (index b) r))))"
    unfolding spec_depth_def by (intro sum.cong) auto
  with assms show ?thesis
    by (simp add: sum_dom_map_of [where f = "\<lambda>h. resting s p (pool_get (orders b) h)"] index_ok_def)
qed

text \<open>
  One rebuilt ladder: sorted, its totals the sums taken in 32-bit arithmetic, its keys the
  prices at which an order of that side rests.
\<close>

definition rebuilt ::
  "Compare \<Rightarrow> Side \<Rightarrow> Order object_pool \<Rightarrow> (OrderRef \<times> Handle) list \<Rightarrow> omap \<Rightarrow> omap \<Rightarrow> bool" where
  "rebuilt c s P kvs m m' \<longleftrightarrow>
     ladder_sorted c m' \<and>
     (\<forall>p. ladder_at m' p = ladder_at m p + of_nat (resting_sum P s p kvs)) \<and>
     fst ` set m' = fst ` set m \<union> {p. \<exists>kv \<in> set kvs. resting s p (pool_get P (snd kv)) > 0}"

lemma rebuilt_Nil: "ladder_sorted c m \<Longrightarrow> rebuilt c s P [] m m"
  by (simp add: rebuilt_def)

lemma rebuilt_hit:
  assumes "ladder_sorted c m" and "ord = pool_get P (snd kv)" and "o_side ord = s" and "o_shares ord \<noteq> 0"
    and "rebuilt c s P kvs (omap_add c (o_price ord) (o_shares ord) m) m'"
  shows "rebuilt c s P (kv # kvs) m m'"
proof -
  have "fst ` set (omap_add c (o_price ord) (o_shares ord) m) = insert (o_price ord) (fst ` set m)"
    by (simp add: omap_add_def keys_omap_put)
  moreover have "{p. \<exists>x \<in> set (kv # kvs). resting s p (pool_get P (snd x)) > 0} =
      insert (o_price ord) {p. \<exists>x \<in> set kvs. resting s p (pool_get P (snd x)) > 0}"
    using assms(2-4) by (auto simp: resting_def unat_gt_0 split: if_splits)
  moreover have "ladder_at (omap_add c (o_price ord) (o_shares ord) m) p =
      ladder_at m p + of_nat (resting s p ord)" for p
    using assms(1,3) by (simp add: omap_add_alt ladder_at_omap_put resting_def)
  ultimately show ?thesis
    using assms(2,5) by (simp add: rebuilt_def add.assoc)
qed

lemma rebuilt_miss:
  "o_side (pool_get P (snd kv)) \<noteq> s \<Longrightarrow> rebuilt c s P kvs m m' \<Longrightarrow> rebuilt c s P (kv # kvs) m m'"
  by (simp add: rebuilt_def resting_def)

lemma rebuild_levels_ok:
  assumes "\<forall>kv \<in> set kvs. order_valid (pool_get P (snd kv))"
    and "ladder_sorted Std_greater rb" and "ladder_sorted Std_less ra"
  obtains rb' ra' where "rebuild_levels P kvs (rb, ra) = Some (rb', ra')"
    "rebuilt Std_greater Buy P kvs rb rb'" "rebuilt Std_less Sell P kvs ra ra'"
  using assms
proof (induction kvs arbitrary: rb ra thesis)
  case (Cons kv kvs)
  let ?ord = "pool_get P (snd kv)"
  have v: "o_shares ?ord \<noteq> 0" "o_side ?ord \<in> {Buy, Sell}"
    using Cons.prems(2) by (auto simp: order_valid_def)
  have sorted: "ladder_sorted c (omap_add c (o_price ?ord) (o_shares ?ord) m)"
    if "ladder_sorted c m" for c m
    using that by (simp add: omap_add_def ladder_sorted_omap_put)
  show ?case
  proof (cases "o_side ?ord = Buy")
    case True
    obtain rb' ra' where r:
      "rebuild_levels P kvs (omap_add Std_greater (o_price ?ord) (o_shares ?ord) rb, ra) = Some (rb', ra')"
      "rebuilt Std_greater Buy P kvs (omap_add Std_greater (o_price ?ord) (o_shares ?ord) rb) rb'"
      "rebuilt Std_less Sell P kvs ra ra'"
      using Cons.IH [OF _ _ sorted [OF Cons.prems(3)] Cons.prems(4)] Cons.prems(2) by auto
    with Cons.prems(1) [of rb' ra'] True v Cons.prems(3) show ?thesis
      by (simp add: Let_def rebuilt_hit rebuilt_miss)
  next
    case False
    then have S: "o_side ?ord = Sell" using v by simp
    obtain rb' ra' where r:
      "rebuild_levels P kvs (rb, omap_add Std_less (o_price ?ord) (o_shares ?ord) ra) = Some (rb', ra')"
      "rebuilt Std_greater Buy P kvs rb rb'"
      "rebuilt Std_less Sell P kvs (omap_add Std_less (o_price ?ord) (o_shares ?ord) ra) ra'"
      using Cons.IH [OF _ _ Cons.prems(3) sorted [OF Cons.prems(4)]] Cons.prems(2) by auto
    with Cons.prems(1) [of rb' ra'] S v Cons.prems(4) show ?thesis
      by (simp add: Let_def rebuilt_hit rebuilt_miss)
  qed
qed (auto simp: rebuilt_Nil)

context level_store
begin

lemma totals_inc:
  assumes "totals LS invar B A M" and "order_valid ord"
    and "\<forall>s p. spec_depth M' s p = resting s p ord + spec_depth M s p"
    and "spec_depth M (o_side ord) (o_price ord) + unat (o_shares ord) < 2 ^ 32"
  shows "totals LS invar
           (if o_side ord = Buy then ls_inc LS Std_greater (o_price ord) (o_shares ord) B else B)
           (if o_side ord = Buy then A else ls_inc LS Std_less (o_price ord) (o_shares ord) A) M'"
proof -
  have inc: "invar c (ls_inc LS c (o_price ord) (o_shares ord) l) \<and>
      unat (ls_at LS c (ls_inc LS c (o_price ord) (o_shares ord) l) p) =
        (if p = o_price ord then unat (o_shares ord) else 0) + unat (ls_at LS c l p)"
    if "invar c l" "unat (ls_at LS c l (o_price ord)) + unat (o_shares ord) < 2 ^ 32" for c l p
    using that assms(2) by (simp add: at_shown invar_inc at_inc order_valid_def unat_add_small)
  show ?thesis
  proof (cases "o_side ord")
    case Buy
    with assms inc [of Std_greater B] show ?thesis
      by (simp add: totals_def resting_def)
  next
    case Sell
    with assms inc [of Std_less A] show ?thesis
      by (simp add: totals_def resting_def)
  qed (use assms(2) in \<open>auto simp: order_valid_def\<close>)
qed

lemma totals_dec:
  assumes "totals LS invar B A M" and "sd \<in> {Buy, Sell}"
    and M': "\<forall>s p. spec_depth M s p = (if s = sd \<and> p = pr then unat d else 0) + spec_depth M' s p"
  shows "totals LS invar (if sd = Buy then ls_dec LS Std_greater pr d B else B)
           (if sd = Buy then A else ls_dec LS Std_less pr d A) M'"
proof -
  have dec: "invar c (ls_dec LS c pr d l) \<and>
      unat (ls_at LS c (ls_dec LS c pr d l) p) = unat (ls_at LS c l p) - (if p = pr then unat d else 0)"
    if "invar c l" "unat d \<le> unat (ls_at LS c l pr)" for c l p
    using that by (simp add: at_shown invar_dec at_dec unat_sub_small word_le_nat_alt)
  show ?thesis
  proof (cases "sd = Buy")
    case True
    with assms dec [of Std_greater B] M' [rule_format, of Buy pr] show ?thesis
      by (simp add: totals_def)
  next
    case False
    then have "sd = Sell" using assms(2) by simp
    with assms dec [of Std_less A] M' [rule_format, of Sell pr] show ?thesis
      by (simp add: totals_def)
  qed
qed

lemma book_inv_new: "book_inv LS invar (book_new LS)"
  by (simp add: book_inv_def book_new_def index_ok_def pool_invar_new pool_in_use_new orders_of_def
      totals_def invar_empty at_shown shown_empty)

lemma book_inv_add:
  assumes b: "book_inv LS invar b" and al: "add_allowed r sd p q (orders_of b)"
    and room: "q \<noteq> 0 \<Longrightarrow> card (pool_in_use (orders b)) < 2 ^ 32"
  shows "book_inv LS invar (book_add LS r sd p q b)"
proof (cases "q = 0")
  case False
  let ?b' = "book_add LS r sd p q b" and ?M = "orders_of b"
  let ?ord = "\<lparr>o_side = sd, o_price = p, o_shares = q\<rparr>"
  have ok: "index_ok b" using b by (simp add: book_inv_def)
  note ref = book_add_refines [OF ok room, where LS = LS and r = r and sd = sd and p = p]
  obtain h P where pa: "pool_alloc Order_init (orders b) = (h, P)" by fastforce
  note sel = book_add_split [OF pa False, of LS r sd p]
  note ia = index_add(3) [OF ok room [OF False] pa refl, of r ?ord]
  have M: "?M r = None" "order_valid ?ord" "spec_depth ?M sd p + unat q < 2 ^ 32"
    using al False by (auto simp: add_allowed_def order_valid_def)
  then have "r \<notin> fst ` set (index b)" by (simp add: orders_of_def map_of_eq_None_iff)
  then have "snd ` set (index ?b') = pool_in_use (orders ?b')"
    using b ia by (simp add: sel book_inv_def alist_update_notin)
  moreover have M': "orders_of ?b' = ?M(r \<mapsto> ?ord)" using ref(2) False by (simp add: spec_add_def)
  moreover have "totals LS invar (bids ?b') (asks ?b') (?M(r \<mapsto> ?ord))"
    unfolding sel using totals_inc [of "bids b" "asks b" ?M ?ord "?M(r \<mapsto> ?ord)"] b M
    by (cases "sd = Buy") (simp_all add: book_inv_def spec_depth_insert)
  ultimately show ?thesis
    using b M(2) ref(1) by (simp add: book_inv_def)
qed (use b in \<open>simp add: book_add_def\<close>)

lemma book_inv_remove:
  assumes b: "book_inv LS invar b"
  shows "book_inv LS invar (snd (book_remove LS r b))"
proof (cases "map_of (index b) r")
  case (Some h)
  let ?b' = "snd (book_remove LS r b)" and ?M = "orders_of b"
  have ok: "index_ok b" using b by (simp add: book_inv_def)
  define ord where "ord = pool_get (orders b) h"
  have M: "?M r = Some ord" using Some by (simp add: orders_of_def ord_def)
  then have v: "order_valid ord" using b by (simp add: book_inv_def)
  note ref = book_remove_refines [OF ok, of LS r]
  note er = index_erase [OF ok Some refl]
  have "snd ` set (index ?b') = pool_in_use (orders ?b')"
    using b er(3,4) by (simp add: book_inv_def book_remove_def Some Let_def)
  moreover have "spec_depth ?M s p = (if s = o_side ord \<and> p = o_price ord
      then unat (o_shares ord) else 0) + spec_depth (?M(r := None)) s p" for s p
    using spec_depth_split [of ?M r ord s p] M by (auto simp: resting_def)
  then have "totals LS invar (bids ?b') (asks ?b') (?M(r := None))"
    using totals_dec [of "bids b" "asks b" ?M "o_side ord" "o_price ord" "o_shares ord" "?M(r := None)"]
      b v
    by (simp add: book_inv_def book_remove_def Some Let_def ord_def [symmetric] order_valid_def)
  ultimately show ?thesis
    using b ref(2,3) by (simp add: book_inv_def spec_remove_def)
qed (use b in \<open>simp add: book_remove_def\<close>)

lemma book_inv_reduce:
  assumes b: "book_inv LS invar b"
  shows "book_inv LS invar (snd (book_reduce LS r q b))"
proof (cases "map_of (index b) r")
  case (Some h)
  let ?b' = "snd (book_reduce LS r q b)" and ?M = "orders_of b"
  have ok: "index_ok b" using b by (simp add: book_inv_def)
  define ord where "ord = pool_get (orders b) h"
  have M: "?M r = Some ord" using Some by (simp add: orders_of_def ord_def)
  then have v: "order_valid ord" using b by (simp add: book_inv_def)
  note ref = book_reduce_refines [OF ok, of LS r q]
  define d where "d = (if q < o_shares ord then q else o_shares ord)"
  define o2 where "o2 = ord\<lparr>o_shares := o_shares ord - d\<rparr>"
  define b1 where "b1 = b\<lparr>orders := pool_set h o2 (orders b)\<rparr>"
  have b1: "index_ok b1" "map_of (index b1) r = Some h"
    "pool_in_use (orders b1) = pool_in_use (orders b)"
    using index_set [OF ok Some b1_def] Some by (simp_all add: b1_def)
  note er = index_erase [OF b1(1,2) refl]
  note sel = book_reduce_split [OF Some ord_def d_def o2_def, of LS]
  have "snd ` set (index ?b') = pool_in_use (orders ?b')"
    using b er(3,4) b1(3) by (simp add: book_inv_def sel) (simp add: b1_def)
  moreover have "totals LS invar (bids ?b') (asks ?b') (spec_reduce r q ?M)"
  proof -
    have dle: "unat d \<le> unat (o_shares ord)"
      by (simp add: d_def word_less_nat_alt)
    have "spec_depth ?M s p = (if s = o_side ord \<and> p = o_price ord then unat d else 0) +
        spec_depth (spec_reduce r q ?M) s p" for s p
    proof (cases "o_shares ord \<le> q")
      case True
      then have "d = o_shares ord" by (auto simp: d_def)
      with True M spec_depth_split [of ?M r ord s p] show ?thesis
        by (auto simp: spec_reduce_def resting_def)
    next
      case False
      then have dq: "d = q" by (simp add: d_def not_le)
      have "spec_depth (?M(r \<mapsto> o2)) s p = resting s p o2 + spec_depth (?M(r := None)) s p"
        using spec_depth_insert [of "?M(r := None)" r o2 s p] by simp
      with False dq dle M spec_depth_split [of ?M r ord s p] show ?thesis
        by (auto simp: spec_reduce_def resting_def o2_def unat_sub_small)
    qed
    with totals_dec [of "bids b" "asks b" ?M "o_side ord" "o_price ord" d "spec_reduce r q ?M"] b v
    show ?thesis by (simp add: sel book_inv_def order_valid_def)
  qed
  moreover have "\<forall>r' ord'. spec_reduce r q ?M r' = Some ord' \<longrightarrow> order_valid ord'"
    using b v M by (auto simp: spec_reduce_def book_inv_def order_valid_def split: if_splits)
  ultimately show ?thesis
    using ref(2,3) by (simp add: book_inv_def)
qed (use b in \<open>simp add: book_reduce_def\<close>)

lemma book_inv_replace:
  assumes b: "book_inv LS invar b"
    and al: "\<And>ord. orders_of b r = Some ord \<Longrightarrow> add_allowed r' (o_side ord) p q ((orders_of b)(r := None))"
  shows "book_inv LS invar (snd (book_replace LS r r' q p b))"
proof (cases "map_of (index b) r")
  case (Some h)
  let ?b1 = "snd (book_remove LS r b)"
  have ok: "index_ok b" using b by (simp add: book_inv_def)
  have M: "orders_of b r = Some (pool_get (orders b) h)" using Some by (simp add: orders_of_def)
  have "card (pool_in_use (orders ?b1)) < card (pool_in_use (orders b))"
    using book_remove_in_use [OF ok] M by simp
  also have "\<dots> \<le> 2 ^ 32"
    using card_mono [OF _ subset_UNIV, of "pool_in_use (orders b)"] by (simp add: card_word)
  finally have "card (pool_in_use (orders ?b1)) < 2 ^ 32" .
  moreover have "add_allowed r' (o_side (pool_get (orders b) h)) p q (orders_of ?b1)"
    using al [OF M] by (simp add: book_remove_refines [OF ok] spec_remove_def)
  ultimately show ?thesis
    using book_inv_add [OF book_inv_remove [OF b]] by (simp add: book_replace_def Some Let_def)
qed (use b in \<open>simp add: book_replace_def\<close>)

lemma card_in_use_eq:
  assumes "book_inv LS invar b"
  shows "card (pool_in_use (orders b)) = card (dom (orders_of b))"
    and "order_count b = card (dom (orders_of b))"
proof -
  have d: "distinct (map fst (index b))" "distinct (map snd (index b))"
    and s: "pool_in_use (orders b) = snd ` set (index b)"
    using assms by (auto simp: book_inv_def index_ok_def)
  have "dom (orders_of b) = fst ` set (index b)"
    by (simp add: dom_map_of_conv_image_fst [symmetric]) (simp add: orders_of_def dom_def)
  with d show "order_count b = card (dom (orders_of b))"
    by (metis distinct_card length_map list.set_map order_count_def)
  moreover have "card (pool_in_use (orders b)) = length (index b)"
    using d s by (metis distinct_card length_map list.set_map)
  ultimately show "card (pool_in_use (orders b)) = card (dom (orders_of b))"
    by (simp add: order_count_def)
qed

lemma book_inv_apply:
  assumes b: "book_inv LS invar b" and m: "msg_allowed m (orders_of b)"
  shows "book_inv LS invar (book_apply LS m b)"
    and "orders_of (book_apply LS m b) = spec_apply m (orders_of b)"
proof -
  have ok: "index_ok b" using b by (simp add: book_inv_def)
  have room: "card (pool_in_use (orders b)) < 2 ^ 32"
    if "msg_type m \<in> {AddOrder, AddOrderMpid}" "m_shares m \<noteq> 0"
    using m that card_in_use_eq [OF b] by (simp add: msg_allowed_def)
  show "book_inv LS invar (book_apply LS m b)"
  proof (cases "msg_type m = OrderReplace")
    case True
    with m show ?thesis
      by (auto simp: book_apply_def msg_allowed_def intro!: book_inv_replace [OF b])
  next
    case False
    with m room book_inv_add [OF b] show ?thesis
      by (cases "msg_type m"; simp add: book_apply_def msg_allowed_def b book_inv_remove book_inv_reduce)
  qed
  show "orders_of (book_apply LS m b) = spec_apply m (orders_of b)"
    using room book_add_refines(2) [OF ok]
    by (cases "msg_type m"; simp add: book_apply_def spec_apply_def book_remove_refines [OF ok]
        book_reduce_refines [OF ok] book_replace_refines [OF ok])
qed

text \<open>Totals of a side as a ladder: what the store shows is what the rebuild produces.\<close>

lemma rebuilt_shown:
  assumes "invar c l" and "\<forall>p. unat (ls_at LS c l p) = resting_sum P s p kvs"
    and "rebuilt c s P kvs [] m"
  shows "m = shown c l"
proof (rule ladder_unique [of c])
  have small: "resting_sum P s p kvs < 2 ^ 32" for p
    using assms(2) unat_u32_less [of "ls_at LS c l p"] by simp
  have at: "ladder_at m p = ls_at LS c l p" for p
    using assms(2,3) by (simp add: rebuilt_def flip: assms(2) [rule_format])
  show "ladder_ok c m"
    unfolding ladder_ok_def
  proof (intro conjI ballI)
    show "ladder_sorted c m" using assms(3) by (simp add: rebuilt_def)
    fix x assume x: "x \<in> set m"
    then obtain kv where kv: "kv \<in> set kvs" "resting s (fst x) (pool_get P (snd kv)) > 0"
      using assms(3) by (force simp: rebuilt_def)
    then have "resting_sum P s (fst x) kvs > 0"
      using member_le_sum_list [of "resting s (fst x) (pool_get P (snd kv))"
          "map (\<lambda>kv. resting s (fst x) (pool_get P (snd kv))) kvs"] by force
    moreover have "snd x = ladder_at m (fst x)"
      using ladder_at_mem [of c m "fst x" "snd x"] x assms(3) by (simp add: rebuilt_def)
    ultimately show "snd x \<noteq> 0"
      using at assms(2) by (metis unat_0 less_irrefl)
  qed
  show "ladder_ok c (shown c l)" using assms(1) by (rule shown_ok)
  show "ladder_at m = ladder_at (shown c l)"
    using at assms(1) by (simp add: fun_eq_iff at_shown)
qed

lemma book_inv_invariant_ok:
  assumes b: "book_inv LS invar b"
  shows "invariant_ok LS b"
proof -
  have ok: "index_ok b" using b by (simp add: book_inv_def)
  have "\<forall>kv \<in> set (index b). order_valid (pool_get (orders b) (snd kv))"
  proof
    fix kv assume "kv \<in> set (index b)"
    then have "orders_of b (fst kv) = Some (pool_get (orders b) (snd kv))"
      using ok by (auto simp: orders_of_def index_ok_def intro!: exI [of _ "snd kv"])
    then show "order_valid (pool_get (orders b) (snd kv))" using b by (simp add: book_inv_def)
  qed
  then obtain rb ra where r: "rebuild_levels (orders b) (index b) ([], []) = Some (rb, ra)"
    "rebuilt Std_greater Buy (orders b) (index b) [] rb" "rebuilt Std_less Sell (orders b) (index b) [] ra"
    using rebuild_levels_ok [of "index b" "orders b" "[]" "[]"] by auto
  have t: "totals LS invar (bids b) (asks b) (orders_of b)" using b by (simp add: book_inv_def)
  have "rb = shown Std_greater (bids b)" "ra = shown Std_less (asks b)"
    using t rebuilt_shown [OF _ _ r(2)] rebuilt_shown [OF _ _ r(3)]
    by (simp_all add: totals_def spec_depth_index [OF ok])
  moreover have "ladder_ok Std_greater (shown Std_greater (bids b))" "ladder_ok Std_less (shown Std_less (asks b))"
    using t by (simp_all add: totals_def shown_ok)
  ultimately show ?thesis
    using t r(1) by (auto simp: invariant_ok_def totals_def size_shown at_shown list_all_iff
        dest: ladder_at_mem [OF ladder_okD])
qed

text \<open>A whole feed, from any good state and so from the empty book.\<close>

lemma book_inv_run:
  assumes "book_inv LS invar b" and "feed_allowed ms (orders_of b)"
  shows "book_inv LS invar (fold (book_apply LS) ms b) \<and>
         orders_of (fold (book_apply LS) ms b) = fold spec_apply ms (orders_of b)"
  using assms
proof (induction ms arbitrary: b)
  case (Cons m ms)
  then show ?case using book_inv_apply [of b m] by simp
qed simp

lemma book_run_ok:
  assumes "feed_allowed ms Map.empty"
  shows "book_inv LS invar (book_run LS ms)" and "orders_of (book_run LS ms) = fold spec_apply ms Map.empty"
    and "invariant_ok LS (book_run LS ms)"
  using book_inv_run [OF book_inv_new, of ms] assms book_inv_invariant_ok
  by (simp_all add: book_run_def orders_of_book_new)

text \<open>The queries of a good book, read off the abstract book.\<close>

lemma book_queries:
  assumes b: "book_inv LS invar b" and s: "s \<in> {Buy, Sell}"
  shows "unat (qty_at LS b s p) = spec_depth (orders_of b) s p"
    and "ladder_ok (if s = Buy then Std_greater else Std_less) (depth LS b s n)"
    and "(p, q) \<in> set (depth LS b s n) \<Longrightarrow> unat q = spec_depth (orders_of b) s p"
proof -
  have t: "totals LS invar (bids b) (asks b) (orders_of b)" using b by (simp add: book_inv_def)
  then show q: "unat (qty_at LS b s p) = spec_depth (orders_of b) s p" for p
    using s by (auto simp: totals_def qty_at_def)
  have ok: "ladder_ok c (take n (shown c l))" if "invar c l" for c l
    using shown_ok [OF that] by (metis append_take_drop_id ladder_ok_append)
  then show "ladder_ok (if s = Buy then Std_greater else Std_less) (depth LS b s n)"
    using t s by (simp add: depth_def totals_def top_shown)
  have "ls_at LS c l p = q" if "invar c l" "(p, q) \<in> set (ls_top LS c l n)" for c l
    using that shown_ok [OF that(1)] by (auto simp: top_shown at_shown ladder_ok_mem_iff dest: in_set_takeD)
  then show "(p, q) \<in> set (depth LS b s n) \<Longrightarrow> unat q = spec_depth (orders_of b) s p"
    using t q [of p] by (auto simp: depth_def totals_def qty_at_def split: if_splits)
qed

lemma best_is_best_of:
  assumes l: "invar c l" and D: "\<forall>p. unat (ls_at LS c l p) = D p"
  shows "is_best (cmp c) D (ls_best LS c l)"
proof (cases "ls_best LS c l")
  case None
  then have "ls_at LS c l p = 0" for p using best_None_iff [OF l] by simp
  then have "D p = 0" for p using D by (metis unat_0)
  with None show ?thesis by (simp add: is_best_def)
next
  case (Some x)
  then obtain p q where pq: "ls_best LS c l = Some (p, q)" by (cases x) simp
  note bb = best_is_best [OF l pq]
  have "p' = p \<or> cmp c p p'" if "D p' > 0" for p'
    using bb that D by (metis less_irrefl unat_0)
  moreover have "unat q = D p" using bb D by metis
  moreover have "unat q \<noteq> 0" using bb by (simp add: unat_eq_0)
  ultimately show ?thesis by (simp add: is_best_def pq)
qed

lemma best_bid_ask:
  assumes "book_inv LS invar b"
  shows "is_best (cmp Std_greater) (spec_depth (orders_of b) Buy) (best_bid LS b)"
    and "is_best (cmp Std_less) (spec_depth (orders_of b) Sell) (best_ask LS b)"
  using assms
  by (simp_all add: book_inv_def best_bid_def best_ask_def totals_def best_is_best_of)

end

end
