(* ===== verification/Book_Runs.thy ===== *)
theory Book_Runs
  imports Order_Book
begin

text \<open>
  The book over its three level stores. Two books that index the same orders answer every
  query alike whatever their stores are (\<^verbatim>\<open>book_parity_test.cpp\<close> samples this), and each of
  the three instances the program uses keeps its invariant on every well-formed feed.
\<close>

section \<open>Two stores, one feed\<close>

context two_stores
begin

lemma same_totals:
  assumes "totals LS1 invar1 B A M" and "totals LS2 invar2 B' A' M"
  shows "same Std_greater B B'" and "same Std_less A A'"
proof -
  have eq: "same c l l'"
    if "invar1 c l" "invar2 c l'" "\<forall>p. unat (ls_at LS1 c l p) = D p" "\<forall>p. unat (ls_at LS2 c l' p) = D p"
    for c l l' D
  proof -
    have "ladder_at (shown1 c l) p = ladder_at (shown2 c l') p" for p
      using that by (metis A.at_shown B.at_shown unsigned_word_eqI)
    then have "shown1 c l = shown2 c l'"
      using that(1,2) by (intro ladder_unique [of c] A.shown_ok B.shown_ok) (auto simp: fun_eq_iff)
    with that(1,2) show ?thesis by (simp add: same_def)
  qed
  show "same Std_greater B B'"
    using assms by (intro eq [where D = "spec_depth M Buy"]) (auto simp: totals_def)
  show "same Std_less A A'"
    using assms by (intro eq [where D = "spec_depth M Sell"]) (auto simp: totals_def)
qed

lemma book_parity:
  assumes "book_inv LS1 invar1 b" and "book_inv LS2 invar2 b'" and "orders_of b = orders_of b'"
  shows "best_bid LS1 b = best_bid LS2 b'" and "best_ask LS1 b = best_ask LS2 b'"
    and "qty_at LS1 b s p = qty_at LS2 b' s p" and "depth LS1 b s n = depth LS2 b' s n"
    and "bid_levels LS1 b = bid_levels LS2 b'" and "ask_levels LS1 b = ask_levels LS2 b'"
    and "order_count b = order_count b'"
proof -
  have "same Std_greater (bids b) (bids b')" "same Std_less (asks b) (asks b')"
    using assms same_totals [of "bids b" "asks b" "orders_of b" "bids b'" "asks b'"]
    by (auto simp: book_inv_def)
  from same_queries [OF this(1)] same_queries [OF this(2)]
  show "best_bid LS1 b = best_bid LS2 b'" "best_ask LS1 b = best_ask LS2 b'"
    "qty_at LS1 b s p = qty_at LS2 b' s p" "depth LS1 b s n = depth LS2 b' s n"
    "bid_levels LS1 b = bid_levels LS2 b'" "ask_levels LS1 b = ask_levels LS2 b'"
    by (simp_all add: best_bid_def best_ask_def qty_at_def depth_def bid_levels_def ask_levels_def)
  show "order_count b = order_count b'"
    using A.card_in_use_eq(2) [OF assms(1)] B.card_in_use_eq(2) [OF assms(2)] assms(3) by simp
qed

lemma run_parity:
  assumes "feed_allowed ms Map.empty"
  shows "best_bid LS1 (book_run LS1 ms) = best_bid LS2 (book_run LS2 ms)"
    and "best_ask LS1 (book_run LS1 ms) = best_ask LS2 (book_run LS2 ms)"
    and "qty_at LS1 (book_run LS1 ms) s p = qty_at LS2 (book_run LS2 ms) s p"
    and "depth LS1 (book_run LS1 ms) s n = depth LS2 (book_run LS2 ms) s n"
    and "order_count (book_run LS1 ms) = order_count (book_run LS2 ms)"
  using A.book_run_ok [OF assms] B.book_run_ok [OF assms]
  by (simp_all add: book_parity)

end

interpretation map_flat: two_stores MapLevels ladder_ok "\<lambda>c m. m" FlatLevels ladder_ok "\<lambda>c v. v"
  by unfold_locales

interpretation map_win: two_stores MapLevels ladder_ok "\<lambda>c m. m" WindowedLevels win_invar win_shown
  by unfold_locales

section \<open>What a book shows\<close>

text \<open>
  The contract of a book against the abstract book \<open>M\<close>: the index holds exactly the orders of
  \<open>M\<close>, each level shows the sum of the shares resting there, the best prices are the best,
  and the depth lists are sorted with the true totals.
\<close>

definition book_shows :: "'l level_ops \<Rightarrow> 'l order_book \<Rightarrow> spec_book \<Rightarrow> bool" where
  "book_shows LS b M \<longleftrightarrow>
     orders_of b = M \<and> order_count b = card (dom M) \<and>
     (\<forall>p. unat (qty_at LS b Buy p) = spec_depth M Buy p) \<and>
     (\<forall>p. unat (qty_at LS b Sell p) = spec_depth M Sell p) \<and>
     is_best (cmp Std_greater) (spec_depth M Buy) (best_bid LS b) \<and>
     is_best (cmp Std_less) (spec_depth M Sell) (best_ask LS b) \<and>
     (\<forall>n. ladder_ok Std_greater (book_bids LS b n) \<and> ladder_ok Std_less (book_asks LS b n)) \<and>
     (\<forall>n. \<forall>(p, q) \<in> set (book_bids LS b n). unat q = spec_depth M Buy p) \<and>
     (\<forall>n. \<forall>(p, q) \<in> set (book_asks LS b n). unat q = spec_depth M Sell p)"

context level_store
begin

lemma book_inv_shows:
  assumes b: "book_inv LS invar b"
  shows "book_shows LS b (orders_of b)"
proof -
  have d: "book_bids LS b n = depth LS b Buy n" "book_asks LS b n = depth LS b Sell n" for n
    by (simp_all add: book_bids_def book_asks_def depth_def)
  note q = book_queries [OF b, of Buy] book_queries [OF b, of Sell]
  have "\<forall>n. ladder_ok Std_greater (book_bids LS b n) \<and> ladder_ok Std_less (book_asks LS b n)"
    using q(2,5) by (simp add: d)
  moreover have "\<forall>n. \<forall>(p, q) \<in> set (book_bids LS b n). unat q = spec_depth (orders_of b) Buy p"
    using q(3) by (auto simp: d)
  moreover have "\<forall>n. \<forall>(p, q) \<in> set (book_asks LS b n). unat q = spec_depth (orders_of b) Sell p"
    using q(6) by (auto simp: d)
  ultimately show ?thesis
    using q(1,4) card_in_use_eq(2) [OF b] best_bid_ask [OF b] by (simp add: book_shows_def)
qed

lemma book_run_shows:
  assumes "feed_allowed ms Map.empty"
  shows "book_shows LS (book_run LS ms) (fold spec_apply ms Map.empty)"
  using book_inv_shows [OF book_run_ok(1) [OF assms]] book_run_ok(2) [OF assms] by simp

end

section \<open>Properties of the three books\<close>

text \<open>A short session used by the witnesses: two adds, a partial execution, a replace.\<close>

definition demo_feed :: "Message list" where
  "demo_feed =
     [Message_init\<lparr>msg_type := AddOrder, order_ref := 1, m_side := Buy, m_shares := 300,
                   m_price := 1000000\<rparr>,
      Message_init\<lparr>msg_type := AddOrderMpid, order_ref := 2, m_side := Sell, m_shares := 200,
                   m_price := 1000100\<rparr>,
      Message_init\<lparr>msg_type := OrderExecuted, order_ref := 1, m_shares := 100\<rparr>,
      Message_init\<lparr>msg_type := OrderReplace, order_ref := 2, new_order_ref := 3, m_shares := 50,
                   m_price := 1000200\<rparr>]"

lemma demo_feed_allowed: "feed_allowed demo_feed Map.empty"
  by (simp add: demo_feed_def Message_init_def msg_allowed_def add_allowed_def spec_apply_def
      spec_add_def spec_reduce_def spec_depth_def resting_def)



text \<open>C2. The book's own consistency check never fails: \<open>invariant_ok\<close>, which rebuilds both
  ladders from the resting orders and compares them with the incrementally kept ones, holds
  after every well-formed feed, for each of the three level stores.\<close>

theorem book_run_invariant_ok:
  assumes "feed_allowed ms Map.empty"
  shows "invariant_ok MapLevels (book_run MapLevels ms) \<and>
         invariant_ok FlatLevels (book_run FlatLevels ms) \<and>
         invariant_ok WindowedLevels (book_run WindowedLevels ms)"
  using map_store.book_run_ok(3) [OF assms] flat_store.book_run_ok(3) [OF assms]
    win_store.book_run_ok(3) [OF assms] by simp

theorem book_run_invariant_ok_witness:
  "invariant_ok WindowedLevels (book_run WindowedLevels demo_feed) \<and> demo_feed \<noteq> []"
  using book_run_invariant_ok [OF demo_feed_allowed] by (simp add: demo_feed_def)



text \<open>One message, any level store: the order index and the object pool act on the abstract
  book exactly as the message prescribes, and the index stays a bijection onto live slots,
  whatever the level totals do.\<close>

theorem book_apply_refines_spec:
  assumes "index_ok b" and "pool_room_for m b"
  shows "index_ok (book_apply LS m b) \<and> orders_of (book_apply LS m b) = spec_apply m (orders_of b)"
  using book_apply_refines [OF assms] by simp

theorem book_apply_refines_spec_witness:
  "orders_of (book_apply MapLevels (demo_feed ! 0) (book_new MapLevels)) =
     [1 \<mapsto> \<lparr>o_side = Buy, o_price = 1000000, o_shares = 300\<rparr>]"
proof -
  have "index_ok (book_new MapLevels)"
    using map_store.book_inv_new by (simp add: book_inv_def)
  moreover have "pool_room_for (demo_feed ! 0) (book_new MapLevels)"
    by (simp add: pool_room_for_def book_new_def pool_in_use_new)
  ultimately show ?thesis
    using book_apply_refines_spec [of "book_new MapLevels" "demo_feed ! 0" MapLevels]
    by (simp add: demo_feed_def Message_init_def spec_apply_def spec_add_def)
qed

text \<open>C22. A message about an order the book does not know is reported and changes nothing:
  \<open>reduce\<close>, \<open>remove\<close> and \<open>replace\<close> return false and leave every field of the book alone.\<close>

theorem unknown_ref_rejected:
  assumes "orders_of b r = None"
  shows "book_reduce LS r q b = (False, b) \<and> book_remove LS r b = (False, b) \<and>
         book_replace LS r r' q p b = (False, b)"
  using assms by (simp add: orders_of_def book_reduce_def book_remove_def book_replace_def)

theorem unknown_ref_rejected_witness:
  "book_reduce MapLevels 7 10 (book_run MapLevels demo_feed) =
     (False, book_run MapLevels demo_feed)"
proof -
  have "orders_of (book_run MapLevels demo_feed) 7 = None"
    using map_store.book_run_ok(2) [OF demo_feed_allowed]
    by (simp add: demo_feed_def Message_init_def spec_apply_def spec_add_def spec_reduce_def
        spec_replace_def)
  from unknown_ref_rejected [OF this, of MapLevels 10 0 0] show ?thesis by simp
qed

section \<open>Properties of the windowed array\<close>

lemma map_win_same: "win_invar c s \<Longrightarrow> map_win.same c (win_shown c s) s"
  by (simp add: map_win.same_def win_store.shown_ok)

text \<open>C5. The windowed array simulates the ordered map. As long as the level total does not wrap,
  adding to a level (in the window, in the overflow map, or after re-centring) shows exactly the
  ladder that the map shows; taking at most what a level holds leaves the ladder the map is left
  with, an emptied level disappearing and the best index being found again; both keep the array's
  invariant, and every query (best, level quantity, number of levels, top-\<open>n\<close> merge of window and
  overflow) is the map's query on the ladder shown.\<close>

theorem windowed_simulates_map:
  assumes "win_invar c s"
  shows "(0 \<le> p \<and> q \<noteq> 0 \<and> unat (win_at c s p) + unat q < 2 ^ 32 \<longrightarrow>
            win_invar c (win_inc c p q s) \<and> win_shown c (win_inc c p q s) = map_inc c p q (win_shown c s)) \<and>
         (q \<le> win_at c s p \<longrightarrow>
            win_invar c (win_dec c p q s) \<and> win_shown c (win_dec c p q s) = map_dec c p q (win_shown c s)) \<and>
         win_best c s = map_best c (win_shown c s) \<and> win_at c s p = map_at c (win_shown c s) p \<and>
         win_size c s = map_size c (win_shown c s) \<and> win_top c s n = map_top c (win_shown c s) n"
  using map_win.same_inc [OF map_win_same [OF assms], of p q] map_win.same_dec [OF map_win_same [OF assms], of q p]
    map_win.same_queries [OF map_win_same [OF assms]] assms win_store.at_shown [OF assms, of p]
  by (simp add: map_win.same_def)

theorem windowed_simulates_map_witness:
  "win_shown Std_greater (win_dec Std_greater 100 2 (win_inc Std_greater 100 5 win_empty)) = [(100, 3)]"
proof -
  let ?s = "win_inc Std_greater 100 5 win_empty"
  have e: "win_shown Std_greater win_empty = []" "win_invar Std_greater win_empty"
    using win_store.shown_empty [of Std_greater] win_store.invar_empty [of Std_greater] by simp_all
  have at: "win_at Std_greater win_empty 100 = 0" using win_store.at_shown [OF e(2), of 100] e(1) by simp
  have s: "win_invar Std_greater ?s" "win_shown Std_greater ?s = [(100, 5)]"
    using windowed_simulates_map [OF e(2), of 100 5 0] e(1) at by (simp_all add: map_inc_def omap_add_def)
  then have "2 \<le> win_at Std_greater ?s 100" using win_store.at_shown [OF s(1), of 100] by simp
  then show ?thesis using windowed_simulates_map [OF s(1), of 100 2 0] s(2) by (simp add: map_dec_def)
qed

section \<open>Where a feed leaves the well-formed path\<close>

text \<open>Adding an order under a reference that is still live overwrites the index entry while
  the old quantity stays in its level: the book's own consistency check then fails.\<close>

theorem duplicate_ref_breaks_invariant:
  "\<not> invariant_ok MapLevels
       (book_add MapLevels 1 Buy 100 5 (book_add MapLevels 1 Buy 200 7 (book_new MapLevels)))"
  by code_simp

text \<open>Level totals are 32-bit: two resting orders whose sizes add up to \<open>2 ^ 32\<close> leave a
  level that reports 0 shares, while the abstract book has \<open>2 ^ 32\<close> shares resting there.\<close>

theorem level_total_wraps:
  "qty_at MapLevels
     (book_add MapLevels 2 Buy 100 0x80000000 (book_add MapLevels 1 Buy 100 0x80000000 (book_new MapLevels)))
     Buy 100 = 0 \<and>
   spec_depth (spec_add 2 Buy 100 0x80000000 (spec_add 1 Buy 100 0x80000000 Map.empty)) Buy 100 = 2 ^ 32"
proof
  show "qty_at MapLevels
     (book_add MapLevels 2 Buy 100 0x80000000 (book_add MapLevels 1 Buy 100 0x80000000 (book_new MapLevels)))
     Buy 100 = 0"
    by code_simp
  show "spec_depth (spec_add 2 Buy 100 0x80000000 (spec_add 1 Buy 100 0x80000000 Map.empty)) Buy 100 = 2 ^ 32"
    by (simp add: spec_add_def spec_depth_def resting_def)
qed

end
