(* ===== verification/Book_Set.thy ===== *)
theory Book_Set
  imports Order_Book
begin

text \<open>
  \<^verbatim>\<open>BookSet\<close> of \<^verbatim>\<open>include/book/book_set.hpp\<close>: one map-backed book per \<open>stock_locate\<close> and the
  \<open>locate \<rightarrow> symbol\<close> table. Routing a multi-symbol feed gives each symbol the book its own
  messages build, and merging the sets of a partition of the feed by locate gives the set of
  the whole feed.
\<close>

section \<open>Definitions\<close>

type_synonym map_book = "omap order_book"

record book_set =
  bs_books :: "(u16 \<times> map_book) list"
  bs_symbols :: "(u16 \<times> string) list"

definition bs_new :: book_set where
  "bs_new = \<lparr>bs_books = [], bs_symbols = []\<rparr>"

text \<open>\<open>books_[locate]\<close>: the book, default-constructed when there is none.\<close>

definition book_ref :: "(u16 \<times> map_book) list \<Rightarrow> u16 \<Rightarrow> map_book" where
  "book_ref bs l = (case map_of bs l of None \<Rightarrow> book_new MapLevels | Some b \<Rightarrow> b)"

fun trim_loop :: "string \<Rightarrow> nat \<Rightarrow> nat" where
  "trim_loop s 0 = 0"
| "trim_loop s (Suc n) = (if s ! n = CHR '' '' then trim_loop s n else Suc n)"

definition trim :: "string \<Rightarrow> string" where
  "trim s = take (trim_loop s 8) s"

definition order_types :: "MsgType set" where
  "order_types = {AddOrder, AddOrderMpid, OrderExecuted, OrderExecutedWithPrice, OrderCancel,
                  OrderDelete, OrderReplace}"

definition bs_apply :: "Message \<Rightarrow> book_set \<Rightarrow> book_set" where
  "bs_apply m bs =
     (let l = stock_locate m
      in if msg_type m = StockDirectory
         then bs\<lparr>bs_symbols := AList.update l (trim (stock m)) (bs_symbols bs),
                 bs_books := AList.update l (book_ref (bs_books bs) l) (bs_books bs)\<rparr>
         else if msg_type m \<in> order_types
         then bs\<lparr>bs_books := AList.update l (book_apply MapLevels m (book_ref (bs_books bs) l))
                              (bs_books bs)\<rparr>
         else bs)"

definition bs_book :: "book_set \<Rightarrow> u16 \<Rightarrow> map_book option" where
  "bs_book bs l = map_of (bs_books bs) l"

fun find_symbol :: "(u16 \<times> string) list \<Rightarrow> string \<Rightarrow> u16 option" where
  "find_symbol [] tick = None"
| "find_symbol (kv # kvs) tick = (if snd kv = tick then Some (fst kv) else find_symbol kvs tick)"

definition bs_book_by_symbol :: "book_set \<Rightarrow> string \<Rightarrow> map_book option" where
  "bs_book_by_symbol bs tick =
     (case find_symbol (bs_symbols bs) tick of None \<Rightarrow> None | Some l \<Rightarrow> bs_book bs l)"

definition bs_symbol :: "book_set \<Rightarrow> u16 \<Rightarrow> string" where
  "bs_symbol bs l = (case map_of (bs_symbols bs) l of None \<Rightarrow> [] | Some s \<Rightarrow> s)"

definition book_count :: "book_set \<Rightarrow> nat" where
  "book_count bs = length (bs_books bs)"

definition total_orders :: "book_set \<Rightarrow> nat" where
  "total_orders bs = fold (\<lambda>kv n. n + order_count (snd kv)) (bs_books bs) 0"

text \<open>\<open>emplace\<close> keeps an entry that is already there.\<close>

definition emplace :: "'k \<times> 'v \<Rightarrow> ('k \<times> 'v) list \<Rightarrow> ('k \<times> 'v) list" where
  "emplace kv m = (if map_of m (fst kv) = None then m @ [kv] else m)"

definition merge_from :: "book_set \<Rightarrow> book_set \<Rightarrow> book_set \<times> book_set" where
  "merge_from this other =
     (\<lparr>bs_books = fold emplace (bs_books other) (bs_books this),
       bs_symbols = fold emplace (bs_symbols other) (bs_symbols this)\<rparr>,
      \<lparr>bs_books = [], bs_symbols = []\<rparr>)"

section \<open>Symbols\<close>

lemma trim_loop_spec:
  "n \<le> length s \<Longrightarrow> trim_loop s n \<le> n \<and> (\<forall>i. trim_loop s n \<le> i \<and> i < n \<longrightarrow> s ! i = CHR '' '') \<and>
   (trim_loop s n = 0 \<or> s ! (trim_loop s n - 1) \<noteq> CHR '' '')"
  by (induction n) (auto simp: less_Suc_eq)

lemma trim_pad:
  assumes "length t \<le> 8" and "t = [] \<or> last t \<noteq> CHR '' ''"
  shows "trim (t @ replicate (8 - length t) CHR '' '') = t"
proof -
  let ?s = "t @ replicate (8 - length t) CHR '' ''"
  have "trim_loop ?s (length t + k) = trim_loop ?s (length t)" if "length t + k \<le> 8" for k
    using that by (induction k) (auto simp: nth_append)
  from this [of "8 - length t"] have "trim_loop ?s 8 = trim_loop ?s (length t)"
    using assms(1) by simp
  also have "\<dots> = length t"
    using assms(2) by (cases t rule: rev_cases) (auto simp: nth_append)
  finally show ?thesis by (simp add: trim_def)
qed

section \<open>Routing\<close>

definition at_locate :: "u16 \<Rightarrow> Message \<Rightarrow> bool" where
  "at_locate l m \<longleftrightarrow> stock_locate m = l"

text \<open>A message that creates or changes the book of its locate.\<close>

definition opens_book :: "Message \<Rightarrow> bool" where
  "opens_book m \<longleftrightarrow> msg_type m = StockDirectory \<or> msg_type m \<in> order_types"

lemma book_apply_other:
  "msg_type m \<notin> order_types \<Longrightarrow> book_apply LS m b = b"
  by (cases "msg_type m") (simp_all add: book_apply_def order_types_def)

lemma book_ref_bs_book:
  "book_ref (bs_books bs) l = (case bs_book bs l of None \<Rightarrow> book_new MapLevels | Some b \<Rightarrow> b)"
  by (simp add: book_ref_def bs_book_def)

lemma bs_apply_book:
  "bs_book (bs_apply m bs) =
     (if opens_book m
      then (bs_book bs)(stock_locate m \<mapsto> book_apply MapLevels m (book_ref (bs_books bs) (stock_locate m)))
      else bs_book bs)"
  by (auto simp: bs_apply_def bs_book_def opens_book_def update_conv' book_apply_other Let_def order_types_def
      fun_eq_iff)

lemma bs_apply_symbols:
  "map_of (bs_symbols (bs_apply m bs)) =
     (if msg_type m = StockDirectory
      then (map_of (bs_symbols bs))(stock_locate m \<mapsto> trim (stock m)) else map_of (bs_symbols bs))"
  by (simp add: bs_apply_def update_conv' Let_def)

definition bs_run :: "Message list \<Rightarrow> book_set \<Rightarrow> book_set" where
  "bs_run ms bs = fold bs_apply ms bs"

lemma bs_run_book:
  "bs_book (bs_run ms bs) l =
     (if bs_book bs l = None \<and> \<not> (\<exists>m \<in> set ms. at_locate l m \<and> opens_book m) then None
      else Some (fold (book_apply MapLevels) (filter (at_locate l) ms) (book_ref (bs_books bs) l)))"
proof (induction ms arbitrary: bs)
  case Nil
  show ?case by (auto simp: bs_run_def bs_book_def book_ref_def split: option.split)
next
  case (Cons m ms)
  have run: "bs_run (m # ms) bs = bs_run ms (bs_apply m bs)" by (simp add: bs_run_def)
  have other: "\<not> opens_book m \<Longrightarrow> book_apply MapLevels m b = b" for b
    by (simp add: opens_book_def book_apply_other)
  have loc: "l = stock_locate m \<longleftrightarrow> at_locate l m" by (auto simp: at_locate_def)
  have ref: "book_ref (bs_books (bs_apply m bs)) l =
      (if at_locate l m then book_apply MapLevels m (book_ref (bs_books bs) l) else book_ref (bs_books bs) l)"
    by (cases "opens_book m") (simp_all add: book_ref_bs_book bs_apply_book at_locate_def other)
  show ?case
    unfolding run Cons.IH ref
    by (cases "at_locate l m"; cases "opens_book m") (simp_all add: bs_apply_book loc other)
qed

lemma bs_run_new_book:
  "bs_book (bs_run ms bs_new) l =
     (if \<exists>m \<in> set ms. at_locate l m \<and> opens_book m
      then Some (book_run MapLevels (filter (at_locate l) ms)) else None)"
  using bs_run_book [of ms bs_new l]
  by (simp add: bs_new_def bs_book_def book_ref_def book_run_def)

text \<open>The symbol of a locate is the one of its last directory message.\<close>

definition last_symbol :: "u16 \<Rightarrow> Message list \<Rightarrow> string option" where
  "last_symbol l ms =
     (let rs = filter (\<lambda>m. at_locate l m \<and> msg_type m = StockDirectory) ms
      in if rs = [] then None else Some (trim (stock (last rs))))"

lemma bs_run_symbol: "map_of (bs_symbols (bs_run ms bs_new)) l = last_symbol l ms"
proof (induction ms rule: rev_induct)
  case Nil
  show ?case by (simp add: bs_run_def bs_new_def last_symbol_def)
next
  case (snoc m ms)
  have "bs_run (ms @ [m]) bs_new = bs_apply m (bs_run ms bs_new)" by (simp add: bs_run_def)
  then show ?case
    using snoc by (auto simp: bs_apply_symbols last_symbol_def at_locate_def Let_def)
qed

section \<open>Merging\<close>

lemma map_of_emplace: "map_of (emplace kv m) = [fst kv \<mapsto> snd kv] ++ map_of m"
  by (cases kv) (auto simp: emplace_def fun_eq_iff map_add_def split: option.split)

lemma map_of_fold_emplace: "map_of (fold emplace kvs m) k = (case map_of m k of None \<Rightarrow> map_of kvs k | Some v \<Rightarrow> Some v)"
  by (induction kvs arbitrary: m) (auto simp: map_of_emplace map_add_def split: option.split)

lemma distinct_emplace:
  "distinct (map fst m) \<Longrightarrow> distinct (map fst (fold emplace kvs m))"
proof (induction kvs arbitrary: m)
  case (Cons kv kvs)
  have "distinct (map fst (emplace kv m))"
    using Cons.prems by (auto simp: emplace_def map_of_eq_None_iff)
  with Cons.IH show ?case by simp
qed simp

lemma merge_from_lookup:
  "bs_book (fst (merge_from this other)) l =
     (case bs_book this l of None \<Rightarrow> bs_book other l | Some b \<Rightarrow> Some b)"
  "map_of (bs_symbols (fst (merge_from this other))) l =
     (case map_of (bs_symbols this) l of None \<Rightarrow> map_of (bs_symbols other) l | Some s \<Rightarrow> Some s)"
  by (simp_all add: merge_from_def bs_book_def map_of_fold_emplace split: option.split)

text \<open>Two sets that answer every lookup alike.\<close>

definition same_set :: "book_set \<Rightarrow> book_set \<Rightarrow> bool" where
  "same_set a b \<longleftrightarrow> (\<forall>l. bs_book a l = bs_book b l \<and> map_of (bs_symbols a) l = map_of (bs_symbols b) l)"

definition merge_all :: "book_set list \<Rightarrow> book_set \<Rightarrow> book_set" where
  "merge_all shards out = fold (\<lambda>s acc. fst (merge_from acc s)) shards out"

text \<open>
  A partition of the feed by locate: shard \<open>w\<close> of \<open>W\<close> sees the messages whose locate \<open>h\<close>
  sends to \<open>w\<close>.
\<close>

definition shard_sets :: "(u16 \<Rightarrow> nat) \<Rightarrow> nat \<Rightarrow> Message list \<Rightarrow> book_set list" where
  "shard_sets h W ms = map (\<lambda>w. bs_run (filter (\<lambda>m. h (stock_locate m) = w) ms) bs_new) [0..<W]"

lemma merge_all_lookup:
  "bs_book (merge_all shards out) l =
     (case bs_book out l of Some b \<Rightarrow> Some b
      | None \<Rightarrow> (case filter (\<lambda>b. b \<noteq> None) (map (\<lambda>s. bs_book s l) shards) of [] \<Rightarrow> None | b # _ \<Rightarrow> b))"
  "map_of (bs_symbols (merge_all shards out)) l =
     (case map_of (bs_symbols out) l of Some b \<Rightarrow> Some b
      | None \<Rightarrow> (case filter (\<lambda>b. b \<noteq> None) (map (\<lambda>s. map_of (bs_symbols s) l) shards) of
                   [] \<Rightarrow> None | b # _ \<Rightarrow> b))"
  by (induction shards arbitrary: out)
    (auto simp: merge_all_def merge_from_lookup split: option.split)

lemma first_hit:
  assumes "k < W" and "\<forall>w < W. w \<noteq> k \<longrightarrow> f w = None"
  shows "(case filter (\<lambda>b. b \<noteq> None) (map f [0..<W]) of [] \<Rightarrow> None | b # _ \<Rightarrow> b) = f k"
proof -
  have "filter (\<lambda>w. f w \<noteq> None) [0..<W] = (if f k = None then [] else [k])"
  proof -
    have none: "filter (\<lambda>w. f w \<noteq> None) [i..<j] = []" if "j \<le> k \<or> k < i" "j \<le> W" for i j
      using that assms(2) by (auto simp: filter_empty_conv)
    show ?thesis
      using none [of k 0] none [of W "Suc k"] assms(1) by (simp add: upt_split_at [OF assms(1)])
  qed
  then show ?thesis by (simp add: filter_map o_def)
qed

lemma filter_locate_shard:
  "filter (at_locate l) (filter (\<lambda>m. h (stock_locate m) = w) ms) =
     (if w = h l then filter (at_locate l) ms else [])"
  by (auto simp: filter_filter at_locate_def filter_empty_conv intro: filter_cong)

lemma shard_book:
  "bs_book (bs_run (filter (\<lambda>m. h (stock_locate m) = w) ms) bs_new) l =
     (if w = h l then bs_book (bs_run ms bs_new) l else None)"
  unfolding bs_run_new_book filter_locate_shard by (auto simp: at_locate_def)

lemma last_symbol_shard:
  "last_symbol l (filter (\<lambda>m. h (stock_locate m) = w) ms) = (if w = h l then last_symbol l ms else None)"
proof -
  let ?R = "\<lambda>m. at_locate l m \<and> msg_type m = StockDirectory"
  have "filter ?R (filter (\<lambda>m. h (stock_locate m) = w) ms) = (if w = h l then filter ?R ms else [])"
    by (auto simp: filter_filter at_locate_def filter_empty_conv intro: filter_cong)
  then show ?thesis by (simp add: last_symbol_def)
qed

lemma merge_shards:
  assumes "\<And>l. h l < W"
  shows "same_set (merge_all (shard_sets h W ms) bs_new) (bs_run ms bs_new)"
proof -
  have new: "bs_book bs_new l = None" "map_of (bs_symbols bs_new) l = None" for l
    by (simp_all add: bs_new_def bs_book_def)
  have m: "map F (shard_sets h W ms) = map (\<lambda>w. F (bs_run (filter (\<lambda>m. h (stock_locate m) = w) ms) bs_new)) [0..<W]"
    for F :: "book_set \<Rightarrow> 'z"
    by (simp add: shard_sets_def)
  show ?thesis
    unfolding same_set_def merge_all_lookup new m option.case
  proof (intro allI conjI)
    fix l
    show "(case filter (\<lambda>b. b \<noteq> None)
        (map (\<lambda>w. bs_book (bs_run (filter (\<lambda>m. h (stock_locate m) = w) ms) bs_new) l) [0..<W]) of
        [] \<Rightarrow> None | b # _ \<Rightarrow> b) = bs_book (bs_run ms bs_new) l"
      using assms by (subst first_hit [where k = "h l"]) (simp_all add: shard_book)
    show "(case filter (\<lambda>b. b \<noteq> None)
        (map (\<lambda>w. map_of (bs_symbols (bs_run (filter (\<lambda>m. h (stock_locate m) = w) ms) bs_new)) l) [0..<W]) of
        [] \<Rightarrow> None | b # _ \<Rightarrow> b) = map_of (bs_symbols (bs_run ms bs_new)) l"
      using assms by (subst first_hit [where k = "h l"]) (simp_all add: bs_run_symbol last_symbol_shard)
  qed
qed

section \<open>Properties\<close>

text \<open>C16. Multi-symbol routing: after any feed, the book of a locate is the book its own messages
  build in isolation, it exists exactly when a directory or order message named the locate, and
  its symbol is the trimmed name of the last directory message.\<close>

theorem book_set_routes:
  "bs_book (bs_run ms bs_new) l =
     (if list_ex (\<lambda>m. at_locate l m \<and> opens_book m) ms
      then Some (book_run MapLevels (filter (at_locate l) ms)) else None) \<and>
   map_of (bs_symbols (bs_run ms bs_new)) l = last_symbol l ms"
  by (auto simp: bs_run_new_book bs_run_symbol list_ex_iff)

text \<open>Symbol trimming: the space padding of an 8-byte ITCH symbol is removed and nothing
  else; a name without trailing space survives padding and trimming.\<close>

theorem trim_padded_symbol:
  assumes "length t \<le> 8" and "t = [] \<or> last t \<noteq> CHR '' ''"
  shows "trim (t @ replicate (8 - length t) CHR '' '') = t"
  using assms by (rule trim_pad)

theorem trim_padded_symbol_witness: "trim ''AAPL    '' = ''AAPL''"
  using trim_padded_symbol [of "''AAPL''"] by (simp add: numeral_eq_Suc)

end
