(* ===== verification/Wire_Encoding.thy ===== *)
theory Wire_Encoding
  imports Itch_Decoder
begin

text \<open>
  The wire encoders of \<^verbatim>\<open>include/feed/synthetic.hpp\<close> (namespace \<^verbatim>\<open>detail\<close> and the message
  bodies its generators emit) and their agreement with the decoder: each field reader undoes
  the writer, so every emitted body decodes to the fields it was built from.
\<close>

section \<open>Field writers\<close>

definition char_byte :: "char \<Rightarrow> u8" where
  "char_byte c = of_nat (of_char c)"

definition be16 :: "bytes \<Rightarrow> u16 \<Rightarrow> bytes" where
  "be16 b v = b @ [ucast (drop_bit 8 v), ucast v]"

definition be32 :: "bytes \<Rightarrow> u32 \<Rightarrow> bytes" where
  "be32 b v = b @ [ucast (drop_bit 24 v), ucast (drop_bit 16 v), ucast (drop_bit 8 v), ucast v]"

text \<open>The loop over the shifts \<open>s = (n - 1) * 8, \<dots>, 8, 0\<close>, one recursive call per byte.\<close>

fun be_n :: "bytes \<Rightarrow> u64 \<Rightarrow> nat \<Rightarrow> bytes" where
  "be_n b v 0 = b"
| "be_n b v (Suc n) = be_n (b @ [ucast (drop_bit (n * 8) v)]) v n"

definition hdr :: "bytes \<Rightarrow> char \<Rightarrow> u16 \<Rightarrow> u64 \<Rightarrow> bytes" where
  "hdr b type locate ts = be_n (be16 (be16 (b @ [char_byte type]) locate) 0) ts 6"

definition stock8 :: "bytes \<Rightarrow> bytes" where
  "stock8 b = b @ map char_byte ''SYNTH   ''"

section \<open>Message bodies\<close>

definition body_A :: "u16 \<Rightarrow> u64 \<Rightarrow> u64 \<Rightarrow> char \<Rightarrow> u32 \<Rightarrow> u32 \<Rightarrow> bytes" where
  "body_A locate ts ref side shares px =
     be32 (stock8 (be32 (be_n (hdr [] CHR ''A'' locate ts) ref 8 @ [char_byte side]) shares)) px"

definition body_E :: "u16 \<Rightarrow> u64 \<Rightarrow> u64 \<Rightarrow> u32 \<Rightarrow> u64 \<Rightarrow> bytes" where
  "body_E locate ts ref shares mn =
     be_n (be32 (be_n (hdr [] CHR ''E'' locate ts) ref 8) shares) mn 8"

definition body_X :: "u16 \<Rightarrow> u64 \<Rightarrow> u64 \<Rightarrow> u32 \<Rightarrow> bytes" where
  "body_X locate ts ref shares = be32 (be_n (hdr [] CHR ''X'' locate ts) ref 8) shares"

definition body_D :: "u16 \<Rightarrow> u64 \<Rightarrow> u64 \<Rightarrow> bytes" where
  "body_D locate ts ref = be_n (hdr [] CHR ''D'' locate ts) ref 8"

definition body_U :: "u16 \<Rightarrow> u64 \<Rightarrow> u64 \<Rightarrow> u64 \<Rightarrow> u32 \<Rightarrow> u32 \<Rightarrow> bytes" where
  "body_U locate ts ref nref shares px =
     be32 (be32 (be_n (be_n (hdr [] CHR ''U'' locate ts) ref 8) nref 8) shares) px"

definition body_P :: "u16 \<Rightarrow> u64 \<Rightarrow> char \<Rightarrow> u32 \<Rightarrow> u32 \<Rightarrow> u64 \<Rightarrow> bytes" where
  "body_P locate ts side shares px mn =
     be_n (be32 (stock8 (be32 (be_n (hdr [] CHR ''P'' locate ts) 0 8 @ [char_byte side]) shares)) px)
       mn 8"

text \<open>The directory body: eight characters, then \<open>while (m.size() < 39) m.push_back(0)\<close>.\<close>

definition body_R :: "u16 \<Rightarrow> u64 \<Rightarrow> string \<Rightarrow> bytes" where
  "body_R locate ts sym8 =
     (let m = hdr [] CHR ''R'' locate ts @ map char_byte sym8 in m @ replicate (39 - length m) 0)"

section \<open>Readers undo writers\<close>

lemma byte_char_byte [simp]: "byte_char (char_byte c) = c"
  by (simp add: byte_char_eq_iff char_byte_def)

lemma join16 [wire_simps]:
  "push_bit 8 (ucast (ucast (drop_bit 8 v) :: u8)) OR ucast (ucast v :: u8) = (v :: u16)"
  by (rule bit_word_eqI) (auto simp: bit_simps)

lemma join32 [wire_simps]:
  "push_bit 24 (ucast (ucast (drop_bit 24 v) :: u8)) OR push_bit 16 (ucast (ucast (drop_bit 16 v) :: u8)) OR
   push_bit 8 (ucast (ucast (drop_bit 8 v) :: u8)) OR ucast (ucast v :: u8) = (v :: u32)"
  (is "?l = v")
proof (rule bit_word_eqI)
  fix n assume "n < LENGTH(32)"
  then show "bit ?l n = bit v n"
    by (cases "8 \<le> n"; cases "16 \<le> n"; cases "24 \<le> n"; simp add: bit_simps; auto)
qed

text \<open>Reading back \<open>n\<close> big-endian bytes gives the low \<open>8 * n\<close> bits of what was written.\<close>

lemma be_n_append: "be_n b v n = b @ be_n [] v n"
proof (induction n arbitrary: b)
  case (Suc n)
  show ?case
    using Suc.IH [of "b @ [ucast (drop_bit (n * 8) v)]"] Suc.IH [of "[ucast (drop_bit (n * 8) v)]"]
    by simp
qed simp

lemma length_be_n [simp]: "length (be_n b v n) = length b + n"
  by (induction n arbitrary: b) auto

lemma nth_be_n: "i < n \<Longrightarrow> be_n [] v n ! i = ucast (drop_bit ((n - 1 - i) * 8) v)"
proof (induction n arbitrary: i)
  case (Suc n)
  have "be_n [] v (Suc n) = ucast (drop_bit (n * 8) v) # be_n [] v n"
    using be_n_append [of "[ucast (drop_bit (n * 8) v)]" v n] by simp
  with Suc show ?case by (cases i) auto
qed simp

lemma take_bit_push_step:
  "k + 8 \<le> m \<Longrightarrow> push_bit 8 (take_bit k (drop_bit (m - k) v)) OR ucast (ucast (drop_bit (m - k - 8) v) :: u8)
     = take_bit (k + 8) (drop_bit (m - k - 8) (v :: u64))"
  by (rule bit_word_eqI) (auto simp: bit_simps add.commute)

lemma rd_be_prefix:
  assumes "length xs = i" and "k \<le> n"
  shows "rd_be (xs @ be_n [] v n @ ys) i k = take_bit (k * 8) (drop_bit ((n - k) * 8) v)"
  using assms(2)
proof (induction k)
  case (Suc k)
  have nth: "(xs @ be_n [] v n @ ys) ! (i + k) = ucast (drop_bit ((n - Suc k) * 8) v)"
    using Suc.prems assms(1) by (simp add: nth_append nth_be_n)
  have e: "(n - k) * 8 = n * 8 - k * 8" "(n - Suc k) * 8 = n * 8 - k * 8 - 8"
    by (simp_all add: diff_mult_distrib)
  show ?case
    using Suc take_bit_push_step [of "k * 8" "n * 8" v] by (simp add: nth) (simp add: e add.commute)
qed simp

lemma rd_be_be_n:
  "length xs = i \<Longrightarrow> rd_be (xs @ be_n [] v n @ ys) i n = take_bit (n * 8) v"
  using rd_be_prefix [of xs i n n v ys] by simp

text \<open>The same facts for a body whose bytes at some offset are known.\<close>

lemma rd_be_nth_cong: "\<forall>j < n. p ! (i + j) = q ! j \<Longrightarrow> rd_be p i n = rd_be q 0 n"
  by (induction n) auto

lemma rd_be_at:
  assumes "\<forall>j < n. p ! (i + j) = ucast (drop_bit ((n - 1 - j) * 8) v)"
  shows "rd_be p i n = take_bit (n * 8) v"
proof -
  have "rd_be p i n = rd_be (be_n [] v n) 0 n"
    using assms by (intro rd_be_nth_cong) (simp add: nth_be_n)
  then show ?thesis using rd_be_be_n [of "[]" 0 v n "[]"] by simp
qed

lemma all_less_numeral:
  "(\<forall>j < 6. P j) \<longleftrightarrow> P 0 \<and> P 1 \<and> P 2 \<and> P 3 \<and> P 4 \<and> P (5 :: nat)"
  "(\<forall>j < 8. P j) \<longleftrightarrow> P 0 \<and> P 1 \<and> P 2 \<and> P 3 \<and> P 4 \<and> P 5 \<and> P 6 \<and> P (7 :: nat)"
  by (auto simp: eval_nat_numeral All_less_Suc)

lemma be_n_explicit [wire_simps]:
  "be_n b v 6 = b @ [ucast (drop_bit 40 v), ucast (drop_bit 32 v), ucast (drop_bit 24 v),
     ucast (drop_bit 16 v), ucast (drop_bit 8 v), ucast v]"
  "be_n b v 8 = b @ [ucast (drop_bit 56 v), ucast (drop_bit 48 v), ucast (drop_bit 40 v),
     ucast (drop_bit 32 v), ucast (drop_bit 24 v), ucast (drop_bit 16 v), ucast (drop_bit 8 v),
     ucast v]"
  by (simp_all add: eval_nat_numeral)

lemma rd48_at: "\<forall>j < 6. p ! (i + j) = ucast (drop_bit ((5 - j) * 8) v) \<Longrightarrow> rd48 p i = take_bit 48 v"
  using rd_be_at [of 6 p i v] by (simp add: rd48_def)

lemma rd64_at: "\<forall>j < 8. p ! (i + j) = ucast (drop_bit ((7 - j) * 8) v) \<Longrightarrow> rd64 p i = v"
  using rd_be_at [of 8 p i v] by (simp add: rd64_def take_bit_word_eq_self)

lemmas body_defs = body_A_def body_E_def body_X_def body_D_def body_U_def body_P_def hdr_def
  be16_def be32_def stock8_def be_n_explicit

lemma body_length [simp]:
  "length (body_A locate ts ref side shares px) = 36"
  "length (body_E locate ts ref shares mn) = 31"
  "length (body_X locate ts ref shares) = 23"
  "length (body_D locate ts ref) = 19"
  "length (body_U locate ts ref nref shares px) = 35"
  "length (body_P locate ts side shares px mn) = 44"
  by (simp_all add: body_defs)

definition side_of_char :: "char \<Rightarrow> Side" where
  "side_of_char c = side_of_byte (char_byte c)"

lemma decode_body_A:
  "decode (Some (body_A locate ts ref side shares px)) 36 out =
     (True, Message_init\<lparr>msg_type := AddOrder, stock_locate := locate, timestamp := take_bit 48 ts,
        order_ref := ref, m_side := side_of_char side, m_shares := shares,
        stock := ''SYNTH   '', m_price := uint px\<rparr>)"
proof -
  let ?b = "body_A locate ts ref side shares px"
  have "rd48 ?b 5 = take_bit 48 ts" by (rule rd48_at) (simp add: all_less_numeral body_defs)
  moreover have "rd64 ?b 11 = ref" by (rule rd64_at) (simp add: all_less_numeral body_defs)
  moreover have "rd16 ?b 1 = locate" "rd32 ?b 20 = shares" "rd32 ?b 32 = px"
    by (simp_all add: rd16_def rd32_def body_defs wire_simps)
  moreover have "rd_chars ?b 24 = ''SYNTH   ''"
    by (simp add: rd_chars_def body_defs upt_rec)
  moreover have "?b ! 0 = char_byte CHR ''A''" "?b ! 19 = char_byte side"
    by (simp_all add: body_defs)
  ultimately show ?thesis by (simp add: decode_def Let_def side_of_char_def)
qed

lemma decode_body_E:
  "decode (Some (body_E locate ts ref shares mn)) 31 out =
     (True, Message_init\<lparr>msg_type := OrderExecuted, stock_locate := locate, timestamp := take_bit 48 ts,
        order_ref := ref, m_shares := shares, match_number := mn\<rparr>)"
proof -
  let ?b = "body_E locate ts ref shares mn"
  have "rd48 ?b 5 = take_bit 48 ts" by (rule rd48_at) (simp add: all_less_numeral body_defs)
  moreover have "rd64 ?b 11 = ref" by (rule rd64_at) (simp add: all_less_numeral body_defs)
  moreover have "rd64 ?b 23 = mn" by (rule rd64_at) (simp add: all_less_numeral body_defs)
  moreover have "rd16 ?b 1 = locate" "rd32 ?b 19 = shares"
    by (simp_all add: rd16_def rd32_def body_defs wire_simps)
  moreover have "?b ! 0 = char_byte CHR ''E''"
    by (simp_all add: body_defs)
  ultimately show ?thesis by (simp add: decode_def Let_def)
qed

lemma decode_body_X:
  "decode (Some (body_X locate ts ref shares)) 23 out =
     (True, Message_init\<lparr>msg_type := OrderCancel, stock_locate := locate, timestamp := take_bit 48 ts,
        order_ref := ref, m_shares := shares\<rparr>)"
proof -
  let ?b = "body_X locate ts ref shares"
  have "rd48 ?b 5 = take_bit 48 ts" by (rule rd48_at) (simp add: all_less_numeral body_defs)
  moreover have "rd64 ?b 11 = ref" by (rule rd64_at) (simp add: all_less_numeral body_defs)
  moreover have "rd16 ?b 1 = locate" "rd32 ?b 19 = shares"
    by (simp_all add: rd16_def rd32_def body_defs wire_simps)
  moreover have "?b ! 0 = char_byte CHR ''X''"
    by (simp_all add: body_defs)
  ultimately show ?thesis by (simp add: decode_def Let_def)
qed

lemma decode_body_D:
  "decode (Some (body_D locate ts ref)) 19 out =
     (True, Message_init\<lparr>msg_type := OrderDelete, stock_locate := locate, timestamp := take_bit 48 ts,
        order_ref := ref\<rparr>)"
proof -
  let ?b = "body_D locate ts ref"
  have "rd48 ?b 5 = take_bit 48 ts" by (rule rd48_at) (simp add: all_less_numeral body_defs)
  moreover have "rd64 ?b 11 = ref" by (rule rd64_at) (simp add: all_less_numeral body_defs)
  moreover have "rd16 ?b 1 = locate"
    by (simp_all add: rd16_def rd32_def body_defs wire_simps)
  moreover have "?b ! 0 = char_byte CHR ''D''"
    by (simp_all add: body_defs)
  ultimately show ?thesis by (simp add: decode_def Let_def)
qed

lemma decode_body_U:
  "decode (Some (body_U locate ts ref nref shares px)) 35 out =
     (True, Message_init\<lparr>msg_type := OrderReplace, stock_locate := locate, timestamp := take_bit 48 ts,
        order_ref := ref, new_order_ref := nref, m_shares := shares, m_price := uint px\<rparr>)"
proof -
  let ?b = "body_U locate ts ref nref shares px"
  have "rd48 ?b 5 = take_bit 48 ts" by (rule rd48_at) (simp add: all_less_numeral body_defs)
  moreover have "rd64 ?b 11 = ref" by (rule rd64_at) (simp add: all_less_numeral body_defs)
  moreover have "rd64 ?b 19 = nref" by (rule rd64_at) (simp add: all_less_numeral body_defs)
  moreover have "rd16 ?b 1 = locate" "rd32 ?b 27 = shares" "rd32 ?b 31 = px"
    by (simp_all add: rd16_def rd32_def body_defs wire_simps)
  moreover have "?b ! 0 = char_byte CHR ''U''"
    by (simp_all add: body_defs)
  ultimately show ?thesis by (simp add: decode_def Let_def)
qed

lemma decode_body_P:
  "decode (Some (body_P locate ts side shares px mn)) 44 out =
     (True, Message_init\<lparr>msg_type := Trade, stock_locate := locate, timestamp := take_bit 48 ts,
        m_side := side_of_char side, m_shares := shares,
        stock := ''SYNTH   '', m_price := uint px, match_number := mn\<rparr>)"
proof -
  let ?b = "body_P locate ts side shares px mn"
  have "rd48 ?b 5 = take_bit 48 ts" by (rule rd48_at) (simp add: all_less_numeral body_defs)
  moreover have "rd64 ?b 11 = 0" by (rule rd64_at) (simp add: all_less_numeral body_defs)
  moreover have "rd64 ?b 36 = mn" by (rule rd64_at) (simp add: all_less_numeral body_defs)
  moreover have "rd16 ?b 1 = locate" "rd32 ?b 20 = shares" "rd32 ?b 32 = px"
    by (simp_all add: rd16_def rd32_def body_defs wire_simps)
  moreover have "rd_chars ?b 24 = ''SYNTH   ''"
    by (simp add: rd_chars_def body_defs upt_rec)
  moreover have "?b ! 0 = char_byte CHR ''P''" "?b ! 19 = char_byte side"
    by (simp_all add: body_defs)
  ultimately show ?thesis by (simp add: decode_def Let_def side_of_char_def Message_init_def)
qed

lemma body_R_length: "length sym8 = 8 \<Longrightarrow> length (body_R locate ts sym8) = 39"
  by (simp add: body_R_def hdr_def be16_def)

lemma decode_body_R:
  assumes "length sym8 = 8"
  shows "decode (Some (body_R locate ts sym8)) 39 out =
     (True, Message_init\<lparr>msg_type := StockDirectory, stock_locate := locate, timestamp := take_bit 48 ts,
        stock := sym8\<rparr>)"
proof -
  let ?b = "body_R locate ts sym8"
  have b: "?b = hdr [] CHR ''R'' locate ts @ map char_byte sym8 @ replicate 20 0"
    using assms by (simp add: body_R_def hdr_def be16_def)
  have "rd48 ?b 5 = take_bit 48 ts" by (rule rd48_at) (simp add: all_less_numeral body_defs b)
  moreover have "rd16 ?b 1 = locate" by (simp add: rd16_def body_defs b wire_simps)
  moreover have "?b ! 0 = char_byte CHR ''R''" by (simp add: body_defs b)
  moreover have "rd_chars ?b 11 = sym8"
    using assms by (intro nth_equalityI) (simp_all add: rd_chars_def b body_defs nth_append)
  ultimately show ?thesis by (simp add: decode_def Let_def)
qed

section \<open>Properties\<close>

text \<open>Encode/decode round trip: every order message body the generators write (add, execute,
  cancel, delete, replace, trade) decodes successfully to exactly the fields it was built from,
  with the timestamp cut to its 48 bits.\<close>

theorem decode_encoded_bodies:
  "decode (Some (body_A l ts ref side sh px)) 36 out =
     (True, Message_init\<lparr>msg_type := AddOrder, stock_locate := l, timestamp := take_bit 48 ts,
        order_ref := ref, m_side := side_of_char side, m_shares := sh,
        stock := ''SYNTH   '', m_price := uint px\<rparr>) \<and>
   decode (Some (body_E l ts ref sh mn)) 31 out =
     (True, Message_init\<lparr>msg_type := OrderExecuted, stock_locate := l, timestamp := take_bit 48 ts,
        order_ref := ref, m_shares := sh, match_number := mn\<rparr>) \<and>
   decode (Some (body_X l ts ref sh)) 23 out =
     (True, Message_init\<lparr>msg_type := OrderCancel, stock_locate := l, timestamp := take_bit 48 ts,
        order_ref := ref, m_shares := sh\<rparr>) \<and>
   decode (Some (body_D l ts ref)) 19 out =
     (True, Message_init\<lparr>msg_type := OrderDelete, stock_locate := l, timestamp := take_bit 48 ts,
        order_ref := ref\<rparr>) \<and>
   decode (Some (body_U l ts ref nref sh px)) 35 out =
     (True, Message_init\<lparr>msg_type := OrderReplace, stock_locate := l, timestamp := take_bit 48 ts,
        order_ref := ref, new_order_ref := nref, m_shares := sh, m_price := uint px\<rparr>) \<and>
   decode (Some (body_P l ts side sh px mn)) 44 out =
     (True, Message_init\<lparr>msg_type := Trade, stock_locate := l, timestamp := take_bit 48 ts,
        m_side := side_of_char side, m_shares := sh, stock := ''SYNTH   '', m_price := uint px,
        match_number := mn\<rparr>)"
proof -
  have "Message_init\<lparr>order_ref := 0\<rparr> = Message_init" by (simp add: Message_init_def)
  then show ?thesis
    by (simp add: decode_body_A decode_body_E decode_body_X decode_body_D decode_body_U decode_body_P)
qed

end
