(* ===== verification/Framing.thy ===== *)
theory Framing
  imports Wire_Encoding
begin

text \<open>
  BinaryFILE framing: \<^verbatim>\<open>for_each_framed_message\<close> of \<^verbatim>\<open>include/feed/framing.hpp\<close> and the
  \<open>frame\<close> helper of the generators. The walk over offsets is compared with \<open>deframe\<close>, which
  splits a byte stream into its records; framing any list of bodies and walking the result
  gives the bodies back, whatever padding or truncated tail follows.
\<close>

section \<open>The walk\<close>

definition rd_len :: "bytes \<Rightarrow> nat \<Rightarrow> nat" where
  "rd_len buf off = push_bit 8 (unat (buf ! off)) OR unat (buf ! (off + 1))"

text \<open>\<open>sink\<close> is the callback, acting on a state of the caller; the result is the offset
  returned and that state.\<close>

function framed_loop ::
  "bytes \<Rightarrow> nat \<Rightarrow> (Message \<Rightarrow> 's \<Rightarrow> 's) \<Rightarrow> nat \<Rightarrow> 's \<Rightarrow> nat \<times> 's" where
  "framed_loop buf len sink off s =
     (if off + 2 \<le> len then
        (let mlen = rd_len buf off
         in if mlen = 0 then (off, s)
            else if off + 2 + mlen > len then (off, s)
            else (let (ok, m) = decode (Some (drop (off + 2) buf)) mlen Message_init
                  in framed_loop buf len sink (off + (2 + mlen)) (if ok then sink m s else s)))
      else (off, s))"
  by pat_completeness auto
termination by (relation "measure (\<lambda>(buf, len, sink, off, s). len - off)") auto

declare framed_loop.simps [simp del]

definition for_each_framed_message ::
  "bytes \<Rightarrow> nat \<Rightarrow> (Message \<Rightarrow> 's \<Rightarrow> 's) \<Rightarrow> 's \<Rightarrow> nat \<times> 's" where
  "for_each_framed_message buf len sink s = framed_loop buf len sink 0 s"

definition frame :: "bytes \<Rightarrow> bytes \<Rightarrow> bytes" where
  "frame b m = be16 b (of_nat (length m)) @ m"

section \<open>The records of a stream\<close>

function deframe :: "bytes \<Rightarrow> bytes list" where
  "deframe bs =
     (if length bs < 2 then []
      else let mlen = rd_len bs 0
           in if mlen = 0 \<or> length bs < 2 + mlen then []
              else take mlen (drop 2 bs) # deframe (drop (2 + mlen) bs))"
  by pat_completeness auto
termination by (relation "measure length") auto

declare deframe.simps [simp del]

definition decode_frame :: "bytes \<Rightarrow> Message option" where
  "decode_frame f =
     (let (ok, m) = decode (Some f) (length f) Message_init in if ok then Some m else None)"

definition framed_messages :: "bytes \<Rightarrow> Message list" where
  "framed_messages bs = List.map_filter decode_frame (deframe bs)"

definition framed_length :: "bytes list \<Rightarrow> nat" where
  "framed_length fs = (\<Sum>f\<leftarrow>fs. 2 + length f)"

lemma rd_len_drop: "off + 1 < length buf \<Longrightarrow> rd_len (drop off buf) 0 = rd_len buf off"
  by (simp add: rd_len_def add.commute)

lemma rd_len_rd16: "rd_len bs i = unat (rd16 bs i)"
proof -
  have b: "unat (bs ! i) < 2 ^ 8" using unsigned_less [of "bs ! i", where ?'a = nat] by simp
  then have "take_bit 16 (push_bit 8 (unat (bs ! i))) = push_bit 8 (unat (bs ! i))"
    by (intro take_bit_nat_eq_self) (simp add: push_bit_eq_mult)
  then show ?thesis
    by (simp add: rd16_def rd_len_def unsigned_or_eq unsigned_push_bit_eq unsigned_ucast_eq
        take_bit_nat_eq_self less_trans [OF unsigned_less])
qed

lemma deframe_at:
  assumes "length framed = len" and "off + 2 \<le> len" and "rd_len framed off \<noteq> 0"
    and "off + 2 + rd_len framed off \<le> len"
  shows "deframe (drop off framed) =
     take (rd_len framed off) (drop (off + 2) framed) # deframe (drop (off + (2 + rd_len framed off)) framed)"
  using assms rd_len_drop [of off framed]
  by (subst deframe.simps) (auto simp: Let_def add.commute add.left_commute)

lemma deframe_at_Nil:
  assumes "length framed = len" and "\<not> off + 2 \<le> len \<or> rd_len framed off = 0 \<or> off + 2 + rd_len framed off > len"
  shows "deframe (drop off framed) = []"
  using assms rd_len_drop [of off framed] by (subst deframe.simps) (auto simp: Let_def)

lemma framed_loop_deframe:
  assumes "length buf = len" and "off \<le> len"
  shows "framed_loop buf len sink off s =
     (off + framed_length (deframe (drop off buf)), fold sink (framed_messages (drop off buf)) s)"
  using assms
proof (induction buf len sink off s rule: framed_loop.induct)
  case (1 buf len sink off s)
  let ?mlen = "rd_len buf off"
  show ?case
  proof (cases "off + 2 \<le> len \<and> ?mlen \<noteq> 0 \<and> off + 2 + ?mlen \<le> len")
    case True
    let ?f = "take ?mlen (drop (off + 2) buf)"
    let ?d = "decode (Some (drop (off + 2) buf)) ?mlen Message_init"
    have len_f: "length ?f = ?mlen" using True "1.prems" by (auto simp: min_def)
    have df: "deframe (drop off buf) = ?f # deframe (drop (off + (2 + ?mlen)) buf)"
      using True "1.prems" by (intro deframe_at) auto
    have "framed_loop buf len sink off s =
        framed_loop buf len sink (off + (2 + ?mlen)) (if fst ?d then sink (snd ?d) s else s)"
      using True by (subst framed_loop.simps) (simp add: Let_def case_prod_beta)
    also have "\<dots> = (off + (2 + ?mlen) + framed_length (deframe (drop (off + (2 + ?mlen)) buf)),
        fold sink (framed_messages (drop (off + (2 + ?mlen)) buf)) (if fst ?d then sink (snd ?d) s else s))"
      using True "1.prems" by (intro "1.IH" [OF _ refl _ _ prod.collapse]) auto
    also have "\<dots> = (off + framed_length (deframe (drop off buf)),
        fold sink (framed_messages (drop off buf)) s)"
      using len_f
      by (simp add: df framed_messages_def framed_length_def decode_frame_def Let_def
          decode_reads_len_bytes
          case_prod_beta map_filter_simps del: length_take)
    finally show ?thesis .
  next
    case False
    then have "deframe (drop off buf) = []"
      using "1.prems" by (intro deframe_at_Nil) auto
    with False show ?thesis
      by (subst framed_loop.simps)
        (auto simp: Let_def framed_messages_def framed_length_def map_filter_simps)
  qed
qed

lemma for_each_framed_eq:
  "for_each_framed_message buf (length buf) sink s =
     (framed_length (deframe buf), fold sink (framed_messages buf) s)"
  using framed_loop_deframe [OF refl, of 0 buf sink s] by (simp add: for_each_framed_message_def)

section \<open>Framing round trip\<close>

definition frames :: "bytes list \<Rightarrow> bytes" where
  "frames fs = concat (map (frame []) fs)"

definition frameable :: "bytes \<Rightarrow> bool" where
  "frameable f \<longleftrightarrow> 0 < length f \<and> length f < 2 ^ 16"

lemma frames_simps [simp]:
  "frames [] = []" "frames (f # fs) = frame [] f @ frames fs" "frames (fs @ gs) = frames fs @ frames gs"
  by (simp_all add: frames_def)

lemma length_frame [simp]: "length (frame b f) = length b + 2 + length f"
  by (simp add: frame_def be16_def)

lemma length_frames: "length (frames fs) = framed_length fs"
  by (induction fs) (simp_all add: framed_length_def)

lemma rd_len_frame:
  "length f < 2 ^ 16 \<Longrightarrow> rd_len (frame [] f @ rest) 0 = length f"
  by (simp add: rd_len_rd16 rd16_def frame_def be16_def wire_simps unat_of_nat_small)

lemma deframe_frame: "frameable f \<Longrightarrow> deframe (frame [] f @ rest) = f # deframe rest"
  by (subst deframe.simps) (simp add: rd_len_frame frameable_def, simp add: frame_def be16_def)

lemma deframe_frames: "\<forall>f \<in> set fs. frameable f \<Longrightarrow> deframe (frames fs @ rest) = fs @ deframe rest"
  by (induction fs) (simp_all add: deframe_frame)

lemma deframe_padding: "deframe (replicate n 0) = []"
  by (subst deframe.simps) (simp add: rd_len_def nth_replicate numeral_2_eq_2)

lemma deframe_truncated:
  assumes "frameable f" and "k < length (frame [] f)"
  shows "deframe (take k (frame [] f)) = []"
proof (cases "k < 2")
  case True
  then show ?thesis by (subst deframe.simps) simp
next
  case False
  then have "rd_len (take k (frame [] f)) 0 = rd_len (frame [] f) 0"
    by (simp add: rd_len_def)
  also have "\<dots> = length f" using assms(1) rd_len_frame [of f "[]"] by (simp add: frameable_def)
  finally show ?thesis using assms(2) by (subst deframe.simps) simp
qed

text \<open>Conversely, whatever the bytes are, the records found are exactly the prefix consumed.\<close>

lemma rd_len_bound: "rd_len bs i < 2 ^ 16"
  using unsigned_less [of "rd16 bs i", where ?'a = nat] by (simp add: rd_len_rd16)

lemma not_bit_u8: "\<not> bit (w :: u8) (8 + n)"
  using bit_imp_le_length [of w "8 + n"] by auto

lemma rd_len_split:
  "2 \<le> length bs \<Longrightarrow> be16 [] (of_nat (rd_len bs 0)) = take 2 bs"
  by (cases bs rule: list.exhaust; cases "tl bs" rule: list.exhaust)
    (auto simp: rd_len_rd16 rd16_def be16_def intro!: bit_word_eqI simp: bit_simps
      not_bit_u8)

lemma frames_deframe: "frames (deframe bs) = take (framed_length (deframe bs)) bs"
proof (induction bs rule: deframe.induct)
  case (1 bs)
  show ?case
  proof (cases "length bs < 2 \<or> rd_len bs 0 = 0 \<or> length bs < 2 + rd_len bs 0")
    case True
    then show ?thesis by (subst (1 2) deframe.simps) (auto simp: framed_length_def Let_def)
  next
    case False
    let ?n = "rd_len bs 0"
    have df: "deframe bs = take ?n (drop 2 bs) # deframe (drop (2 + ?n) bs)"
      using False by (subst deframe.simps) (simp add: Let_def)
    have fr: "frame [] (take ?n (drop 2 bs)) = take (2 + ?n) bs"
    proof -
      have "length (take ?n (drop 2 bs)) = ?n" using False by auto
      then show ?thesis using False rd_len_split [of bs] by (simp only: frame_def take_add) simp
    qed
    have ih: "frames (deframe (drop (2 + ?n) bs)) =
        take (framed_length (deframe (drop (2 + ?n) bs))) (drop (2 + ?n) bs)"
      using False by (intro "1.IH") auto
    have "frames (deframe bs) = take (2 + ?n) bs @ take (framed_length (deframe (drop (2 + ?n) bs))) (drop (2 + ?n) bs)"
      by (simp only: df frames_simps fr ih)
    also have "\<dots> = take (2 + ?n + framed_length (deframe (drop (2 + ?n) bs))) bs"
      by (simp only: take_add)
    also have "2 + ?n + framed_length (deframe (drop (2 + ?n) bs)) = framed_length (deframe bs)"
      using False by (auto simp: df framed_length_def min_def)
    finally show ?thesis .
  qed
qed

lemma deframe_consumed: "framed_length (deframe bs) \<le> length bs"
  using arg_cong [OF frames_deframe [of bs], of length] by (simp add: length_frames)

lemma deframe_frameable: "f \<in> set (deframe bs) \<Longrightarrow> frameable f"
proof (induction bs rule: deframe.induct)
  case (1 bs)
  then show ?case
    using rd_len_bound [of bs 0]
    by (subst (asm) (2) deframe.simps) (auto simp: Let_def frameable_def split: if_splits)
qed

section \<open>Properties\<close>

text \<open>The frame walk: \<^verbatim>\<open>for_each_framed_message\<close> hands the sink exactly the decodable
  records of the buffer, in order; it consumes whole records only, never more than the buffer,
  and what it consumed is the framing of the records it found.\<close>

theorem framed_walk_correct:
  "for_each_framed_message buf (length buf) sink s =
     (framed_length (deframe buf), fold sink (framed_messages buf) s) \<and>
   framed_length (deframe buf) \<le> length buf \<and>
   frames (deframe buf) = take (framed_length (deframe buf)) buf"
  by (simp add: for_each_framed_eq deframe_consumed frames_deframe)

text \<open>Framing round trip: framing any bodies of 1 to 65535 bytes and walking the result, with
  zero padding or a truncated record behind it, delivers every decodable body in order and
  stops right after the last one.\<close>

theorem framed_roundtrip:
  assumes "\<forall>f \<in> set fs. frameable f" and "frameable g" and "k < length (frame [] g)"
    and "tail = replicate n 0 \<or> tail = take k (frame [] g)"
  shows "for_each_framed_message (frames fs @ tail) (length (frames fs @ tail)) sink s =
     (length (frames fs), fold sink (List.map_filter decode_frame fs) s)"
proof -
  have "deframe tail = []" using assms(2-4) deframe_padding deframe_truncated by auto
  then have "deframe (frames fs @ tail) = fs" using deframe_frames [OF assms(1), of tail] by simp
  then show ?thesis
    unfolding for_each_framed_eq by (simp add: framed_messages_def length_frames)
qed

theorem framed_roundtrip_witness:
  "fst (for_each_framed_message (frames [body_D 1 0 7] @ [0, 0]) (length (frames [body_D 1 0 7] @ [0, 0]))
          (\<lambda>m n. n + 1) (0 :: nat)) = 21"
proof -
  have "body_D l ts r \<noteq> []" for l ts r by (metis body_length(4) list.size(3) zero_neq_numeral)
  then have "frameable (body_D 1 0 7)" by (simp add: frameable_def)
  with framed_roundtrip [of "[body_D 1 0 7]" "body_D 1 0 7" 0 "[0, 0]" 2 "\<lambda>m n. n + 1" "0 :: nat"]
  show ?thesis by (simp add: numeral_2_eq_2)
qed

end
