(* ===== verification/Mold.thy ===== *)
theory Mold
  imports Framing
begin

text \<open>
  MoldUDP64 (\<^verbatim>\<open>include/feed/moldudp64.hpp\<close>): the packet header, building a datagram, cutting
  a BinaryFILE stream into datagrams, and the receiver \<^verbatim>\<open>MoldSession\<close> with its gap counter.
  Packetizing a stream and receiving the datagrams in order delivers every message of the
  stream exactly once, numbered from 1, with no gap reported; a lost datagram is reported as a
  gap of exactly the messages it carried.
\<close>

section \<open>Packets\<close>

record MoldHeader =
  h_session :: string
  h_seq :: u64
  h_count :: u16

definition MoldHeader_init :: MoldHeader where
  "MoldHeader_init = \<lparr>h_session = replicate 10 (CHR 0x00), h_seq = 0, h_count = 0\<rparr>"

definition kMoldEndOfSession :: u16 where
  "kMoldEndOfSession = 0xFFFF"

definition parse_mold_header :: "bytes \<Rightarrow> nat \<Rightarrow> MoldHeader \<Rightarrow> bool \<times> MoldHeader" where
  "parse_mold_header buf len h =
     (if len < 20 then (False, h)
      else (True, h\<lparr>h_session := map (\<lambda>i. byte_char (buf ! i)) [0..<10],
                    h_seq := rd_be buf 10 8,
                    h_count := push_bit 8 (ucast (buf ! 18)) OR ucast (buf ! 19)\<rparr>))"

definition encode_mold_packet :: "string \<Rightarrow> u64 \<Rightarrow> u16 \<Rightarrow> bytes \<Rightarrow> bytes" where
  "encode_mold_packet session seq count blocks =
     (let p = map (\<lambda>i. if i < length session then char_byte (session ! i) else char_byte CHR '' '')
                [0..<10];
          p = p @ map (\<lambda>i. ucast (drop_bit (8 * i) seq AND 0xFF)) (rev [0..<8]);
          p = p @ [ucast (drop_bit 8 count AND 0xFF)];
          p = p @ [ucast (count AND 0xFF)]
      in if length blocks \<noteq> 0 then p @ blocks else p)"

text \<open>The inner loop of \<^verbatim>\<open>packetize_mold\<close>: the messages of one datagram.\<close>

function packet_loop :: "bytes \<Rightarrow> nat \<Rightarrow> u16 \<Rightarrow> nat \<Rightarrow> u16 \<Rightarrow> nat \<times> u16" where
  "packet_loop framed len msgs_per_packet off cnt =
     (if off + 2 \<le> len \<and> cnt < msgs_per_packet then
        (let mlen = rd_len framed off
         in if mlen = 0 \<or> off + 2 + mlen > len then (off, cnt)
            else packet_loop framed len msgs_per_packet (off + (2 + mlen)) (cnt + 1))
      else (off, cnt))"
  by pat_completeness auto
termination by (relation "measure (\<lambda>(framed, len, mpp, off, cnt). len - off)") auto

declare packet_loop.simps [simp del]

text \<open>The loop leaves the offset alone or moves it forward inside the buffer.\<close>

lemma packet_loop_advances:
  "packet_loop framed len mpp off cnt = (off', cnt') \<Longrightarrow>
   (off' = off \<and> cnt' = cnt) \<or> (off < off' \<and> off' \<le> len)"
proof (induction framed len mpp off cnt rule: packet_loop.induct)
  case (1 framed len mpp off cnt)
  let ?mlen = "rd_len framed off"
  show ?case
  proof (cases "off + 2 \<le> len \<and> cnt < mpp \<and> ?mlen \<noteq> 0 \<and> off + 2 + ?mlen \<le> len")
    case True
    then have "packet_loop framed len mpp (off + (2 + ?mlen)) (cnt + 1) = (off', cnt')"
      using "1.prems" by (subst (asm) packet_loop.simps) (simp add: Let_def)
    with True "1.IH" [OF _ refl] show ?thesis by auto
  next
    case False
    then show ?thesis
      using "1.prems" by (subst (asm) packet_loop.simps) (auto simp: Let_def split: if_splits)
  qed
qed

function packetize_loop ::
  "string \<Rightarrow> bytes \<Rightarrow> nat \<Rightarrow> u16 \<Rightarrow> u64 \<Rightarrow> nat \<Rightarrow> bytes list" where
  "packetize_loop session framed len msgs_per_packet seq off =
     (if off < len then
        (let (off', cnt) = packet_loop framed len msgs_per_packet off 0
         in if cnt = 0 then []
            else encode_mold_packet session seq cnt (take (off' - off) (drop off framed)) #
                 packetize_loop session framed len msgs_per_packet (seq + ucast cnt) off')
      else [])"
  by pat_completeness auto
termination
proof (relation "measure (\<lambda>(session, framed, len, mpp, seq, off). len - off)")
  fix session :: string and framed len mpp seq off x off' cnt
  assume "off < len" "x = packet_loop framed len mpp off 0" "(off', cnt) = x" "\<not> cnt = (0 :: u16)"
  then have "off < off' \<and> off' \<le> len"
    using packet_loop_advances [of framed len mpp off 0 off' cnt] by auto
  with \<open>off < len\<close> show "((session, framed, len, mpp, seq + ucast cnt, off'),
      session, framed, len, mpp, seq, off) \<in> measure (\<lambda>(session, framed, len, mpp, seq, off). len - off)"
    by (simp add: diff_less_mono2)
qed simp

declare packetize_loop.simps [simp del]

definition packetize_mold :: "string \<Rightarrow> bytes \<Rightarrow> nat \<Rightarrow> u16 \<Rightarrow> bytes list" where
  "packetize_mold session framed len msgs_per_packet =
     packetize_loop session framed len msgs_per_packet 1 0"

section \<open>The receiver\<close>

record MoldSession =
  ms_expected :: u64
  ms_gaps :: u64
  ms_packets :: u64
  ms_messages :: u64
  ms_started :: bool
  ms_ended :: bool

definition MoldSession_init :: MoldSession where
  "MoldSession_init = \<lparr>ms_expected = 0, ms_gaps = 0, ms_packets = 0, ms_messages = 0,
                       ms_started = False, ms_ended = False\<rparr>"

text \<open>The loop over the blocks of a datagram: \<open>n\<close> iterations are left.\<close>

fun block_loop ::
  "bytes \<Rightarrow> nat \<Rightarrow> (u64 \<Rightarrow> Message \<Rightarrow> 's \<Rightarrow> 's) \<Rightarrow> nat \<Rightarrow> nat \<Rightarrow> u64 \<Rightarrow> u64 \<Rightarrow> 's \<Rightarrow> u64 \<times> u64 \<times> 's" where
  "block_loop buf len sink 0 off seq messages s = (seq, messages, s)"
| "block_loop buf len sink (Suc n) off seq messages s =
     (if off + 2 > len then (seq, messages, s)
      else let mlen = rd_len buf off; off = off + 2
           in if off + mlen > len then (seq, messages, s)
              else let (ok, m) = decode (Some (drop off buf)) mlen Message_init
                   in if ok
                      then block_loop buf len sink n (off + mlen) (seq + 1) (messages + 1) (sink seq m s)
                      else block_loop buf len sink n (off + mlen) (seq + 1) messages s)"

definition on_packet ::
  "bytes \<Rightarrow> nat \<Rightarrow> (u64 \<Rightarrow> Message \<Rightarrow> 's \<Rightarrow> 's) \<Rightarrow> MoldSession \<times> 's \<Rightarrow> MoldSession \<times> 's" where
  "on_packet buf len sink = (\<lambda>(st, s).
     let (ok, h) = parse_mold_header buf len MoldHeader_init
     in if \<not> ok then (st, s)
        else let st = st\<lparr>ms_packets := ms_packets st + 1\<rparr>
             in if h_count h = kMoldEndOfSession then (st\<lparr>ms_ended := True\<rparr>, s)
                else let st = (if ms_started st \<and> h_seq h > ms_expected st
                               then st\<lparr>ms_gaps := ms_gaps st + (h_seq h - ms_expected st)\<rparr> else st);
                         st = st\<lparr>ms_started := True\<rparr>;
                         (seq, messages, s') =
                           block_loop buf len sink (unat (h_count h)) 20 (h_seq h) (ms_messages st) s
                     in (st\<lparr>ms_expected := seq, ms_messages := messages\<rparr>, s'))"

section \<open>Header round trip\<close>

lemma ucast_and_FF: "ucast (v AND 0xFF) = (ucast v :: u8)" for v :: "'a::len word"
proof -
  have "v AND 0xFF = take_bit 8 v" by (simp add: take_bit_eq_mask mask_eq_exp_minus_1)
  then show ?thesis by (intro bit_word_eqI) (auto simp: bit_simps)
qed

lemma mold_prefix_bytes:
  "map (\<lambda>i. ucast (drop_bit (8 * i) seq)) (rev [0..<8]) = be_n [] (seq :: u64) 8"
  by (simp add: be_n_explicit upt_rec)

definition mold_session_field :: "string \<Rightarrow> string" where
  "mold_session_field session = take 10 (session @ replicate 10 CHR '' '')"

lemma length_mold_session_field [simp]: "length (mold_session_field session) = 10"
  by (simp add: mold_session_field_def)

lemma encode_mold_packet_eq:
  "encode_mold_packet session seq count blocks =
     be16 (be_n (map char_byte (mold_session_field session)) seq 8) count @ blocks"
proof -
  have "map (\<lambda>i. if i < length session then char_byte (session ! i) else char_byte CHR '' '') [0..<10] =
      map char_byte (mold_session_field session)"
    by (rule nth_equalityI) (auto simp: mold_session_field_def nth_append)
  then show ?thesis
    by (simp add: encode_mold_packet_def Let_def mold_prefix_bytes be16_def ucast_and_FF
        be_n_append [of "map char_byte _"])
qed

lemma parse_encode_mold:
  assumes "pkt = encode_mold_packet session seq count blocks" and "len = length pkt"
  shows "parse_mold_header pkt len h =
     (True, \<lparr>h_session = mold_session_field session, h_seq = seq, h_count = count\<rparr>)"
    and "drop 20 pkt = blocks" and "length pkt = 20 + length blocks"
proof -
  let ?s = "map char_byte (mold_session_field session)"
  have ls: "length ?s = 10" by simp
  have pkt: "pkt = ?s @ be_n [] seq 8 @ be16 [] count @ blocks"
    by (simp add: assms(1) encode_mold_packet_eq be16_def be_n_append [of ?s])
  show "drop 20 pkt = blocks" "length pkt = 20 + length blocks"
    by (simp_all add: pkt ls be16_def)
  have "map (\<lambda>i. byte_char (pkt ! i)) [0..<10] = mold_session_field session"
    by (rule nth_equalityI) (auto simp: pkt mold_session_field_def nth_append)
  moreover have "rd_be pkt 10 8 = seq"
    using rd_be_be_n [of ?s 10 seq 8 "be16 [] count @ blocks"] ls
    by (simp add: pkt take_bit_word_eq_self)
  moreover have "push_bit 8 (ucast (pkt ! 18)) OR ucast (pkt ! 19) = count"
    using ls by (simp add: pkt nth_append be16_def wire_simps del: length_map)
  moreover have "\<not> len < 20" by (simp add: assms(2) pkt be16_def)
  ultimately show "parse_mold_header pkt len h =
     (True, \<lparr>h_session = mold_session_field session, h_seq = seq, h_count = count\<rparr>)"
    by (simp add: parse_mold_header_def)
qed

section \<open>Packetizing cuts the stream at its records\<close>

fun chunks :: "nat \<Rightarrow> 'a list \<Rightarrow> 'a list list" where
  "chunks n [] = []"
| "chunks n (x # xs) = (if n = 0 then [] else (x # take (n - 1) xs) # chunks n (drop (n - 1) xs))"

lemma chunks_take: "n \<noteq> 0 \<Longrightarrow> xs \<noteq> [] \<Longrightarrow> chunks n xs = take n xs # chunks n (drop n xs)"
  by (cases xs; cases n) auto

lemma concat_chunks: "n \<noteq> 0 \<Longrightarrow> concat (chunks n xs) = xs"
  by (induction n xs rule: chunks.induct) auto

lemma length_chunk: "c \<in> set (chunks n xs) \<Longrightarrow> 0 < length c \<and> length c \<le> n"
  by (induction n xs rule: chunks.induct) (auto split: if_splits)

fun mold_packets :: "string \<Rightarrow> u64 \<Rightarrow> bytes list list \<Rightarrow> bytes list" where
  "mold_packets session seq [] = []"
| "mold_packets session seq (c # cs) =
     encode_mold_packet session seq (of_nat (length c)) (frames c) #
     mold_packets session (seq + of_nat (length c)) cs"

lemma packet_loop_spec:
  assumes "length framed = len" and "cnt \<le> mpp"
  shows "packet_loop framed len mpp off cnt =
     (let fs = take (unat mpp - unat cnt) (deframe (drop off framed))
      in (off + framed_length fs, cnt + of_nat (length fs)))"
  using assms
proof (induction framed len mpp off cnt rule: packet_loop.induct)
  case (1 framed len mpp off cnt)
  let ?mlen = "rd_len framed off"
  show ?case
  proof (cases "off + 2 \<le> len \<and> cnt < mpp \<and> ?mlen \<noteq> 0 \<and> off + 2 + ?mlen \<le> len")
    case True
    then have lt: "unat cnt < unat mpp" by (simp add: word_less_nat_alt)
    then have c1: "unat (cnt + 1) = Suc (unat cnt)"
      using unat_add_small [of cnt 1] unsigned_less [of mpp, where ?'a = nat] by simp
    have le: "cnt + 1 \<le> mpp" using lt by (simp add: word_le_nat_alt c1)
    have d: "unat mpp - unat cnt = Suc (unat mpp - unat (cnt + 1))" using lt by (simp add: c1)
    note df = deframe_at [OF "1.prems"(1)]
    have len_f: "length (take ?mlen (drop (off + 2) framed)) = ?mlen" using True "1.prems" by auto
    have "packet_loop framed len mpp off cnt = packet_loop framed len mpp (off + (2 + ?mlen)) (cnt + 1)"
      using True by (subst packet_loop.simps) (simp add: Let_def)
    also have "\<dots> = (let fs = take (unat mpp - unat (cnt + 1)) (deframe (drop (off + (2 + ?mlen)) framed))
        in (off + (2 + ?mlen) + framed_length fs, cnt + 1 + of_nat (length fs)))"
      using True "1.prems" le by (intro "1.IH") auto
    finally show ?thesis
      using True len_f by (simp add: d df Let_def framed_length_def)
  next
    case False
    then consider "\<not> cnt < mpp"
      | "\<not> off + 2 \<le> len \<or> rd_len framed off = 0 \<or> off + 2 + rd_len framed off > len" by linarith
    then show ?thesis
    proof cases
      case 1
      then have "unat mpp - unat cnt = 0" by (simp add: word_less_nat_alt)
      with 1 show ?thesis by (subst packet_loop.simps) (simp add: framed_length_def)
    next
      case 2
      with deframe_at_Nil [OF "1.prems"(1) 2] show ?thesis
        by (subst packet_loop.simps) (auto simp: framed_length_def Let_def)
    qed
  qed
qed

lemma framed_length_take_le: "framed_length (take n fs) \<le> framed_length fs"
  by (metis append_take_drop_id framed_length_def le_add1 map_append sum_list_append)

lemma deframe_drop_take:
  "deframe (drop (framed_length (take n (deframe bs))) bs) = drop n (deframe bs)"
proof (induction n arbitrary: bs)
  case (Suc n)
  show ?case
  proof (cases "2 \<le> length bs \<and> rd_len bs 0 \<noteq> 0 \<and> 2 + rd_len bs 0 \<le> length bs")
    case True
    let ?k = "rd_len bs 0"
    note df = deframe_at [of bs "length bs" 0]
    have "length (take ?k (drop 2 bs)) = ?k" using True by auto
    with True Suc.IH [of "drop (2 + ?k) bs"] df show ?thesis
      by (simp add: framed_length_def add.commute)
  next
    case False
    then have "deframe bs = []" using deframe_at_Nil [of bs "length bs" 0] by auto
    then show ?thesis by (simp add: framed_length_def)
  qed
qed (simp add: framed_length_def)

lemma frames_take_deframe: "frames (take n (deframe bs)) = take (framed_length (take n (deframe bs))) bs"
proof -
  have "frames (deframe bs) = frames (take n (deframe bs)) @ frames (drop n (deframe bs))"
    by (metis append_take_drop_id frames_simps(3))
  then have "frames (take n (deframe bs)) = take (framed_length (take n (deframe bs))) (frames (deframe bs))"
    by (simp add: length_frames)
  then show ?thesis
    using framed_length_take_le [of n "deframe bs"] by (simp add: frames_deframe min_absorb1)
qed

lemma packetize_loop_spec:
  assumes "length framed = len" and "mpp \<noteq> 0" and "off \<le> len"
  shows "packetize_loop session framed len mpp seq off =
     mold_packets session seq (chunks (unat mpp) (deframe (drop off framed)))"
  using assms
proof (induction session framed len mpp seq off rule: packetize_loop.induct)
  case (1 session framed len mpp seq off)
  let ?D = "deframe (drop off framed)"
  let ?fs = "take (unat mpp) ?D"
  have mpp: "unat mpp \<noteq> 0" using "1.prems"(2) by (simp add: unat_eq_0)
  have pl: "packet_loop framed len mpp off 0 = (off + framed_length ?fs, of_nat (length ?fs))"
    using packet_loop_spec [OF "1.prems"(1), of 0 mpp off] by (simp add: Let_def)
  have small: "length ?fs < 2 ^ 16"
    using unsigned_less [of mpp, where ?'a = nat] by simp
  have cnt: "unat (of_nat (length ?fs) :: u16) = length ?fs"
    using small by (simp add: unat_of_nat_small del: length_take)
  show ?case
  proof (cases "off < len \<and> ?D \<noteq> []")
    case True
    then have "length ?fs \<noteq> 0" using mpp by simp
    with cnt have ne: "of_nat (length ?fs) \<noteq> (0 :: u16)" by (metis unat_0)
    have off': "off + framed_length ?fs \<le> len"
      using framed_length_take_le [of "unat mpp" ?D] deframe_consumed [of "drop off framed"] "1.prems"
      by simp
    have uc: "(of_nat (unat w) :: u64) = ucast w" for w :: u16 by simp
    have blk: "take (framed_length ?fs) (drop off framed) = frames ?fs"
      by (simp add: frames_take_deframe)
    have "packetize_loop session framed len mpp seq off =
        encode_mold_packet session seq (of_nat (length ?fs)) (frames ?fs) #
        packetize_loop session framed len mpp (seq + ucast (of_nat (length ?fs) :: u16)) (off + framed_length ?fs)"
      using True ne by (subst packetize_loop.simps) (simp add: pl blk del: length_take)
    also have "packetize_loop session framed len mpp (seq + ucast (of_nat (length ?fs) :: u16)) (off + framed_length ?fs) =
        mold_packets session (seq + ucast (of_nat (length ?fs) :: u16))
          (chunks (unat mpp) (deframe (drop (off + framed_length ?fs) framed)))"
      using True "1.prems" off' ne by (intro "1.IH" [OF _ pl [symmetric] refl]) auto
    also have "ucast (of_nat (length ?fs) :: u16) = (of_nat (length ?fs) :: u64)"
      using uc [of "of_nat (length ?fs)"] unfolding cnt by (rule sym)
    also have "deframe (drop (off + framed_length ?fs) framed) = drop (unat mpp) ?D"
      using deframe_drop_take [of "unat mpp" "drop off framed"] by (simp add: add.commute)
    finally show ?thesis using True mpp by (simp add: chunks_take)
  next
    case False
    then have "?D = []"
      using "1.prems" deframe_at_Nil [of framed len off] by auto
    then show ?thesis
      using pl by (subst packetize_loop.simps) (simp add: framed_length_def)
  qed
qed

section \<open>Receiving\<close>

text \<open>What a receiver owes its sink for the records \<open>fs\<close> numbered from \<open>seq\<close>.\<close>

fun deliver :: "u64 \<Rightarrow> bytes list \<Rightarrow> (u64 \<times> Message) list" where
  "deliver seq [] = []"
| "deliver seq (f # fs) =
     (case decode_frame f of None \<Rightarrow> deliver (seq + 1) fs | Some m \<Rightarrow> (seq, m) # deliver (seq + 1) fs)"

lemma deliver_append: "deliver seq (fs @ gs) = deliver seq fs @ deliver (seq + of_nat (length fs)) gs"
  by (induction fs arbitrary: seq) (auto simp: add.assoc split: option.split)

lemma map_snd_deliver: "map snd (deliver seq fs) = List.map_filter decode_frame fs"
  by (induction fs arbitrary: seq) (auto simp: map_filter_simps split: option.split)

lemma rd_len_at:
  assumes "drop off buf = frame [] f @ rest" and "length f < 2 ^ 16"
  shows "rd_len buf off = length f" and "off + 2 + length f \<le> length buf"
    and "decode (Some (drop (off + 2) buf)) (length f) Message_init = decode (Some f) (length f) Message_init"
    and "drop (off + 2 + length f) buf = rest"
proof -
  have len: "length (drop off buf) = 2 + length f + length rest" using assms(1) by simp
  then have "off + 1 < length buf" by simp
  then show "rd_len buf off = length f"
    using rd_len_drop [of off buf] rd_len_frame [OF assms(2), of rest] assms(1) by simp
  show "off + 2 + length f \<le> length buf" using len by simp
  have "drop (off + 2) buf = drop 2 (frame [] f @ rest)" using assms(1) by (metis add.commute drop_drop)
  then have d2: "drop (off + 2) buf = f @ rest" by (simp add: frame_def be16_def)
  then show "decode (Some (drop (off + 2) buf)) (length f) Message_init = decode (Some f) (length f) Message_init"
    by (simp add: decode_append)
  show "drop (off + 2 + length f) buf = rest"
    using d2 drop_drop [of "length f" "off + 2" buf] by (simp add: add.commute)
qed

lemma block_loop_spec:
  assumes "length buf = len" and "drop off buf = frames fs @ rest" and "\<forall>f \<in> set fs. length f < 2 ^ 16"
  shows "block_loop buf len sink (length fs) off seq messages s =
     (seq + of_nat (length fs), messages + of_nat (length (deliver seq fs)),
      fold (\<lambda>(q, m). sink q m) (deliver seq fs) s)"
  using assms(2,3)
proof (induction fs arbitrary: off seq messages s)
  case (Cons f fs)
  have f: "drop off buf = frame [] f @ (frames fs @ rest)" "length f < 2 ^ 16"
    using Cons.prems by simp_all
  note r = rd_len_at [OF f]
  have "\<forall>f \<in> set fs. length f < 2 ^ 16" using Cons.prems(2) by simp
  note ih = Cons.IH [OF r(4) this]
  show ?case
    using r(1-3) assms(1)
    by (simp add: ih Let_def case_prod_beta decode_frame_def add.assoc [of seq 1] add.assoc [of messages 1]
        del: add_2_eq_Suc')
qed simp

definition gap_before :: "MoldSession \<Rightarrow> u64 \<Rightarrow> u64" where
  "gap_before st seq = (if ms_started st \<and> seq > ms_expected st then seq - ms_expected st else 0)"

definition after_packet :: "MoldSession \<Rightarrow> u64 \<Rightarrow> bytes list \<Rightarrow> MoldSession" where
  "after_packet st seq fs =
     st\<lparr>ms_expected := seq + of_nat (length fs), ms_gaps := ms_gaps st + gap_before st seq,
        ms_packets := ms_packets st + 1,
        ms_messages := ms_messages st + of_nat (length (deliver seq fs)), ms_started := True\<rparr>"

lemma on_packet_spec:
  assumes pkt: "pkt = encode_mold_packet session seq (of_nat (length fs)) (frames fs)"
    and fs: "\<forall>f \<in> set fs. length f < 2 ^ 16" "length fs < 0xFFFF"
  shows "on_packet pkt (length pkt) sink (st, s) =
     (after_packet st seq fs, fold (\<lambda>(q, m). sink q m) (deliver seq fs) s)"
proof -
  note pe = parse_encode_mold [OF pkt refl]
  have n: "unat (of_nat (length fs) :: u16) = length fs"
    using fs(2) by (intro unat_of_nat_small) simp
  then have "of_nat (length fs) \<noteq> kMoldEndOfSession"
    using fs(2) by (auto simp: kMoldEndOfSession_def)
  moreover have "drop 20 pkt = frames fs @ []" using pe(2) by simp
  note bl = block_loop_spec [OF refl this fs(1)]
  ultimately show ?thesis
    by (simp add: on_packet_def pe(1) n bl after_packet_def gap_before_def Let_def)
qed

definition receive ::
  "bytes list \<Rightarrow> (u64 \<Rightarrow> Message \<Rightarrow> 's \<Rightarrow> 's) \<Rightarrow> MoldSession \<times> 's \<Rightarrow> MoldSession \<times> 's" where
  "receive pkts sink = fold (\<lambda>p. on_packet p (length p) sink) pkts"

lemma receive_packets:
  assumes "\<forall>c \<in> set cs. (\<forall>f \<in> set c. length f < 2 ^ 16) \<and> length c < 0xFFFF"
    and "ms_started st \<longrightarrow> ms_expected st = seq"
  shows "fst (receive (mold_packets session seq cs) sink (st, s)) =
      (if cs = [] then st
       else st\<lparr>ms_expected := seq + of_nat (length (concat cs)), ms_packets := ms_packets st + of_nat (length cs),
              ms_messages := ms_messages st + of_nat (length (deliver seq (concat cs))), ms_started := True\<rparr>) \<and>
    snd (receive (mold_packets session seq cs) sink (st, s)) =
      fold (\<lambda>(q, m). sink q m) (deliver seq (concat cs)) s"
  using assms
proof (induction cs arbitrary: seq st s)
  case (Cons c cs)
  have g: "gap_before st seq = 0" using Cons.prems(2) by (auto simp: gap_before_def)
  have op: "on_packet (encode_mold_packet session seq (of_nat (length c)) (frames c))
      (length (encode_mold_packet session seq (of_nat (length c)) (frames c))) sink (st, s) =
      (after_packet st seq c, fold (\<lambda>(q, m). sink q m) (deliver seq c) s)"
    using Cons.prems(1) by (intro on_packet_spec [OF refl]) auto
  have "\<forall>c \<in> set cs. (\<forall>f \<in> set c. length f < 2 ^ 16) \<and> length c < 0xFFFF" using Cons.prems(1) by simp
  note ih = Cons.IH [OF this, of "after_packet st seq c" "seq + of_nat (length c)"]
  show ?case
    using ih [of "fold (\<lambda>(q, m). sink q m) (deliver seq c) s"]
    by (simp add: receive_def op deliver_append after_packet_def g add.assoc)
qed (simp add: receive_def)

lemma packetize_mold_chunks:
  "mpp \<noteq> 0 \<Longrightarrow> packetize_mold session framed (length framed) mpp = mold_packets session 1 (chunks (unat mpp) (deframe framed))"
  using packetize_loop_spec [OF refl, of mpp 0 framed session 1] by (simp add: packetize_mold_def)

lemma length_mold_packets: "length (mold_packets session q cs) = length cs"
  by (induction cs arbitrary: q) auto

lemma length_chunks: "0 < n \<Longrightarrow> length (chunks n xs) = (length xs + n - 1) div n"
proof (induction n xs rule: chunks.induct)
  case (2 n x xs)
  then have ih: "length (chunks n (drop (n - 1) xs)) = (length xs - (n - 1) + n - 1) div n" by simp
  have "(length xs + n) div n = Suc ((length xs - (n - 1) + n - 1) div n)"
  proof (cases "n - 1 \<le> length xs")
    case True
    then show ?thesis using "2.prems" div_add_self2 [of n "length xs"] by simp
  next
    case False
    then have "length xs div n = 0" "(n - 1) div n = 0" using "2.prems" by auto
    then show ?thesis using False "2.prems" div_add_self2 [of n "length xs"] by simp
  qed
  with ih "2.prems" show ?case by simp
qed simp

lemma receive_packetized:
  assumes "mpp \<noteq> 0" and "mpp \<noteq> 0xFFFF"
  shows "fst (receive (packetize_mold session framed (length framed) mpp) sink (MoldSession_init, s)) =
      (if deframe framed = [] then MoldSession_init
       else MoldSession_init\<lparr>ms_expected := 1 + of_nat (length (deframe framed)),
              ms_packets := of_nat (length (packetize_mold session framed (length framed) mpp)),
              ms_messages := of_nat (length (framed_messages framed)), ms_started := True\<rparr>) \<and>
    snd (receive (packetize_mold session framed (length framed) mpp) sink (MoldSession_init, s)) =
      fold (\<lambda>(q, m). sink q m) (deliver 1 (deframe framed)) s"
proof -
  let ?cs = "chunks (unat mpp) (deframe framed)"
  have mpp: "unat mpp \<noteq> 0" "unat mpp < 0xFFFF"
  proof -
    show "unat mpp \<noteq> 0" using assms(1) by (simp add: unat_eq_0)
    have "unat mpp \<noteq> unat (0xFFFF :: u16)" using assms(2) by (metis unsigned_word_eqI)
    then show "unat mpp < 0xFFFF" using unsigned_less [of mpp, where ?'a = nat] by simp
  qed
  have pk: "packetize_mold session framed (length framed) mpp = mold_packets session 1 ?cs"
    by (rule packetize_mold_chunks [OF assms(1)])
  have cs: "concat ?cs = deframe framed" using mpp(1) by (rule concat_chunks)
  have "\<forall>c \<in> set ?cs. (\<forall>f \<in> set c. length f < 2 ^ 16) \<and> length c < 0xFFFF"
  proof (intro ballI conjI)
    fix c f assume c: "c \<in> set ?cs"
    then show "length c < 0xFFFF" using length_chunk [OF c] mpp(2) by simp
    assume "f \<in> set c"
    with c have "f \<in> set (concat ?cs)" by auto
    then have "f \<in> set (deframe framed)" by (simp only: cs)
    then show "length f < 2 ^ 16" using deframe_frameable by (simp add: frameable_def)
  qed
  note rp = receive_packets [OF this, of MoldSession_init 1 session sink s]
  have "?cs = [] \<longleftrightarrow> deframe framed = []"
    using mpp(1) chunks_take [of "unat mpp" "deframe framed"] by (cases "deframe framed = []") auto
  with rp show ?thesis
    by (simp add: pk cs length_mold_packets MoldSession_init_def framed_messages_def map_snd_deliver [of 1, symmetric])
qed

section \<open>Properties\<close>

text \<open>Two records, the first a delete of order 7, the second of a type the decoder skips.\<close>

definition demo_records :: "bytes list" where
  "demo_records = [body_D 1 0 7, [0x48, 0, 0]]"

lemma demo_records_frameable: "\<forall>f \<in> set demo_records. frameable f"
  using body_length(4) [of 1 0 7] by (auto simp: demo_records_def frameable_def simp del: body_length)

text \<open>C6. Transport round trip: cutting any BinaryFILE byte stream into MoldUDP64 datagrams and
  feeding them in order to a fresh session calls the sink once per decodable record of the
  stream, in order, numbered by the record's position from 1; no gap is counted, and the
  session expects the number after the last record.\<close>

theorem mold_roundtrip:
  assumes "mpp \<noteq> 0" and "mpp \<noteq> 0xFFFF"
    and "(st, s') = receive (packetize_mold session framed (length framed) mpp) sink (MoldSession_init, s)"
  shows "s' = fold (\<lambda>(q, m). sink q m) (deliver 1 (deframe framed)) s \<and>
         map snd (deliver 1 (deframe framed)) = framed_messages framed \<and>
         ms_gaps st = 0 \<and> \<not> ms_ended st \<and>
         ms_messages st = of_nat (length (framed_messages framed)) \<and>
         (deframe framed = [] \<or> ms_expected st = 1 + of_nat (length (deframe framed)))"
proof -
  note r = receive_packetized [OF assms(1,2), of session framed sink s, folded assms(3)]
  then have "framed_messages framed = [] \<or> deframe framed \<noteq> []"
    by (auto simp: framed_messages_def map_filter_simps)
  with r show ?thesis
    by (auto simp: MoldSession_init_def map_snd_deliver framed_messages_def map_filter_simps)
qed

theorem mold_roundtrip_witness:
  "snd (receive (packetize_mold ''S'' (frames demo_records) (length (frames demo_records)) 1)
          (\<lambda>q m xs. xs @ [(q, order_ref m)]) (MoldSession_init, [])) = [(1, 7)]"
proof -
  let ?r = "receive (packetize_mold ''S'' (frames demo_records) (length (frames demo_records)) 1)
    (\<lambda>q m xs. xs @ [(q, order_ref m)]) (MoldSession_init, [])"
  have df: "deframe (frames demo_records) = demo_records"
    using deframe_frames [OF demo_records_frameable, of "[]"] deframe_padding [of 0] by simp
  have "deliver 1 demo_records = [(1, snd (decode (Some (body_D 1 0 7)) 19 Message_init))]"
    by (simp add: demo_records_def decode_frame_def decode_body_D) (simp add: decode_def)
  then show ?thesis
    using mold_roundtrip [of 1 "fst ?r" "snd ?r" "''S''" "frames demo_records" _ "[]"] df
    by (simp add: decode_body_D)
qed

text \<open>Gap detection is exact: when the next datagram received starts \<open>n\<close> numbers after the
  one expected, the gap counter grows by exactly \<open>n\<close>, the datagram's own messages are still
  delivered, and the session expects the number after them.\<close>

theorem mold_gap_exact:
  assumes "ms_started st" and "unat (ms_expected st) + n < 2 ^ 64"
    and "\<forall>f \<in> set fs. frameable f" and "length fs < 0xFFFF"
    and "pkt = encode_mold_packet session (ms_expected st + of_nat n) (of_nat (length fs)) (frames fs)"
    and "(st', s') = on_packet pkt (length pkt) sink (st, s)"
  shows "ms_gaps st' = ms_gaps st + of_nat n \<and>
         ms_expected st' = ms_expected st + of_nat n + of_nat (length fs) \<and>
         s' = fold (\<lambda>(q, m). sink q m) (deliver (ms_expected st + of_nat n) fs) s"
proof -
  have un: "unat (of_nat n :: u64) = n" using assms(2) by (intro unat_of_nat_small) simp
  then have "unat (ms_expected st + of_nat n) = unat (ms_expected st) + n"
    using assms(2) by (subst unat_add_small) simp_all
  then have "ms_expected st + of_nat n > ms_expected st \<longleftrightarrow> n \<noteq> 0"
    by (auto simp: word_less_nat_alt)
  then have "gap_before st (ms_expected st + of_nat n) = of_nat n"
    using assms(1) by (auto simp: gap_before_def)
  moreover have "\<forall>f \<in> set fs. length f < 2 ^ 16" using assms(3) by (simp add: frameable_def)
  note on_packet_spec [OF assms(5) this assms(4), of sink st s]
  ultimately show ?thesis using assms(6) by (simp add: after_packet_def)
qed

theorem mold_gap_exact_witness:
  "ms_gaps (fst (on_packet (encode_mold_packet ''S'' 8 2 (frames demo_records))
       (length (encode_mold_packet ''S'' 8 2 (frames demo_records))) (\<lambda>q m s. s)
       (MoldSession_init\<lparr>ms_started := True, ms_expected := 5\<rparr>, ()))) = 3"
  using mold_gap_exact [of "MoldSession_init\<lparr>ms_started := True, ms_expected := 5\<rparr>" 3 demo_records
      _ "''S''" _ _ "\<lambda>q m s. s" "()", OF _ _ demo_records_frameable _ refl prod.collapse]
  by (simp add: demo_records_def MoldSession_init_def)

text \<open>A datagram that repeats numbers already seen moves the expected number back: nothing
  is counted when it arrives, its messages are delivered again, and the in-order datagram that
  follows is then counted as a gap although nothing was lost.\<close>

theorem mold_duplicate_spurious_gap:
  assumes "ms_started st" and "k \<le> unat (ms_expected st)" and "length old < k"
    and "\<forall>f \<in> set (old @ fs). frameable f" and "length old < 0xFFFF" and "length fs < 0xFFFF"
    and "late = encode_mold_packet session (ms_expected st - of_nat k) (of_nat (length old)) (frames old)"
    and "inorder = encode_mold_packet session (ms_expected st) (of_nat (length fs)) (frames fs)"
    and "(st', s') = receive [late, inorder] sink (st, s)"
  shows "ms_gaps st' = ms_gaps st + of_nat (k - length old)"
proof -
  let ?e = "ms_expected st" and ?l = "length old"
  have k64: "k < 2 ^ 64" using assms(2) unsigned_less [of ?e, where ?'a = nat] by simp
  then have uk: "unat (of_nat k :: u64) = k" "unat (of_nat ?l :: u64) = ?l"
    using assms(3) by (simp_all add: unat_of_nat_small)
  have bk: "unat (?e - of_nat k) = unat ?e - k"
    using assms(2) by (subst unat_sub_small) (simp_all add: uk)
  then have e1: "unat (?e - of_nat k + of_nat ?l) = unat ?e - k + ?l"
    using assms(2,3) unsigned_less [of ?e, where ?'a = nat] by (subst unat_add_small) (simp_all add: uk)
  have g1: "gap_before st (?e - of_nat k) = 0"
    using bk by (auto simp: gap_before_def word_less_nat_alt)
  have g2: "gap_before (after_packet st (?e - of_nat k) old) ?e = of_nat (k - ?l)"
    using e1 assms(2,3) by (auto simp: gap_before_def after_packet_def word_less_nat_alt of_nat_diff)
  have small: "\<forall>f \<in> set old. length f < 2 ^ 16" "\<forall>f \<in> set fs. length f < 2 ^ 16"
    using assms(4) by (simp_all add: frameable_def)
  note p1 = on_packet_spec [OF assms(7) small(1) assms(5), of sink st s]
  note p2 = on_packet_spec [OF assms(8) small(2) assms(6), of sink "after_packet st (?e - of_nat k) old"]
  show ?thesis
    using assms(9) g1 g2 by (simp add: receive_def p1 p2) (simp add: after_packet_def)
qed

theorem mold_duplicate_spurious_gap_witness:
  "ms_gaps (fst (receive [encode_mold_packet ''S'' 3 2 (frames demo_records),
                          encode_mold_packet ''S'' 7 2 (frames demo_records)] (\<lambda>q m s. s)
       (MoldSession_init\<lparr>ms_started := True, ms_expected := 7\<rparr>, ()))) = 2"
  using mold_duplicate_spurious_gap [of "MoldSession_init\<lparr>ms_started := True, ms_expected := 7\<rparr>" 4
      demo_records demo_records _ "''S''" _ _ _ "\<lambda>q m s. s" "()", OF _ _ _ _ _ _ refl refl prod.collapse]
    demo_records_frameable
  by (simp add: demo_records_def MoldSession_init_def)

end
