(* ===== verification/Spsc_Ring.thy ===== *)
theory Spsc_Ring
  imports Prelude
begin

text \<open>
  The single-producer single-consumer ring of \<^verbatim>\<open>include/core/spsc_ring.hpp\<close>. Counters are
  64-bit words that wrap; the capacity is the power of two \<open>round_up_pow2\<close> computes. The theory
  has three layers: \<open>push\<close> and \<open>pop\<close> as functions, the contract of a bounded FIFO channel as a
  locale with the ring as its instance, and the two methods split into their individual loads
  and stores with every interleaving of the two threads.
\<close>

section \<open>The ring\<close>

record 'a spsc_ring =
  r_cap :: u64
  r_mask :: u64
  r_slots :: "'a list"
  r_head :: u64
  r_tail_cache :: u64
  r_tail :: u64
  r_head_cache :: u64

partial_function (option) pow2_loop :: "u64 \<Rightarrow> u64 \<Rightarrow> u64 option" where
  [code]: "pow2_loop n p = (if p < n then pow2_loop n (push_bit 1 p) else Some p)"

definition round_up_pow2 :: "u64 \<Rightarrow> u64 option" where
  "round_up_pow2 n =
     (case pow2_loop n 1 of None \<Rightarrow> None | Some p \<Rightarrow> Some (if p < 2 then 2 else p))"

text \<open>\<open>dflt\<close> is the value-initialised element of \<^verbatim>\<open>std::vector<T>(cap)\<close>.\<close>

definition ring_new :: "'a \<Rightarrow> u64 \<Rightarrow> 'a spsc_ring option" where
  "ring_new dflt capacity =
     (case round_up_pow2 capacity of
        None \<Rightarrow> None
      | Some c \<Rightarrow> Some \<lparr>r_cap = c, r_mask = c - 1, r_slots = replicate (unat c) dflt,
                        r_head = 0, r_tail_cache = 0, r_tail = 0, r_head_cache = 0\<rparr>)"

definition slot_of :: "'a spsc_ring \<Rightarrow> u64 \<Rightarrow> nat" where
  "slot_of r counter = unat (counter AND r_mask r)"

definition ring_push :: "'a \<Rightarrow> 'a spsc_ring \<Rightarrow> bool \<times> 'a spsc_ring" where
  "ring_push item r =
     (let head = r_head r; next_head = head + 1;
          r1 = (if next_head - r_tail_cache r > r_cap r then r\<lparr>r_tail_cache := r_tail r\<rparr> else r)
      in if next_head - r_tail_cache r > r_cap r \<and> next_head - r_tail_cache r1 > r_cap r1
         then (False, r1)
         else (True, r1\<lparr>r_slots := (r_slots r1)[slot_of r1 head := item], r_head := next_head\<rparr>))"

definition ring_pop :: "'a spsc_ring \<Rightarrow> 'a option \<times> 'a spsc_ring" where
  "ring_pop r =
     (let tail = r_tail r;
          r1 = (if tail = r_head_cache r then r\<lparr>r_head_cache := r_head r\<rparr> else r)
      in if tail = r_head_cache r \<and> tail = r_head_cache r1
         then (None, r1)
         else (Some (r_slots r1 ! slot_of r1 tail), r1\<lparr>r_tail := tail + 1\<rparr>))"

definition ring_capacity :: "'a spsc_ring \<Rightarrow> u64" where
  "ring_capacity r = r_cap r"

text \<open>Run with no other thread active, the two loads of \<open>size_approx\<close> see the same state; the
  interleaved reading is treated below.\<close>

definition size_approx :: "'a spsc_ring \<Rightarrow> u64" where
  "size_approx r = r_head r - r_tail r"

definition empty_approx :: "'a spsc_ring \<Rightarrow> bool" where
  "empty_approx r \<longleftrightarrow> size_approx r = 0"

section \<open>Rounding up\<close>

lemma unat_pow2: "i \<le> 63 \<Longrightarrow> unat (2 ^ i :: u64) = 2 ^ i"
  using unat_of_nat_small [of "2 ^ i", where ?'a = 64] power_strict_increasing [of i 64 "2 :: nat"]
  by simp

lemma pow2_loop_Some:
  assumes "i \<le> 63" and "unat n \<le> 2 ^ 63"
  shows "\<exists>k. i \<le> k \<and> k \<le> 63 \<and> pow2_loop n (2 ^ i) = Some (2 ^ k) \<and> unat n \<le> 2 ^ k \<and>
             (i < k \<longrightarrow> 2 ^ (k - 1) < unat n)"
  using assms(1)
proof (induction "63 - i" arbitrary: i)
  case 0
  then have i: "i = 63" by simp
  then have "\<not> (2 ^ i :: u64) < n" using assms(2) unat_pow2 [of 63] by (simp add: word_less_nat_alt)
  then show ?case using assms(2) i by (subst pow2_loop.simps) auto
next
  case (Suc d)
  show ?case
  proof (cases "(2 ^ i :: u64) < n")
    case True
    have dbl: "push_bit 1 (2 ^ i :: u64) = 2 ^ Suc i" by (simp add: push_bit_eq_mult)
    have "d = 63 - Suc i" "Suc i \<le> 63" using Suc.hyps(2) by simp_all
    from Suc.hyps(1) [OF this]
    obtain k where k: "Suc i \<le> k" "k \<le> 63" "pow2_loop n (2 ^ Suc i) = Some (2 ^ k)" "unat n \<le> 2 ^ k"
      "Suc i < k \<longrightarrow> 2 ^ (k - 1) < unat n" by blast
    have "2 ^ i < unat n" using True Suc.prems unat_pow2 by (simp add: word_less_nat_alt)
    then have "2 ^ (k - 1) < unat n" using k(1,5) by (cases "Suc i = k") auto
    moreover have "pow2_loop n (2 ^ i) = Some (2 ^ k)"
      using True k(3) by (subst pow2_loop.simps) (simp only: dbl if_True)
    ultimately show ?thesis using k(1,2,4) by (intro exI [of _ k]) simp
  next
    case False
    then have "unat n \<le> 2 ^ i" using Suc.prems unat_pow2 by (simp add: word_less_nat_alt)
    with False Suc.prems show ?thesis by (intro exI [of _ i], subst pow2_loop.simps) auto
  qed
qed

text \<open>The capacity is the least power of two, at least 2, that is not below the request.\<close>

lemma round_up_pow2_Some:
  assumes "unat n \<le> 2 ^ 63"
  obtains k where "1 \<le> k" "k \<le> 63" "round_up_pow2 n = Some (2 ^ k)" "unat n \<le> 2 ^ k"
    "k = 1 \<or> 2 ^ (k - 1) < unat n"
proof -
  obtain k where k: "k \<le> 63" "pow2_loop n 1 = Some (2 ^ k)" "unat n \<le> 2 ^ k"
    "0 < k \<longrightarrow> 2 ^ (k - 1) < unat n"
    using pow2_loop_Some [of 0 n] assms by auto
  show thesis
  proof (cases "k = 0")
    case True
    with k that [of 1] show ?thesis by (simp add: round_up_pow2_def)
  next
    case False
    then have "(2 :: nat) ^ 1 \<le> 2 ^ k" by (intro power_increasing) auto
    then have "\<not> (2 ^ k :: u64) < 2"
      using unat_pow2 [OF k(1)] unat_pow2 [of 1] by (simp add: word_less_nat_alt)
    with k False that [of k] show ?thesis by (simp add: round_up_pow2_def)
  qed
qed

text \<open>Past \<open>2 ^ 63\<close> the doubling reaches 0 and the loop never ends.\<close>

lemma pow2_loop_diverges:
  assumes "\<And>k. push_bit k p < n"
  shows "pow2_loop n p = None"
proof -
  have "\<not> (\<forall>k. push_bit k p < n)" if "pow2_loop n p = Some y" for y
  proof (rule pow2_loop.raw_induct [where P = "\<lambda>n p y. \<not> (\<forall>k. push_bit k p < n)", OF _ that])
    fix loop n p y
    assume ih: "\<And>n p y. loop n p = Some y \<Longrightarrow> \<not> (\<forall>k. push_bit k p < n)"
      and st: "(if p < n then loop n (push_bit 1 p) else Some p) = Some (y :: u64)"
    show "\<not> (\<forall>k. push_bit k p < (n :: u64))"
    proof
      assume all: "\<forall>k. push_bit k p < n"
      then have "loop n (push_bit 1 p) = Some y" using st all [rule_format, of 0] by simp
      from ih [OF this] all show False by (metis push_bit_push_bit)
    qed
  qed
  with assms show ?thesis by (cases "pow2_loop n p") auto
qed

lemma round_up_pow2_diverges:
  assumes "unat n > 2 ^ 63"
  shows "round_up_pow2 n = None"
proof -
  have "push_bit k 1 < n" for k
  proof (cases "k \<le> 63")
    case True
    then have "(2 :: nat) ^ k \<le> 2 ^ 63" by (intro power_increasing) auto
    then show ?thesis using assms unat_pow2 [OF True] by (simp add: push_bit_eq_mult word_less_nat_alt)
  next
    case False
    then have z: "(2 :: u64) ^ k = 0" by (simp add: exp_eq_zero_iff)
    show ?thesis using assms by (simp add: push_bit_eq_mult word_less_nat_alt z)
  qed
  then show ?thesis using pow2_loop_diverges [of 1 n] by (simp add: round_up_pow2_def)
qed

section \<open>Counters and slots\<close>

text \<open>
  Distances are measured backwards from \<open>head\<close>, so that wrapping around \<open>2 ^ 64\<close> does not
  matter: the consumer's view of \<open>head\<close> is at most as far behind as \<open>tail\<close>, \<open>tail\<close> at most as
  far as the producer's view of it, and that view is within the capacity.
\<close>

definition behind :: "'a spsc_ring \<Rightarrow> u64 \<Rightarrow> nat" where
  "behind r x = unat (r_head r - x)"

definition geometry_ok :: "'a spsc_ring \<Rightarrow> bool" where
  "geometry_ok r \<longleftrightarrow>
     (\<exists>k. 1 \<le> k \<and> k \<le> 63 \<and> r_cap r = 2 ^ k) \<and> r_mask r = r_cap r - 1 \<and> length (r_slots r) = unat (r_cap r)"

definition ring_ok :: "'a spsc_ring \<Rightarrow> bool" where
  "ring_ok r \<longleftrightarrow>
     geometry_ok r \<and> behind r (r_head_cache r) \<le> behind r (r_tail r) \<and>
     behind r (r_tail r) \<le> behind r (r_tail_cache r) \<and> behind r (r_tail_cache r) \<le> unat (r_cap r)"

definition ring_contents :: "'a spsc_ring \<Rightarrow> 'a list" where
  "ring_contents r =
     map (\<lambda>i. r_slots r ! slot_of r (r_tail r + of_nat i)) [0..<behind r (r_tail r)]"

lemma geometry_cap: "geometry_ok r \<Longrightarrow> 2 \<le> unat (r_cap r) \<and> unat (r_cap r) \<le> 2 ^ 63"
proof -
  assume "geometry_ok r"
  then obtain k where k: "1 \<le> k" "k \<le> 63" "r_cap r = 2 ^ k" by (auto simp: geometry_ok_def)
  then have "(2 :: nat) ^ 1 \<le> 2 ^ k" "(2 :: nat) ^ k \<le> 2 ^ 63" by (intro power_increasing; simp)+
  then show ?thesis using unat_pow2 [OF k(2)] by (simp add: k(3))
qed

lemma slot_of_mod:
  assumes "geometry_ok r"
  shows "slot_of r (x + of_nat i) = (unat x + i) mod unat (r_cap r)"
proof -
  obtain k where k: "k \<le> 63" "r_cap r = 2 ^ k" using assms by (auto simp: geometry_ok_def)
  have "r_mask r = mask k" using assms k(2) by (simp add: geometry_ok_def mask_eq_exp_minus_1)
  then have "slot_of r (x + of_nat i) = unat (x + of_nat i) mod 2 ^ k"
    by (simp add: slot_of_def take_bit_eq_mask [symmetric] unsigned_take_bit_eq)
      (simp add: take_bit_eq_mod)
  also have "unat (x + of_nat i) = (unat x + i) mod 2 ^ 64"
    by (simp add: unat_word_ariths unat_of_nat take_bit_eq_mod mod_simps)
  also have "(unat x + i) mod 2 ^ 64 mod 2 ^ k = (unat x + i) mod 2 ^ k"
    using k(1) by (intro mod_mod_cancel le_imp_power_dvd) simp
  finally show ?thesis by (simp add: k(2) unat_pow2 [OF k(1)])
qed

lemma add_mod_inj:
  fixes a i j m :: nat
  assumes "(a + i) mod m = (a + j) mod m" and "i < m" and "j < m"
  shows "i = j"
proof -
  have "int (a + i) mod int m = int (a + j) mod int m" using arg_cong [OF assms(1), of int] by (simp add: zmod_int)
  then have dvd: "int m dvd int i - int j" by (simp add: mod_eq_dvd_iff)
  show ?thesis
  proof (rule ccontr)
    assume "i \<noteq> j"
    then have "\<bar>int m\<bar> \<le> \<bar>int i - int j\<bar>" using dvd by (intro dvd_imp_le_int) auto
    with assms(2,3) show False by linarith
  qed
qed

lemma slot_of_inj:
  assumes "geometry_ok r" and "i < unat (r_cap r)" and "j < unat (r_cap r)"
    and "slot_of r (x + of_nat i) = slot_of r (x + of_nat j)"
  shows "i = j"
  using assms(4) by (auto simp: slot_of_mod [OF assms(1)] intro: add_mod_inj [OF _ assms(2,3)])

lemma slot_of_less: "geometry_ok r \<Longrightarrow> slot_of r x < length (r_slots r)"
  using slot_of_mod [of r x 0] geometry_cap [of r] by (simp add: geometry_ok_def)

section \<open>The FIFO contract\<close>

text \<open>
  What a client of a bounded channel relies on: \<open>push\<close> appends or reports a full channel,
  \<open>pop\<close> takes the oldest element or reports an empty one.
\<close>

locale fifo_channel =
  fixes push :: "'a \<Rightarrow> 'r \<Rightarrow> bool \<times> 'r"
    and pop :: "'r \<Rightarrow> 'a option \<times> 'r"
    and ok :: "'r \<Rightarrow> bool"
    and contents :: "'r \<Rightarrow> 'a list"
    and capacity :: "'r \<Rightarrow> nat"
  assumes capacity_pos: "ok r \<Longrightarrow> 0 < capacity r"
    and push_full: "ok r \<Longrightarrow> length (contents r) = capacity r \<Longrightarrow>
      \<exists>r'. push x r = (False, r') \<and> ok r' \<and> contents r' = contents r \<and> capacity r' = capacity r"
    and push_room: "ok r \<Longrightarrow> length (contents r) < capacity r \<Longrightarrow>
      \<exists>r'. push x r = (True, r') \<and> ok r' \<and> contents r' = contents r @ [x] \<and> capacity r' = capacity r"
    and pop_empty: "ok r \<Longrightarrow> contents r = [] \<Longrightarrow>
      \<exists>r'. pop r = (None, r') \<and> ok r' \<and> contents r' = [] \<and> capacity r' = capacity r"
    and pop_some: "ok r \<Longrightarrow> contents r = x # xs \<Longrightarrow>
      \<exists>r'. pop r = (Some x, r') \<and> ok r' \<and> contents r' = xs \<and> capacity r' = capacity r"
    and bounded: "ok r \<Longrightarrow> length (contents r) \<le> capacity r"
begin

lemma push_cases:
  assumes "ok r" and "push x r = (b, r')"
  shows "ok r'" and "capacity r' = capacity r"
    and "contents r' = (if b then contents r @ [x] else contents r)"
    and "b \<longleftrightarrow> length (contents r) < capacity r"
  using assms push_full [of r x] push_room [of r x] bounded [of r]
  by (cases "length (contents r) < capacity r"; force)+

lemma pop_cases:
  assumes "ok r" and "pop r = (v, r')"
  shows "ok r'" and "capacity r' = capacity r"
    and "contents r = (case v of None \<Rightarrow> [] | Some x \<Rightarrow> x # contents r')"
    and "v = None \<Longrightarrow> contents r' = []"
proof -
  have "ok r' \<and> capacity r' = capacity r \<and>
      contents r = (case v of None \<Rightarrow> [] | Some x \<Rightarrow> x # contents r') \<and> (v = None \<longrightarrow> contents r' = [])"
  proof (cases "contents r")
    case Nil
    from pop_empty [OF assms(1) Nil] assms(2) Nil show ?thesis by auto
  next
    case (Cons x xs)
    from pop_some [OF assms(1) Cons] assms(2) Cons show ?thesis by auto
  qed
  then show "ok r'" "capacity r' = capacity r" "contents r = (case v of None \<Rightarrow> [] | Some x \<Rightarrow> x # contents r')"
    "v = None \<Longrightarrow> contents r' = []" by auto
qed

text \<open>Any sequence of calls: what comes out, followed by what is left, is what went in.\<close>

lemma fifo_order:
  assumes "ok r" and "push x r = (True, r1)" and "pop r1 = (v, r2)"
  shows "v \<noteq> None \<and> the v # contents r2 = contents r @ [x]"
  using push_cases(3) [OF assms(1,2)] pop_cases(3) [OF push_cases(1) [OF assms(1,2)] assms(3)]
  by (cases v) auto

end

section \<open>The ring is a FIFO channel\<close>

lemma behind_push: "behind r x < 2 ^ 64 - 1 \<Longrightarrow> unat (r_head r + 1 - x) = Suc (behind r x)"
proof -
  assume "behind r x < 2 ^ 64 - 1"
  then have "unat (r_head r - x + 1) = Suc (behind r x)"
    by (subst unat_add_small) (simp_all add: behind_def)
  moreover have "r_head r + 1 - x = r_head r - x + 1" by simp
  ultimately show ?thesis by (simp only:)
qed

lemma ring_ok_bounds:
  assumes "ring_ok r"
  shows "geometry_ok r" and "2 \<le> unat (r_cap r)" and "unat (r_cap r) \<le> 2 ^ 63"
    and "behind r (r_tail r) \<le> unat (r_cap r)" and "behind r (r_head_cache r) \<le> unat (r_cap r)"
  using assms geometry_cap [of r] by (auto simp: ring_ok_def)

lemma length_ring_contents [simp]: "length (ring_contents r) = behind r (r_tail r)"
  by (simp add: ring_contents_def)

lemma head_is_tail_plus: "r_head r = r_tail r + of_nat (behind r (r_tail r))"
  by (simp add: behind_def)

text \<open>The stores of a successful \<open>push\<close> and \<open>pop\<close>, for any views that leave room.\<close>

lemma ring_slot_write:
  assumes "ring_ok r" and "behind r (r_tail_cache r) < unat (r_cap r)"
    and r': "r' = r\<lparr>r_slots := (r_slots r)[slot_of r (r_head r) := x]\<rparr>"
  shows "ring_ok r'" and "ring_contents r' = ring_contents r" and "r_slots r' ! slot_of r' (r_head r') = x"
proof -
  note b = ring_ok_bounds [OF assms(1)]
  let ?n = "behind r (r_tail r)"
  have n: "?n < unat (r_cap r)" using assms(1,2) by (simp add: ring_ok_def)
  have beh: "behind r' = behind r" by (simp add: behind_def r' fun_eq_iff)
  have slot: "slot_of r' = slot_of r" by (simp add: slot_of_def r' fun_eq_iff)
  show "ring_ok r'"
    using assms(1) by (simp add: ring_ok_def beh) (simp add: r' geometry_ok_def)
  have head: "slot_of r (r_head r) = slot_of r (r_tail r + of_nat ?n)"
    using head_is_tail_plus [of r] by simp
  have "r_slots r' ! slot_of r (r_tail r + of_nat i) = r_slots r ! slot_of r (r_tail r + of_nat i)"
    if "i < ?n" for i
  proof -
    have "slot_of r (r_head r) \<noteq> slot_of r (r_tail r + of_nat i)"
      using slot_of_inj [OF b(1), of i ?n "r_tail r"] that n head by fastforce
    then show ?thesis by (simp add: r')
  qed
  then show "ring_contents r' = ring_contents r"
    by (simp add: ring_contents_def slot beh) (simp add: r' behind_def)
  show "r_slots r' ! slot_of r' (r_head r') = x"
    using slot_of_less [OF b(1)] by (simp add: slot) (simp add: r')
qed

lemma ring_publish:
  assumes "ring_ok r" and "behind r (r_tail_cache r) < unat (r_cap r)"
    and "r_slots r ! slot_of r (r_head r) = x" and r': "r' = r\<lparr>r_head := r_head r + 1\<rparr>"
  shows "ring_ok r'" and "ring_contents r' = ring_contents r @ [x]"
    and "behind r y \<le> unat (r_cap r) \<Longrightarrow> behind r' y = Suc (behind r y)"
proof -
  note b = ring_ok_bounds [OF assms(1)]
  have big: "unat (r_cap r) < 2 ^ 64 - 1" using b(3) by simp
  show beh: "behind r' y = Suc (behind r y)" if "behind r y \<le> unat (r_cap r)" for y
    using behind_push [of r y] that big by (simp add: behind_def) (simp add: r')
  have geo: "geometry_ok r'" using b(1) by (simp add: geometry_ok_def r')
  show "ring_ok r'"
    using assms(1,2) geo b(4,5) beh [of "r_tail r"] beh [of "r_tail_cache r"] beh [of "r_head_cache r"]
    by (simp add: ring_ok_def) (simp add: r')
  have slot: "slot_of r' = slot_of r" by (simp add: slot_of_def r' fun_eq_iff)
  have "slot_of r (r_tail r + of_nat (behind r (r_tail r))) = slot_of r (r_head r)"
    using head_is_tail_plus [of r] by simp
  then show "ring_contents r' = ring_contents r @ [x]"
    using beh [of "r_tail r"] b(4) assms(3)
    by (simp add: ring_contents_def slot) (simp add: r')
qed

lemma ring_write_ok:
  assumes "ring_ok r" and "behind r (r_tail_cache r) < unat (r_cap r)"
    and r': "r' = r\<lparr>r_slots := (r_slots r)[slot_of r (r_head r) := x], r_head := r_head r + 1\<rparr>"
  shows "ring_ok r'" and "ring_contents r' = ring_contents r @ [x]"
proof -
  define r1 where "r1 = r\<lparr>r_slots := (r_slots r)[slot_of r (r_head r) := x]\<rparr>"
  note w = ring_slot_write [OF assms(1,2) r1_def]
  have "behind r1 (r_tail_cache r1) < unat (r_cap r1)" "r' = r1\<lparr>r_head := r_head r1 + 1\<rparr>"
    using assms(2) by (simp_all add: r1_def r' behind_def)
  from ring_publish [OF w(1) this(1) w(3) this(2)] w(2)
  show "ring_ok r'" "ring_contents r' = ring_contents r @ [x]" by simp_all
qed

lemma ring_read_ok:
  assumes "ring_ok r" and "behind r (r_head_cache r) < behind r (r_tail r)"
    and r': "r' = r\<lparr>r_tail := r_tail r + 1\<rparr>"
  shows "ring_ok r'" and "ring_contents r = r_slots r ! slot_of r (r_tail r) # ring_contents r'"
proof -
  note b = ring_ok_bounds [OF assms(1)]
  let ?n = "behind r (r_tail r)"
  have n0: "?n \<noteq> 0" using assms(2) by simp
  have beh': "behind r' (r_tail r') = ?n - 1"
  proof -
    have "behind r' (r_tail r') = unat (r_head r - r_tail r - 1)"
      by (simp add: behind_def r' diff_diff_add)
    also have "\<dots> = ?n - 1" using n0 by (subst unat_sub_small) (simp_all add: behind_def)
    finally show ?thesis .
  qed
  have same: "behind r' y = behind r y" for y by (simp add: behind_def r')
  show "ring_ok r'"
  proof -
    have "geometry_ok r'" "r_head_cache r' = r_head_cache r" "r_tail_cache r' = r_tail_cache r" "r_cap r' = r_cap r"
      using b(1) by (simp_all add: r' geometry_ok_def)
    with assms(1,2) beh' show ?thesis by (simp add: ring_ok_def same) linarith
  qed
  have "[0..<?n] = 0 # map Suc [0..<?n - 1]"
    using n0 by (cases ?n) (simp_all add: upt_conv_Cons map_Suc_upt del: upt_Suc)
  then show "ring_contents r = r_slots r ! slot_of r (r_tail r) # ring_contents r'"
    by (simp add: ring_contents_def beh') (simp add: r' slot_of_def o_def add.assoc)
qed

lemma behind_views [simp]:
  "behind (r\<lparr>r_tail_cache := a\<rparr>) = behind r" "behind (r\<lparr>r_head_cache := a\<rparr>) = behind r"
  "slot_of (r\<lparr>r_tail_cache := a\<rparr>) = slot_of r" "slot_of (r\<lparr>r_head_cache := a\<rparr>) = slot_of r"
  "geometry_ok (r\<lparr>r_tail_cache := a\<rparr>) = geometry_ok r" "geometry_ok (r\<lparr>r_head_cache := a\<rparr>) = geometry_ok r"
  "ring_contents (r\<lparr>r_tail_cache := a\<rparr>) = ring_contents r" "ring_contents (r\<lparr>r_head_cache := a\<rparr>) = ring_contents r"
  by (simp_all add: fun_eq_iff behind_def slot_of_def geometry_ok_def ring_contents_def)

lemma behind_head [simp]: "behind r (r_head r) = 0"
  by (simp add: behind_def)

lemma ring_refresh_ok:
  assumes "ring_ok r"
  shows "ring_ok (r\<lparr>r_tail_cache := r_tail r\<rparr>)" and "ring_ok (r\<lparr>r_head_cache := r_head r\<rparr>)"
  using assms by (auto simp: ring_ok_def)

lemma looks_full_iff:
  assumes "ring_ok r" and "behind r x \<le> unat (r_cap r)"
  shows "r_head r + 1 - x > r_cap r \<longleftrightarrow> behind r x = unat (r_cap r)"
  using behind_push [of r x] assms(2) ring_ok_bounds(3) [OF assms(1)] by (auto simp: word_less_nat_alt)

lemma looks_empty_iff: "x = y \<longleftrightarrow> behind r x = behind r y"
  unfolding behind_def word_unat_eq_iff [symmetric] by auto

lemma ring_push_spec:
  assumes ok: "ring_ok r"
  shows "if length (ring_contents r) < unat (r_cap r)
         then \<exists>r'. ring_push x r = (True, r') \<and> ring_ok r' \<and> ring_contents r' = ring_contents r @ [x] \<and>
                   r_cap r' = r_cap r
         else \<exists>r'. ring_push x r = (False, r') \<and> ring_ok r' \<and> ring_contents r' = ring_contents r \<and>
                   r_cap r' = r_cap r"
proof -
  let ?r1 = "r\<lparr>r_tail_cache := r_tail r\<rparr>"
  note b = ring_ok_bounds [OF ok]
  have tc: "behind r (r_tail_cache r) \<le> unat (r_cap r)" "behind r (r_tail r) \<le> behind r (r_tail_cache r)"
    using ok by (auto simp: ring_ok_def)
  note full = looks_full_iff [OF ok tc(1)] looks_full_iff [OF ok b(4)]
  show ?thesis
  proof (cases "behind r (r_tail_cache r) = unat (r_cap r)")
    case False
    then have "behind r (r_tail_cache r) < unat (r_cap r)" using tc by simp
    with ring_write_ok [OF ok this refl, of x] tc(2) full(1) show ?thesis
      by (auto simp: ring_push_def Let_def)
  next
    case True
    with ring_refresh_ok(1) [OF ok] ring_write_ok [OF ring_refresh_ok(1) [OF ok] _ refl, of x] full b(4)
    show ?thesis by (auto simp: ring_push_def Let_def)
  qed
qed

lemma ring_pop_spec:
  assumes ok: "ring_ok r"
  shows "case ring_contents r of
           [] \<Rightarrow> \<exists>r'. ring_pop r = (None, r') \<and> ring_ok r' \<and> ring_contents r' = [] \<and> r_cap r' = r_cap r
         | x # xs \<Rightarrow> \<exists>r'. ring_pop r = (Some x, r') \<and> ring_ok r' \<and> ring_contents r' = xs \<and> r_cap r' = r_cap r"
proof -
  have hc: "behind r (r_head_cache r) \<le> behind r (r_tail r)" using ok by (simp add: ring_ok_def)
  note e1 = looks_empty_iff [of "r_tail r" "r_head_cache r" r]
  note e2 = looks_empty_iff [of "r_tail r" "r_head r" r]
  show ?thesis
  proof (cases "behind r (r_tail r) = behind r (r_head_cache r)")
    case False
    then have "behind r (r_head_cache r) < behind r (r_tail r)" using hc by simp
    from ring_read_ok [OF ok this refl] False e1 show ?thesis
      by (auto simp: ring_pop_def Let_def)
  next
    case True
    show ?thesis
    proof (cases "behind r (r_tail r) = 0")
      case empty: True
      then have "ring_contents r = []" by (metis length_0_conv length_ring_contents)
      with True empty e1 e2 ring_refresh_ok(2) [OF ok] show ?thesis
        by (auto simp: ring_pop_def Let_def)
    next
      case ne: False
      with ring_read_ok [OF ring_refresh_ok(2) [OF ok] _ refl] True e1 e2 show ?thesis
        by (auto simp: ring_pop_def Let_def)
    qed
  qed
qed

interpretation ring: fifo_channel ring_push ring_pop ring_ok ring_contents "\<lambda>r. unat (r_cap r)"
proof
  fix r :: "'a spsc_ring" and x xs
  assume ok: "ring_ok r"
  show "0 < unat (r_cap r)" using ring_ok_bounds(2) [OF ok] by simp
  show "length (ring_contents r) = unat (r_cap r) \<Longrightarrow>
      \<exists>r'. ring_push x r = (False, r') \<and> ring_ok r' \<and> ring_contents r' = ring_contents r \<and>
        unat (r_cap r') = unat (r_cap r)"
    using ring_push_spec [OF ok, of x] by auto
  show "length (ring_contents r) < unat (r_cap r) \<Longrightarrow>
      \<exists>r'. ring_push x r = (True, r') \<and> ring_ok r' \<and> ring_contents r' = ring_contents r @ [x] \<and>
        unat (r_cap r') = unat (r_cap r)"
    using ring_push_spec [OF ok, of x] by auto
  show "ring_contents r = [] \<Longrightarrow>
      \<exists>r'. ring_pop r = (None, r') \<and> ring_ok r' \<and> ring_contents r' = [] \<and> unat (r_cap r') = unat (r_cap r)"
    using ring_pop_spec [OF ok] by auto
  show "ring_contents r = x # xs \<Longrightarrow>
      \<exists>r'. ring_pop r = (Some x, r') \<and> ring_ok r' \<and> ring_contents r' = xs \<and> unat (r_cap r') = unat (r_cap r)"
    using ring_pop_spec [OF ok] by auto
  show "length (ring_contents r) \<le> unat (r_cap r)"
    using ring_ok_bounds(4) [OF ok] by simp
qed

lemma ring_new_ok:
  assumes "unat capacity \<le> 2 ^ 63"
  obtains r where "ring_new dflt capacity = Some r" "ring_ok r" "ring_contents r = []"
    "unat capacity \<le> unat (r_cap r)" "r_cap r = 2 \<or> unat (r_cap r) < 2 * unat capacity"
proof -
  obtain k where k: "1 \<le> k" "k \<le> 63" "round_up_pow2 capacity = Some (2 ^ k)" "unat capacity \<le> 2 ^ k"
    "k = 1 \<or> 2 ^ (k - 1) < unat capacity"
    by (rule round_up_pow2_Some [OF assms])
  define r where "r = \<lparr>r_cap = 2 ^ k, r_mask = 2 ^ k - 1, r_slots = replicate (unat (2 ^ k :: u64)) dflt,
    r_head = 0, r_tail_cache = 0, r_tail = 0, r_head_cache = 0\<rparr>"
  have "geometry_ok r" using k(1,2) by (auto simp: geometry_ok_def r_def)
  then have "ring_ok r" by (simp add: ring_ok_def) (simp add: r_def behind_def)
  moreover have "2 ^ k = 2 * (2 :: nat) ^ (k - 1)" using k(1) by (cases k) auto
  ultimately show thesis
    using that [of r] k by (auto simp: ring_new_def r_def ring_contents_def behind_def unat_pow2)
qed

section \<open>Properties\<close>

text \<open>C14. \<open>round_up_pow2\<close> returns exactly for requests up to \<open>2 ^ 63\<close>, and then gives the least
  power of two that is at least 2 and not below the request; beyond that its loop does not end.\<close>

theorem round_up_pow2_correct:
  "case round_up_pow2 n of
     None \<Rightarrow> unat n > 2 ^ 63
   | Some p \<Rightarrow> \<exists>k. 1 \<le> k \<and> k \<le> 63 \<and> p = 2 ^ k \<and> unat n \<le> 2 ^ k \<and> (k = 1 \<or> 2 ^ (k - 1) < unat n)"
proof (cases "unat n \<le> 2 ^ 63")
  case True
  then obtain k where "1 \<le> k" "k \<le> 63" "round_up_pow2 n = Some (2 ^ k)" "unat n \<le> 2 ^ k"
    "k = 1 \<or> 2 ^ (k - 1) < unat n"
    by (rule round_up_pow2_Some)
  then show ?thesis by auto
next
  case False
  then show ?thesis using round_up_pow2_diverges [of n] by simp
qed

text \<open>The ring is a bounded FIFO queue, counters wrapping around included: on a ring in a good
  state \<open>push\<close> appends when there is room and otherwise refuses and changes nothing visible, and
  \<open>pop\<close> returns the oldest element or reports empty.\<close>

theorem ring_is_bounded_queue:
  assumes "ring_ok r" and "ring_push x r = (b, r')" and "ring_pop r = (v, r'')"
  shows "ring_ok r' \<and> ring_contents r' = (if b then ring_contents r @ [x] else ring_contents r) \<and>
         (b \<longleftrightarrow> length (ring_contents r) < unat (r_cap r)) \<and>
         ring_ok r'' \<and> ring_contents r = (case v of None \<Rightarrow> [] | Some y \<Rightarrow> y # ring_contents r'')"
  using ring.push_cases [OF assms(1,2)] ring.pop_cases [OF assms(1,3)] by simp

theorem ring_is_bounded_queue_witness:
  "ring_contents (snd (ring_push (5 :: nat)
     \<lparr>r_cap = 2, r_mask = 1, r_slots = [0, 9], r_head = 0, r_tail_cache = - 1, r_tail = - 1,
      r_head_cache = 0\<rparr>)) = [9, 5]"
proof -
  let ?r = "\<lparr>r_cap = 2, r_mask = 1, r_slots = [0, 9 :: nat], r_head = 0, r_tail_cache = - 1,
    r_tail = - 1, r_head_cache = 0\<rparr> :: nat spsc_ring"
  have "geometry_ok ?r" by (auto simp: geometry_ok_def intro!: exI [of _ 1])
  then have ok: "ring_ok ?r" by (simp add: ring_ok_def behind_def)
  have c: "ring_contents ?r = [9]" by (simp add: ring_contents_def behind_def slot_of_def)
  from ring_is_bounded_queue [OF ok prod.collapse [symmetric] prod.collapse [symmetric], of 5]
  show ?thesis by (auto simp: c)
qed

end
