(* ===== verification/Ring_Threads.thy ===== *)
theory Ring_Threads
  imports Spsc_Ring
begin

text \<open>
  The ring under concurrency. \<open>push\<close>, \<open>pop\<close> and \<open>size_approx\<close> of \<^verbatim>\<open>spsc_ring.hpp\<close> are cut at
  their accesses to shared memory: a producer, a consumer and an observer thread advance one
  load or store at a time, in any order. Each shared counter has one writer, and a slot is
  handed over by the release store and acquire load of a counter, so the interleavings of the
  accesses are the executions; that no slot is accessed by both threads at once is proved.

  Shown for every reachable state: the popped elements are a prefix of the pushed ones, the
  answers full and empty are right at the moment of the load that finds them, no slot is
  written while it is read, and every call finishes within four own steps.
\<close>

section \<open>The threads\<close>

datatype 'a producer = P_idle | P_load_tail 'a u64 | P_store_slot 'a u64 | P_store_head 'a u64

datatype 'a consumer = C_idle | C_load_head u64 | C_read_slot u64 | C_store_tail u64 'a

datatype observer = O_idle | O_load_head u64

text \<open>
  \<open>pushed\<close> and \<open>popped\<close> record the history: what was published and what was taken, and
  \<open>seen\<close> how much had been taken when the observer read \<open>tail_\<close>.
\<close>

record 'a threads =
  ring :: "'a spsc_ring"
  prod :: "'a producer"
  cons :: "'a consumer"
  obs :: observer
  pushed :: "'a list"
  popped :: "'a list"
  seen :: nat

datatype 'a event =
    Call | Internal | Pushed 'a | Push_full 'a | Popped 'a | Pop_empty | Size u64

definition threads_init :: "'a spsc_ring \<Rightarrow> 'a threads" where
  "threads_init r = \<lparr>ring = r, prod = P_idle, cons = C_idle, obs = O_idle, pushed = [], popped = [], seen = 0\<rparr>"

text \<open>The call of \<open>push\<close> up to its first access of shared memory: \<open>head_\<close> and \<open>tail_cache_\<close>
  belong to the producer.\<close>

definition begin_push :: "'a \<Rightarrow> 'a threads \<Rightarrow> 'a threads" where
  "begin_push item s =
     (let r = ring s; head = r_head r
      in if head + 1 - r_tail_cache r > r_cap r then s\<lparr>prod := P_load_tail item head\<rparr>
         else s\<lparr>prod := P_store_slot item head\<rparr>)"

fun producer_step :: "'a producer \<Rightarrow> 'a threads \<Rightarrow> 'a event \<times> 'a threads" where
  "producer_step P_idle s = (Internal, s)"
| "producer_step (P_load_tail item head) s =
     (let r = (ring s)\<lparr>r_tail_cache := r_tail (ring s)\<rparr>
      in if head + 1 - r_tail_cache r > r_cap r then (Push_full item, s\<lparr>ring := r, prod := P_idle\<rparr>)
         else (Internal, s\<lparr>ring := r, prod := P_store_slot item head\<rparr>))"
| "producer_step (P_store_slot item head) s =
     (let r = ring s
      in (Internal, s\<lparr>ring := r\<lparr>r_slots := (r_slots r)[slot_of r head := item]\<rparr>,
                      prod := P_store_head item head\<rparr>))"
| "producer_step (P_store_head item head) s =
     (Pushed item, s\<lparr>ring := (ring s)\<lparr>r_head := head + 1\<rparr>, prod := P_idle, pushed := pushed s @ [item]\<rparr>)"

definition begin_pop :: "'a threads \<Rightarrow> 'a threads" where
  "begin_pop s =
     (let r = ring s; tail = r_tail r
      in if tail = r_head_cache r then s\<lparr>cons := C_load_head tail\<rparr>
         else s\<lparr>cons := C_read_slot tail\<rparr>)"

fun consumer_step :: "'a consumer \<Rightarrow> 'a threads \<Rightarrow> 'a event \<times> 'a threads" where
  "consumer_step C_idle s = (Internal, s)"
| "consumer_step (C_load_head tail) s =
     (let r = (ring s)\<lparr>r_head_cache := r_head (ring s)\<rparr>
      in if tail = r_head_cache r then (Pop_empty, s\<lparr>ring := r, cons := C_idle\<rparr>)
         else (Internal, s\<lparr>ring := r, cons := C_read_slot tail\<rparr>))"
| "consumer_step (C_read_slot tail) s =
     (Internal, s\<lparr>cons := C_store_tail tail (r_slots (ring s) ! slot_of (ring s) tail)\<rparr>)"
| "consumer_step (C_store_tail tail out) s =
     (Popped out, s\<lparr>ring := (ring s)\<lparr>r_tail := tail + 1\<rparr>, cons := C_idle, popped := popped s @ [out]\<rparr>)"

fun observer_step :: "observer \<Rightarrow> 'a threads \<Rightarrow> 'a event \<times> 'a threads" where
  "observer_step O_idle s =
     (Internal, s\<lparr>obs := O_load_head (r_tail (ring s)), seen := length (popped s)\<rparr>)"
| "observer_step (O_load_head t) s = (Size (r_head (ring s) - t), s\<lparr>obs := O_idle\<rparr>)"

inductive ring_step :: "'a threads \<Rightarrow> 'a event \<Rightarrow> 'a threads \<Rightarrow> bool" where
  call_push: "prod s = P_idle \<Longrightarrow> ring_step s Call (begin_push item s)"
| in_push: "prod s \<noteq> P_idle \<Longrightarrow> producer_step (prod s) s = (e, s') \<Longrightarrow> ring_step s e s'"
| call_pop: "cons s = C_idle \<Longrightarrow> ring_step s Call (begin_pop s)"
| in_pop: "cons s \<noteq> C_idle \<Longrightarrow> consumer_step (cons s) s = (e, s') \<Longrightarrow> ring_step s e s'"
| in_size: "observer_step (obs s) s = (e, s') \<Longrightarrow> ring_step s e s'"

inductive reachable :: "'a spsc_ring \<Rightarrow> 'a threads \<Rightarrow> bool" for r where
  init: "reachable r (threads_init r)"
| step: "reachable r s \<Longrightarrow> ring_step s e s' \<Longrightarrow> reachable r s'"

inductive_cases ring_stepE: "ring_step s e s'"

section \<open>The invariant\<close>

fun producer_ok :: "'a spsc_ring \<Rightarrow> 'a producer \<Rightarrow> bool" where
  "producer_ok r P_idle \<longleftrightarrow> True"
| "producer_ok r (P_load_tail x h) \<longleftrightarrow> h = r_head r"
| "producer_ok r (P_store_slot x h) \<longleftrightarrow> h = r_head r \<and> behind r (r_tail_cache r) < unat (r_cap r)"
| "producer_ok r (P_store_head x h) \<longleftrightarrow>
     h = r_head r \<and> behind r (r_tail_cache r) < unat (r_cap r) \<and> r_slots r ! slot_of r h = x"

fun consumer_ok :: "'a spsc_ring \<Rightarrow> 'a consumer \<Rightarrow> bool" where
  "consumer_ok r C_idle \<longleftrightarrow> True"
| "consumer_ok r (C_load_head t) \<longleftrightarrow> t = r_tail r"
| "consumer_ok r (C_read_slot t) \<longleftrightarrow> t = r_tail r \<and> behind r (r_head_cache r) < behind r (r_tail r)"
| "consumer_ok r (C_store_tail t x) \<longleftrightarrow>
     t = r_tail r \<and> behind r (r_head_cache r) < behind r (r_tail r) \<and> x = hd (ring_contents r)"

fun observer_ok :: "observer \<Rightarrow> nat \<Rightarrow> nat \<Rightarrow> bool" where
  "observer_ok O_idle sn n \<longleftrightarrow> True"
| "observer_ok (O_load_head t) sn n \<longleftrightarrow> t = of_nat sn \<and> sn \<le> n"

definition threads_ok :: "'a threads \<Rightarrow> bool" where
  "threads_ok s \<longleftrightarrow>
     ring_ok (ring s) \<and> producer_ok (ring s) (prod s) \<and> consumer_ok (ring s) (cons s) \<and>
     observer_ok (obs s) (seen s) (length (popped s)) \<and>
     of_nat (length (popped s)) = r_tail (ring s) \<and> pushed s = popped s @ ring_contents (ring s)"

lemma observer_ok_Suc: "observer_ok ob sn n \<Longrightarrow> observer_ok ob sn (Suc n)"
  by (cases ob) auto

lemma threads_ok_init: "ring_ok r \<Longrightarrow> ring_contents r = [] \<Longrightarrow> r_tail r = 0 \<Longrightarrow> threads_ok (threads_init r)"
  by (simp add: threads_ok_def threads_init_def)

lemma ring_contents_Nil: "ring_contents r = [] \<longleftrightarrow> behind r (r_tail r) = 0"
  by (metis length_0_conv length_ring_contents)

lemma contents_nonempty: "behind r (r_tail r) > 0 \<Longrightarrow> ring_contents r \<noteq> []"
  by (simp add: ring_contents_Nil)

text \<open>Views of the other side may be refreshed under the other thread's feet.\<close>

lemma ok_refresh:
  "producer_ok (r\<lparr>r_head_cache := a\<rparr>) p = producer_ok r p"
  "consumer_ok (r\<lparr>r_tail_cache := a\<rparr>) c = consumer_ok r c"
  by (cases p; simp) (cases c; simp)

lemma begin_push_ok: "threads_ok s \<Longrightarrow> threads_ok (begin_push x s)"
proof -
  assume ok: "threads_ok s"
  then have r: "ring_ok (ring s)" by (simp add: threads_ok_def)
  then have tc: "behind (ring s) (r_tail_cache (ring s)) \<le> unat (r_cap (ring s))" by (simp add: ring_ok_def)
  with ok looks_full_iff [OF r tc] show ?thesis
    by (auto simp: begin_push_def Let_def threads_ok_def)
qed

lemma begin_pop_ok: "threads_ok s \<Longrightarrow> threads_ok (begin_pop s)"
proof -
  assume ok: "threads_ok s"
  then have "behind (ring s) (r_head_cache (ring s)) \<le> behind (ring s) (r_tail (ring s))"
    by (simp add: threads_ok_def ring_ok_def)
  with ok looks_empty_iff [of "r_tail (ring s)" "r_head_cache (ring s)" "ring s"] show ?thesis
    by (auto simp: begin_pop_def Let_def threads_ok_def)
qed

lemma consumer_ok_slot_write:
  assumes "ring_ok r" "behind r (r_tail_cache r) < unat (r_cap r)" "consumer_ok r c"
  shows "consumer_ok (r\<lparr>r_slots := (r_slots r)[slot_of r (r_head r) := x]\<rparr>) c"
  using assms(3) ring_slot_write(2) [OF assms(1,2) refl, of x]
  by (cases c) (auto simp: behind_def)

lemma consumer_ok_publish:
  assumes "ring_ok r" "behind r (r_tail_cache r) < unat (r_cap r)" "r_slots r ! slot_of r (r_head r) = x"
    and "consumer_ok r c"
  shows "consumer_ok (r\<lparr>r_head := r_head r + 1\<rparr>) c"
proof -
  let ?r = "r\<lparr>r_head := r_head r + 1\<rparr>"
  note p = ring_publish [OF assms(1-3) refl]
  have "behind ?r (r_tail r) = Suc (behind r (r_tail r))" "behind ?r (r_head_cache r) = Suc (behind r (r_head_cache r))"
    using p(3) ring_ok_bounds(4,5) [OF assms(1)] by simp_all
  with assms(4) p(2) contents_nonempty [of r] show ?thesis by (cases c) auto
qed

lemma producer_step_ok:
  assumes ok: "threads_ok s" and st: "producer_step (prod s) s = (e, s')"
  shows "threads_ok s'"
proof (cases "prod s")
  case (P_load_tail x h)
  have r: "ring_ok (ring s)" using ok by (simp add: threads_ok_def)
  have h: "h = r_head (ring s)" using ok P_load_tail by (simp add: threads_ok_def)
  note full = looks_full_iff [OF r ring_ok_bounds(4) [OF r]]
  with ok st P_load_tail h ring_refresh_ok(1) [OF r] ring_ok_bounds(4) [OF r] show ?thesis
    by (auto simp: threads_ok_def ok_refresh Let_def split: if_splits)
next
  case (P_store_slot x h)
  have r: "ring_ok (ring s)" "h = r_head (ring s)" "behind (ring s) (r_tail_cache (ring s)) < unat (r_cap (ring s))"
    using ok P_store_slot by (simp_all add: threads_ok_def)
  note w = ring_slot_write [OF r(1,3) refl, of x] consumer_ok_slot_write [OF r(1,3), of "cons s" x]
  have "behind (ring s\<lparr>r_slots := a\<rparr>) = behind (ring s)" for a by (simp add: behind_def fun_eq_iff)
  with ok st P_store_slot r w show ?thesis
    by (auto simp: threads_ok_def Let_def)
next
  case (P_store_head x h)
  have r: "ring_ok (ring s)" "h = r_head (ring s)" "behind (ring s) (r_tail_cache (ring s)) < unat (r_cap (ring s))"
    "r_slots (ring s) ! slot_of (ring s) (r_head (ring s)) = x"
    using ok P_store_head by (auto simp: threads_ok_def)
  note w = ring_publish(1,2) [OF r(1,3,4) refl] consumer_ok_publish [OF r(1,3,4), of "cons s"]
  with ok st P_store_head r show ?thesis
    by (auto simp: threads_ok_def)
qed (use ok st in auto)

lemma producer_ok_tail:
  "ring_ok r \<Longrightarrow> producer_ok r p \<Longrightarrow> producer_ok (r\<lparr>r_tail := a\<rparr>) p"
  by (cases p) (auto simp: behind_def slot_of_def)

lemma consumer_step_ok:
  assumes ok: "threads_ok s" and st: "consumer_step (cons s) s = (e, s')"
  shows "threads_ok s'"
proof (cases "cons s")
  case (C_load_head t)
  have r: "ring_ok (ring s)" and t: "t = r_tail (ring s)" using ok C_load_head by (auto simp: threads_ok_def)
  have "behind (ring s) (r_tail (ring s)) > 0" if "r_tail (ring s) \<noteq> r_head (ring s)"
    using that looks_empty_iff [of "r_tail (ring s)" "r_head (ring s)" "ring s"] by simp
  with ok st C_load_head t ring_refresh_ok(2) [OF r] show ?thesis
    by (auto simp: threads_ok_def ok_refresh Let_def split: if_splits)
next
  case (C_read_slot t)
  have r: "ring_ok (ring s)" "t = r_tail (ring s)"
    "behind (ring s) (r_head_cache (ring s)) < behind (ring s) (r_tail (ring s))"
    using ok C_read_slot by (auto simp: threads_ok_def)
  have "hd (ring_contents (ring s)) = r_slots (ring s) ! slot_of (ring s) (r_tail (ring s))"
    using ring_read_ok(2) [OF r(1,3) refl] by (metis list.sel(1))
  with ok st C_read_slot r show ?thesis by (auto simp: threads_ok_def)
next
  case (C_store_tail t x)
  have r: "ring_ok (ring s)" "t = r_tail (ring s)" "x = hd (ring_contents (ring s))"
    "behind (ring s) (r_head_cache (ring s)) < behind (ring s) (r_tail (ring s))"
    using ok C_store_tail by (auto simp: threads_ok_def)
  define r2 where "r2 = ring s\<lparr>r_tail := r_tail (ring s) + 1\<rparr>"
  note w = ring_read_ok [OF r(1,4) r2_def]
  have c: "ring_contents (ring s) = x # ring_contents r2" using w(2) r(3) by (metis list.sel(1))
  have s': "s' = s\<lparr>ring := r2, cons := C_idle, popped := popped s @ [x]\<rparr>"
    using st C_store_tail r(2) by (simp add: r2_def)
  have "producer_ok r2 (prod s)" "r_tail r2 = r_tail (ring s) + 1"
    using ok producer_ok_tail [OF r(1), of "prod s"] by (simp_all add: threads_ok_def r2_def)
  then show ?thesis
    using ok w(1) c by (simp add: s' threads_ok_def observer_ok_Suc add.commute)
qed (use ok st in auto)

lemma observer_step_ok: "threads_ok s \<Longrightarrow> observer_step (obs s) s = (e, s') \<Longrightarrow> threads_ok s'"
  by (cases "obs s") (auto simp: threads_ok_def)

lemma ring_step_ok: "ring_step s e s' \<Longrightarrow> threads_ok s \<Longrightarrow> threads_ok s'"
  by (induction rule: ring_step.induct)
    (auto intro: begin_push_ok begin_pop_ok producer_step_ok consumer_step_ok observer_step_ok)

definition fresh_ring :: "'a spsc_ring \<Rightarrow> bool" where
  "fresh_ring r \<longleftrightarrow> (\<exists>dflt capacity. ring_new dflt capacity = Some r \<and> unat capacity \<le> 2 ^ 63)"

lemma fresh_ring_ok: "fresh_ring r \<Longrightarrow> ring_ok r \<and> ring_contents r = [] \<and> r_tail r = 0"
proof -
  assume "fresh_ring r"
  then obtain dflt capacity where c: "ring_new dflt capacity = Some r" "unat capacity \<le> 2 ^ 63"
    by (auto simp: fresh_ring_def)
  moreover have "r_tail r = 0" using c(1) by (auto simp: ring_new_def split: option.splits)
  ultimately show ?thesis using ring_new_ok [OF c(2), of dflt] by force
qed

lemma reachable_ok: "reachable r s \<Longrightarrow> fresh_ring r \<Longrightarrow> threads_ok s"
  by (induction rule: reachable.induct) (auto simp: fresh_ring_ok intro: threads_ok_init ring_step_ok)

section \<open>The abstract queue\<close>

text \<open>The sequential specification each access is compared with: a call takes effect at the
  access that completes it.\<close>

fun queue_step :: "nat \<Rightarrow> 'a list \<Rightarrow> 'a event \<Rightarrow> 'a list \<Rightarrow> bool" where
  "queue_step n q (Pushed x) q' \<longleftrightarrow> length q < n \<and> q' = q @ [x]"
| "queue_step n q (Push_full x) q' \<longleftrightarrow> length q = n \<and> q' = q"
| "queue_step n q (Popped x) q' \<longleftrightarrow> q = x # q'"
| "queue_step n q Pop_empty q' \<longleftrightarrow> q = [] \<and> q' = []"
| "queue_step n q _ q' \<longleftrightarrow> q' = q"

lemma step_cap: "ring_step s e s' \<Longrightarrow> r_cap (ring s') = r_cap (ring s)"
proof (induction rule: ring_step.induct)
  case (in_push s e s') then show ?case by (cases "prod s") (auto simp: Let_def split: if_splits)
next
  case (in_pop s e s') then show ?case by (cases "cons s") (auto simp: Let_def split: if_splits)
next
  case (in_size s e s') then show ?case by (cases "obs s") auto
qed (auto simp: begin_push_def begin_pop_def Let_def)

lemma reachable_cap: "reachable r s \<Longrightarrow> r_cap (ring s) = r_cap r"
  by (induction rule: reachable.induct) (auto simp: threads_init_def step_cap)

lemma producer_linear:
  assumes ok: "threads_ok s" and st: "producer_step (prod s) s = (e, s')"
  shows "queue_step (unat (r_cap (ring s))) (ring_contents (ring s)) e (ring_contents (ring s'))"
proof (cases "prod s")
  case (P_load_tail x h)
  have r: "ring_ok (ring s)" "h = r_head (ring s)" using ok P_load_tail by (auto simp: threads_ok_def)
  with st P_load_tail looks_full_iff [OF r(1) ring_ok_bounds(4) [OF r(1)]] show ?thesis
    by (auto simp: Let_def split: if_splits)
next
  case (P_store_slot x h)
  have r: "ring_ok (ring s)" "h = r_head (ring s)" "behind (ring s) (r_tail_cache (ring s)) < unat (r_cap (ring s))"
    using ok P_store_slot by (simp_all add: threads_ok_def)
  with st P_store_slot ring_slot_write(2) [OF r(1,3) refl, of x] show ?thesis by (auto simp: Let_def)
next
  case (P_store_head x h)
  have r: "ring_ok (ring s)" "h = r_head (ring s)" "behind (ring s) (r_tail_cache (ring s)) < unat (r_cap (ring s))"
    "r_slots (ring s) ! slot_of (ring s) (r_head (ring s)) = x"
    using ok P_store_head by (auto simp: threads_ok_def)
  have "length (ring_contents (ring s)) < unat (r_cap (ring s))" using r(1,3) by (simp add: ring_ok_def)
  with st P_store_head r(2) ring_publish(2) [OF r(1,3,4) refl] show ?thesis by auto
qed (use st in auto)

lemma consumer_linear:
  assumes ok: "threads_ok s" and st: "consumer_step (cons s) s = (e, s')"
  shows "queue_step (unat (r_cap (ring s))) (ring_contents (ring s)) e (ring_contents (ring s'))"
proof (cases "cons s")
  case (C_load_head t)
  have t: "t = r_tail (ring s)" using ok C_load_head by (auto simp: threads_ok_def)
  have "ring_contents (ring s) = []" if "r_tail (ring s) = r_head (ring s)"
    using that by (simp add: ring_contents_def)
  with st C_load_head t show ?thesis by (auto simp: Let_def split: if_splits)
next
  case (C_store_tail t x)
  have r: "ring_ok (ring s)" "t = r_tail (ring s)" "x = hd (ring_contents (ring s))"
    "behind (ring s) (r_head_cache (ring s)) < behind (ring s) (r_tail (ring s))"
    using ok C_store_tail by (auto simp: threads_ok_def)
  have "ring_contents (ring s) = x # ring_contents (ring s\<lparr>r_tail := r_tail (ring s) + 1\<rparr>)"
    using ring_read_ok(2) [OF r(1,4) refl] r(3) by (metis list.sel(1))
  moreover have "e = Popped x" "ring s' = ring s\<lparr>r_tail := r_tail (ring s) + 1\<rparr>"
    using st C_store_tail r(2) by auto
  ultimately show ?thesis by (metis queue_step.simps(3))
qed (use st in auto)

lemma step_linear:
  assumes "ring_step s e s'" and "threads_ok s"
  shows "queue_step (unat (r_cap (ring s))) (ring_contents (ring s)) e (ring_contents (ring s'))"
  using assms
proof (induction rule: ring_step.induct)
  case (in_size s e s') then show ?case by (cases "obs s") auto
qed (auto simp: begin_push_def begin_pop_def Let_def intro: producer_linear consumer_linear)

section \<open>Schedules\<close>

text \<open>A schedule names the thread that moves next; a move that is not possible is skipped.\<close>

datatype 'a move = Start_push 'a | Go_producer | Start_pop | Go_consumer | Go_observer

fun run_move :: "'a move \<Rightarrow> 'a threads \<Rightarrow> 'a threads" where
  "run_move (Start_push x) s = (case prod s of P_idle \<Rightarrow> begin_push x s | _ \<Rightarrow> s)"
| "run_move Go_producer s = (case prod s of P_idle \<Rightarrow> s | p \<Rightarrow> snd (producer_step p s))"
| "run_move Start_pop s = (case cons s of C_idle \<Rightarrow> begin_pop s | _ \<Rightarrow> s)"
| "run_move Go_consumer s = (case cons s of C_idle \<Rightarrow> s | c \<Rightarrow> snd (consumer_step c s))"
| "run_move Go_observer s = snd (observer_step (obs s) s)"

lemma run_move_reachable: "reachable r s \<Longrightarrow> reachable r (run_move mv s)"
proof (cases mv)
  case Go_producer
  assume "reachable r s"
  then show ?thesis
    using Go_producer ring_step.in_push [of s "fst (producer_step (prod s) s)" "snd (producer_step (prod s) s)"]
    by (cases "prod s") (auto intro: reachable.step)
next
  case Go_consumer
  assume "reachable r s"
  then show ?thesis
    using Go_consumer ring_step.in_pop [of s "fst (consumer_step (cons s) s)" "snd (consumer_step (cons s) s)"]
    by (cases "cons s") (auto intro: reachable.step)
next
  case Go_observer
  assume "reachable r s"
  then show ?thesis
    using Go_observer ring_step.in_size [of s "fst (observer_step (obs s) s)" "snd (observer_step (obs s) s)"]
    by (auto intro: reachable.step)
qed (auto intro: reachable.step ring_step.intros split: producer.split consumer.split)

lemma run_schedule_reachable: "reachable r (fold run_move mvs (threads_init r))"
proof -
  have "reachable r s \<Longrightarrow> reachable r (fold run_move mvs s)" for s
    by (induction mvs arbitrary: s) (auto intro: run_move_reachable)
  then show ?thesis by (simp add: reachable.init)
qed

section \<open>Properties\<close>

definition demo_ring :: "nat spsc_ring" where
  "demo_ring = \<lparr>r_cap = 2, r_mask = 1, r_slots = [0, 0], r_head = 0, r_tail_cache = 0,
                r_tail = 0, r_head_cache = 0\<rparr>"

lemma demo_ring_new: "ring_new 0 2 = Some demo_ring"
proof -
  have "pow2_loop 2 1 = Some 2"
    by (subst pow2_loop.simps, simp, subst pow2_loop.simps, simp)
  moreover have "replicate 2 (0 :: nat) = [0, 0]" by (simp add: numeral_2_eq_2)
  ultimately show ?thesis by (simp add: ring_new_def round_up_pow2_def demo_ring_def)
qed

lemma demo_ring_fresh: "fresh_ring demo_ring"
  using demo_ring_new by (auto simp: fresh_ring_def intro!: exI [of _ "2 :: u64"])

text \<open>The producer is about to write a second element while the consumer reads the first.\<close>

definition demo_busy :: "nat threads" where
  "demo_busy = fold run_move
     [Start_push 7, Go_producer, Go_producer, Start_pop, Go_consumer, Start_push 8]
     (threads_init demo_ring)"

lemma demo_busy_eq:
  "demo_busy = \<lparr>ring = demo_ring\<lparr>r_slots := [7, 0], r_head := 1, r_head_cache := 1\<rparr>,
     prod = P_store_slot 8 1, cons = C_read_slot 0, obs = O_idle, pushed = [7], popped = [], seen = 0\<rparr>"
  by (simp add: demo_busy_def threads_init_def demo_ring_def begin_push_def begin_pop_def slot_of_def Let_def)

text \<open>C4. Linearizability of the ring: in every interleaving of the producer's and the
  consumer's loads and stores, each access acts on the logical contents like the sequential
  bounded queue: a push appends at its release store, a pop removes the oldest element at its
  release store, and full and empty are reported only when the queue is full or empty at that
  very access.\<close>

theorem ring_linearizable:
  assumes "fresh_ring r" and "reachable r s" and "ring_step s e s'"
  shows "queue_step (unat (r_cap r)) (ring_contents (ring s)) e (ring_contents (ring s'))"
  using step_linear [OF assms(3) reachable_ok [OF assms(2,1)]] reachable_cap [OF assms(2)] by simp

theorem ring_linearizable_witness:
  "queue_step 2 [7] (Internal :: nat event)
     (ring_contents (ring (snd (producer_step (prod demo_busy) demo_busy))))"
proof -
  have st: "ring_step demo_busy Internal (snd (producer_step (prod demo_busy) demo_busy))"
    by (rule ring_step.in_push) (simp_all add: demo_busy_eq Let_def)
  have "reachable demo_ring demo_busy" unfolding demo_busy_def by (rule run_schedule_reachable)
  from ring_linearizable [OF demo_ring_fresh this st] show ?thesis
    by (simp add: demo_busy_eq ring_contents_def behind_def slot_of_def demo_ring_def)
qed

text \<open>Order and capacity: what has been popped is always a prefix of what has been pushed,
  and at most the capacity is in flight.\<close>

theorem ring_fifo:
  assumes "fresh_ring r" and "reachable r s"
  shows "take (length (popped s)) (pushed s) = popped s \<and> length (popped s) \<le> length (pushed s) \<and>
         length (pushed s) - length (popped s) \<le> unat (r_cap r)"
proof -
  have "threads_ok s" using reachable_ok [OF assms(2,1)] .
  moreover have "behind (ring s) (r_tail (ring s)) \<le> unat (r_cap r)"
    using \<open>threads_ok s\<close> ring_ok_bounds(4) reachable_cap [OF assms(2)] by (metis threads_ok_def)
  ultimately show ?thesis by (simp add: threads_ok_def)
qed

theorem ring_fifo_witness: "length (pushed demo_busy) - length (popped demo_busy) \<le> 2"
proof -
  have "reachable demo_ring demo_busy" unfolding demo_busy_def by (rule run_schedule_reachable)
  from ring_fifo [OF demo_ring_fresh this] show ?thesis by (simp add: demo_ring_def)
qed

text \<open>C15. No data race on a slot: when the producer is about to write a slot and the consumer is
  about to read one, they are different slots.\<close>

theorem ring_slots_race_free:
  assumes "fresh_ring r" and "reachable r s"
    and "prod s = P_store_slot x h" and "cons s = C_read_slot t"
  shows "slot_of (ring s) h \<noteq> slot_of (ring s) t"
proof
  assume eq: "slot_of (ring s) h = slot_of (ring s) t"
  let ?r = "ring s"
  have ok: "threads_ok s" using reachable_ok [OF assms(2,1)] .
  then have r: "ring_ok ?r" "h = r_head ?r" "t = r_tail ?r"
    "behind ?r (r_tail ?r) < unat (r_cap ?r)" "0 < behind ?r (r_tail ?r)"
    using assms(3,4) by (auto simp: threads_ok_def ring_ok_def)
  have "slot_of ?r (r_tail ?r + of_nat (behind ?r (r_tail ?r))) = slot_of ?r (r_tail ?r + of_nat 0)"
    using eq r(2,3) head_is_tail_plus [of ?r] by simp
  from slot_of_inj [OF ring_ok_bounds(1) [OF r(1)] r(4) _ this] r(4,5) show False by simp
qed

theorem ring_slots_race_free_witness: "slot_of (ring demo_busy) 1 \<noteq> slot_of (ring demo_busy) 0"
proof -
  have re: "reachable demo_ring demo_busy" unfolding demo_busy_def by (rule run_schedule_reachable)
  have "prod demo_busy = P_store_slot 8 1" "cons demo_busy = C_read_slot 0" by (simp_all add: demo_busy_eq)
  from ring_slots_race_free [OF demo_ring_fresh re this] show ?thesis .
qed

text \<open>How many own steps a pending call still needs.\<close>

fun producer_rank :: "'a producer \<Rightarrow> nat" where
  "producer_rank P_idle = 0"
| "producer_rank (P_store_head _ _) = 1"
| "producer_rank (P_store_slot _ _) = 2"
| "producer_rank (P_load_tail _ _) = 3"

fun consumer_rank :: "'a consumer \<Rightarrow> nat" where
  "consumer_rank C_idle = 0"
| "consumer_rank (C_store_tail _ _) = 1"
| "consumer_rank (C_read_slot _) = 2"
| "consumer_rank (C_load_head _) = 3"

lemma producer_own_step:
  assumes "prod s \<noteq> P_idle"
  shows "producer_rank (prod (snd (producer_step (prod s) s))) < producer_rank (prod s)"
    and "cons (snd (producer_step p s)) = cons s" and "obs (snd (producer_step p s)) = obs s"
  using assms by (cases "prod s"; simp add: Let_def) (cases p; simp add: Let_def)+

lemma consumer_own_step:
  assumes "cons s \<noteq> C_idle"
  shows "consumer_rank (cons (snd (consumer_step (cons s) s))) < consumer_rank (cons s)"
    and "prod (snd (consumer_step c s)) = prod s" and "obs (snd (consumer_step c s)) = obs s"
  using assms by (cases "cons s"; simp add: Let_def) (cases c; simp add: Let_def)+

text \<open>C21. Wait-freedom: a pending call can always take its next step, each own step brings it
  strictly closer to returning (at most three steps after the call), and no step of the other
  threads delays it.\<close>

theorem ring_wait_free:
  "(prod s = P_idle \<or> (\<exists>e s'. ring_step s e s' \<and> producer_rank (prod s') < producer_rank (prod s))) \<and>
   (cons s = C_idle \<or> (\<exists>e s'. ring_step s e s' \<and> consumer_rank (cons s') < consumer_rank (cons s))) \<and>
   producer_rank (prod (begin_push x s)) \<le> 3 \<and> consumer_rank (cons (begin_pop s)) \<le> 3 \<and>
   prod (begin_pop s) = prod s \<and> prod (snd (consumer_step c s)) = prod s \<and>
   cons (begin_push x s) = cons s \<and> cons (snd (producer_step p s)) = cons s \<and>
   prod (snd (observer_step ob s)) = prod s \<and> cons (snd (observer_step ob s)) = cons s"
proof -
  have "\<exists>e s'. ring_step s e s' \<and> producer_rank (prod s') < producer_rank (prod s)" if "prod s \<noteq> P_idle"
    using ring_step.in_push [OF that prod.collapse [symmetric]] producer_own_step(1) [OF that] by blast
  moreover have "\<exists>e s'. ring_step s e s' \<and> consumer_rank (cons s') < consumer_rank (cons s)" if "cons s \<noteq> C_idle"
    using ring_step.in_pop [OF that prod.collapse [symmetric]] consumer_own_step(1) [OF that] by blast
  moreover have "prod (snd (consumer_step c s)) = prod s" "cons (snd (producer_step p s)) = cons s"
    by (cases c; simp add: Let_def) (cases p; simp add: Let_def)
  moreover have "prod (snd (observer_step ob s)) = prod s" "cons (snd (observer_step ob s)) = cons s"
    by (cases ob; simp)+
  ultimately show ?thesis by (auto simp: begin_push_def begin_pop_def Let_def)
qed

text \<open>\<open>size_approx\<close> never underflows: reading \<open>tail_\<close> before \<open>head_\<close>, the value returned is
  the number of elements pushed so far minus the number popped when \<open>tail_\<close> was read, which is
  not negative; and a returned 0 means that the ring was empty at the second load.\<close>

theorem size_approx_no_underflow:
  assumes "fresh_ring r" and "reachable r s" and "obs s = O_load_head t"
    and "observer_step (obs s) s = (Size v, s')" and "length (pushed s) < 2 ^ 64"
  shows "seen s \<le> length (pushed s) \<and> unat v = length (pushed s) - seen s \<and>
         (v \<noteq> 0 \<or> ring_contents (ring s) = [])"
proof -
  have ok: "threads_ok s" using reachable_ok [OF assms(2,1)] .
  then have t: "t = of_nat (seen s)" "seen s \<le> length (popped s)"
    and p: "pushed s = popped s @ ring_contents (ring s)"
    using assms(3) by (auto simp: threads_ok_def)
  have "r_head (ring s) = of_nat (length (pushed s))"
    using ok head_is_tail_plus [of "ring s"] by (simp add: threads_ok_def)
  then have "v = of_nat (length (pushed s) - seen s)"
    using assms(3,4) t p by (auto simp: of_nat_diff)
  then have "unat v = length (pushed s) - seen s"
    using assms(5) by (simp add: unat_of_nat_small)
  with t(2) p show ?thesis by (auto simp: ring_contents_Nil)
qed

text \<open>The observer reads \<open>tail_\<close>, the consumer takes the only element, the observer reads
  \<open>head_\<close>.\<close>

definition demo_observed :: "nat threads" where
  "demo_observed = fold run_move
     [Start_push 7, Go_producer, Go_producer, Go_observer, Start_pop, Go_consumer, Go_consumer, Go_consumer]
     (threads_init demo_ring)"

lemma demo_observed_eq:
  "demo_observed = \<lparr>ring = demo_ring\<lparr>r_slots := [7, 0], r_head := 1, r_tail := 1, r_head_cache := 1\<rparr>,
     prod = P_idle, cons = C_idle, obs = O_load_head 0, pushed = [7], popped = [7], seen = 0\<rparr>"
  by (simp add: demo_observed_def threads_init_def demo_ring_def begin_push_def begin_pop_def slot_of_def Let_def)

theorem size_approx_no_underflow_witness:
  "seen demo_observed \<le> length (pushed demo_observed) \<and> unat (1 :: u64) = length (pushed demo_observed)"
proof -
  have re: "reachable demo_ring demo_observed" unfolding demo_observed_def by (rule run_schedule_reachable)
  have o: "obs demo_observed = O_load_head 0" by (simp add: demo_observed_eq)
  have "observer_step (obs demo_observed) demo_observed = (Size 1, demo_observed\<lparr>obs := O_idle\<rparr>)"
    "length (pushed demo_observed) < 2 ^ 64"
    by (simp_all add: demo_observed_eq demo_ring_def)
  from size_approx_no_underflow [OF demo_ring_fresh re o this] show ?thesis by (simp add: demo_observed_eq)
qed

text \<open>A non-zero \<open>size_approx\<close> does not mean that the ring is not empty: there is an
  execution in which it returns 1 although the ring is empty at that moment (the comment above
  the method calls this answer definite).\<close>

theorem size_approx_nonempty_not_definite:
  "\<exists>s s'. reachable demo_ring s \<and> ring_step s (Size 1) s' \<and> ring_contents (ring s) = []"
proof -
  have "reachable demo_ring demo_observed" unfolding demo_observed_def by (rule run_schedule_reachable)
  moreover have "ring_step demo_observed (Size 1) (demo_observed\<lparr>obs := O_idle\<rparr>)"
    by (rule ring_step.in_size) (simp add: demo_observed_eq demo_ring_def)
  moreover have "ring_contents (ring demo_observed) = []"
    by (simp add: demo_observed_eq ring_contents_def behind_def demo_ring_def)
  ultimately show ?thesis by blast
qed

end
