(* ===== verification/Feed_Threads.thy ===== *)
theory Feed_Threads
  imports Framing Spsc_Ring
begin

text \<open>
  The threads shared by \<^verbatim>\<open>replay_pipelined\<close> (\<^verbatim>\<open>include/feed/pipeline.hpp\<close>) and
  \<^verbatim>\<open>replay_sharded\<close> (\<^verbatim>\<open>include/feed/sharded_pipeline.hpp\<close>): one feeder walks the framed buffer
  and pushes each decoded message to the ring its route selects, spinning while that ring is
  full, and clears the \<open>producing\<close> flag at the end; each worker pops its own ring and applies
  what it gets, and after it has seen the flag cleared drains the ring once more before it
  leaves. A step is one call of \<open>push\<close> or \<open>pop\<close>, one access of the flag or one step of the frame
  walk; the ring's own interleavings are the subject of \<^verbatim>\<open>Ring_Threads\<close>.

  Everything is proved for any channel that meets \<open>fifo_channel\<close>: whatever the schedule, a
  worker ends with exactly the messages routed to it applied in feed order, and from every
  reachable state the run can be completed, so no schedule leads to a deadlock.
\<close>

section \<open>Feeder and workers\<close>

text \<open>\<open>Walk off\<close> is the head of the frame walk at an offset, \<open>Spin m off\<close> the sink call trying to
  push \<open>m\<close>, with the walk to be resumed at \<open>off\<close>.\<close>

datatype feeder = Walk nat | Spin Message nat | Ended

datatype worker_pc = K_pop | K_check | K_drain | K_done

record ('r, 's) fan =
  feeder :: feeder
  rings :: "'r list"
  producing :: bool
  worker_pcs :: "worker_pc list"
  states :: "'s list"
  sent :: nat

fun feeder_step ::
  "(Message \<Rightarrow> 'r \<Rightarrow> bool \<times> 'r) \<Rightarrow> (Message \<Rightarrow> nat) \<Rightarrow> bytes \<Rightarrow> feeder \<Rightarrow> ('r, 's) fan \<Rightarrow> ('r, 's) fan"
  where
  "feeder_step push route buf (Walk off) f =
     (let len = length buf
      in if off + 2 \<le> len \<and> rd_len buf off \<noteq> 0 \<and> off + 2 + rd_len buf off \<le> len
         then (case decode (Some (drop (off + 2) buf)) (rd_len buf off) Message_init of
                 (ok, m) \<Rightarrow> if ok then f\<lparr>feeder := Spin m (off + (2 + rd_len buf off))\<rparr>
                            else f\<lparr>feeder := Walk (off + (2 + rd_len buf off))\<rparr>)
         else f\<lparr>feeder := Ended, producing := False\<rparr>)"
| "feeder_step push route buf (Spin m off) f =
     (case push m (rings f ! route m) of
        (ok, r) \<Rightarrow>
          (let f' = f\<lparr>rings := (rings f)[route m := r]\<rparr>
           in if ok then f'\<lparr>feeder := Walk off, sent := sent f + 1\<rparr> else f'))"
| "feeder_step push route buf Ended f = f"

fun worker_step ::
  "('r \<Rightarrow> Message option \<times> 'r) \<Rightarrow> (Message \<Rightarrow> 's \<Rightarrow> 's) \<Rightarrow> bool \<Rightarrow> worker_pc \<Rightarrow> 'r \<Rightarrow> 's \<Rightarrow>
   worker_pc \<times> 'r \<times> 's" where
  "worker_step pop app prd K_pop r s =
     (case pop r of (Some m, r') \<Rightarrow> (K_pop, r', app m s) | (None, r') \<Rightarrow> (K_check, r', s))"
| "worker_step pop app prd K_check r s = (if prd then (K_pop, r, s) else (K_drain, r, s))"
| "worker_step pop app prd K_drain r s =
     (case pop r of (Some m, r') \<Rightarrow> (K_pop, r', app m s) | (None, r') \<Rightarrow> (K_done, r', s))"
| "worker_step pop app prd K_done r s = (K_done, r, s)"

definition work ::
  "('r \<Rightarrow> Message option \<times> 'r) \<Rightarrow> (Message \<Rightarrow> 's \<Rightarrow> 's) \<Rightarrow> nat \<Rightarrow> ('r, 's) fan \<Rightarrow> ('r, 's) fan" where
  "work pop app i f =
     (case worker_step pop app (producing f) (worker_pcs f ! i) (rings f ! i) (states f ! i) of
        (pc, r, s) \<Rightarrow> f\<lparr>worker_pcs := (worker_pcs f)[i := pc], rings := (rings f)[i := r],
                        states := (states f)[i := s]\<rparr>)"

inductive fan_step ::
  "(Message \<Rightarrow> 'r \<Rightarrow> bool \<times> 'r) \<Rightarrow> ('r \<Rightarrow> Message option \<times> 'r) \<Rightarrow> (Message \<Rightarrow> 's \<Rightarrow> 's) \<Rightarrow>
   (Message \<Rightarrow> nat) \<Rightarrow> bytes \<Rightarrow> ('r, 's) fan \<Rightarrow> ('r, 's) fan \<Rightarrow> bool"
  for push pop app route buf where
  by_feeder: "feeder f \<noteq> Ended \<Longrightarrow> fan_step push pop app route buf f (feeder_step push route buf (feeder f) f)"
| by_worker: "i < length (worker_pcs f) \<Longrightarrow> worker_pcs f ! i \<noteq> K_done \<Longrightarrow>
    fan_step push pop app route buf f (work pop app i f)"

abbreviation fan_steps ::
  "(Message \<Rightarrow> 'r \<Rightarrow> bool \<times> 'r) \<Rightarrow> ('r \<Rightarrow> Message option \<times> 'r) \<Rightarrow> (Message \<Rightarrow> 's \<Rightarrow> 's) \<Rightarrow>
   (Message \<Rightarrow> nat) \<Rightarrow> bytes \<Rightarrow> ('r, 's) fan \<Rightarrow> ('r, 's) fan \<Rightarrow> bool" where
  "fan_steps push pop app route buf \<equiv> (fan_step push pop app route buf)\<^sup>*\<^sup>*"

definition fan_init :: "'r list \<Rightarrow> 's list \<Rightarrow> ('r, 's) fan" where
  "fan_init rs ss = \<lparr>feeder = Walk 0, rings = rs, producing = True,
     worker_pcs = replicate (length rs) K_pop, states = ss, sent = 0\<rparr>"

definition fan_final :: "('r, 's) fan \<Rightarrow> bool" where
  "fan_final f \<longleftrightarrow> feeder f = Ended \<and> (\<forall>pc \<in> set (worker_pcs f). pc = K_done)"

section \<open>The invariant\<close>

fun remaining :: "bytes \<Rightarrow> feeder \<Rightarrow> Message list" where
  "remaining buf (Walk off) = framed_messages (drop off buf)"
| "remaining buf (Spin m off) = m # framed_messages (drop off buf)"
| "remaining buf Ended = []"

lemma framed_messages_at:
  assumes "off + 2 \<le> length buf" "rd_len buf off \<noteq> 0" "off + 2 + rd_len buf off \<le> length buf"
    and "decode (Some (drop (off + 2) buf)) (rd_len buf off) Message_init = (ok, m)"
  shows "framed_messages (drop off buf) =
     (if ok then [m] else []) @ framed_messages (drop (off + (2 + rd_len buf off)) buf)"
proof -
  let ?f = "take (rd_len buf off) (drop (off + 2) buf)"
  have "length ?f = rd_len buf off" using assms(3) by auto
  then have "decode_frame ?f = (if ok then Some m else None)"
    using decode_reads_len_bytes [of "rd_len buf off" "drop (off + 2) buf" Message_init] assms(4)
    by (simp add: decode_frame_def del: length_take)
  then show ?thesis
    using deframe_at [OF refl assms(1-3)] by (simp add: framed_messages_def map_filter_simps)
qed

definition routed :: "(Message \<Rightarrow> nat) \<Rightarrow> nat \<Rightarrow> Message list \<Rightarrow> Message list" where
  "routed route i ms = filter (\<lambda>m. route m = i) ms"

lemma routed_simps [simp]:
  "routed route i [] = []"
  "routed route i (m # ms) = (if route m = i then m # routed route i ms else routed route i ms)"
  "routed route i (ms @ ms') = routed route i ms @ routed route i ms'"
  by (simp_all add: routed_def)

text \<open>What the feeder still has to do, in bytes to walk and messages to push.\<close>

fun feeder_work :: "bytes \<Rightarrow> feeder \<Rightarrow> nat" where
  "feeder_work buf (Walk off) = 2 * (length buf - off) + 2"
| "feeder_work buf (Spin m off) = 2 * (length buf - off) + 3"
| "feeder_work buf Ended = 0"

lemma sum_change:
  fixes g h :: "nat \<Rightarrow> nat"
  assumes "k < n" and "\<And>j. j \<noteq> k \<Longrightarrow> g j = h j"
  shows "(\<Sum>j<n. g j) + h k = (\<Sum>j<n. h j) + g k"
proof -
  have "(\<Sum>j \<in> {..<n} - {k}. g j) = (\<Sum>j \<in> {..<n} - {k}. h j)" using assms(2) by (intro sum.cong) auto
  then show ?thesis
    using sum.remove [of "{..<n}" k g] sum.remove [of "{..<n}" k h] assms(1) by simp
qed

text \<open>
  One lane: what the worker has applied, then what its ring holds, then what the feeder still
  has for it, is everything routed to it; a worker past the check has seen the flag cleared.
\<close>

locale feed_channel = fifo_channel push pop ok contents capacity
  for push :: "Message \<Rightarrow> 'r \<Rightarrow> bool \<times> 'r" and pop ok contents capacity
begin

definition lane :: "(Message \<Rightarrow> 's \<Rightarrow> 's) \<Rightarrow> Message list \<Rightarrow> Message list \<Rightarrow> 's \<Rightarrow> bool \<Rightarrow>
    worker_pc \<Rightarrow> 'r \<Rightarrow> 's \<Rightarrow> bool" where
  "lane app all rest s0 prd pc r s \<longleftrightarrow>
     ok r \<and> (\<exists>ds. ds @ contents r @ rest = all \<and> s = fold app ds s0) \<and>
     (pc \<in> {K_drain, K_done} \<longrightarrow> \<not> prd) \<and> (pc = K_done \<longrightarrow> contents r = [])"

lemma lane_pop:
  assumes "lane app all rest s0 prd pc r s" and "pop r = (Some m, r')"
  shows "lane app all rest s0 prd K_pop r' (app m s)"
    and "length (contents r) = Suc (length (contents r'))"
proof -
  have r: "ok r" using assms(1) by (simp add: lane_def)
  note p = pop_cases [OF r assms(2)]
  obtain ds where "ds @ contents r @ rest = all" "s = fold app ds s0" using assms(1) by (auto simp: lane_def)
  then have "(ds @ [m]) @ contents r' @ rest = all \<and> app m s = fold app (ds @ [m]) s0" using p(3) by simp
  then show "lane app all rest s0 prd K_pop r' (app m s)" using p(1) unfolding lane_def by blast
  show "length (contents r) = Suc (length (contents r'))" using p(3) by simp
qed

lemma lane_pop_empty:
  assumes "lane app all rest s0 prd pc r s" and "pop r = (None, r')" and "pc' \<in> {K_drain, K_done} \<longrightarrow> \<not> prd"
  shows "lane app all rest s0 prd pc' r' s" and "contents r = []" and "contents r' = []"
proof -
  have r: "ok r" using assms(1) by (simp add: lane_def)
  note p = pop_cases [OF r assms(2)]
  show c: "contents r = []" "contents r' = []" using p(3,4) by simp_all
  show "lane app all rest s0 prd pc' r' s" using assms(1,3) c p(1) by (simp add: lane_def)
qed

text \<open>The weight of a lane: a worker that has seen the end is three program points from leaving.\<close>

definition weight :: "bool \<Rightarrow> worker_pc \<Rightarrow> 'r \<Rightarrow> nat" where
  "weight prd pc r = 4 * length (contents r) +
     (case pc of K_pop \<Rightarrow> if prd then 0 else 3 | K_check \<Rightarrow> if prd then 1 else 2 | K_drain \<Rightarrow> 1 | K_done \<Rightarrow> 0)"

lemma lane_worker:
  assumes l: "lane app all rest s0 prd pc r s" and st: "worker_step pop app prd pc r s = (pc', r', s')"
  shows "lane app all rest s0 prd pc' r' s'"
    and "pc \<noteq> K_done \<Longrightarrow> \<not> prd \<or> pc = K_check \<or> contents r \<noteq> [] \<Longrightarrow> weight prd pc' r' < weight prd pc r"
proof -
  obtain v q where p: "pop r = (v, q)" by fastforce
  have drain: "pc = K_drain \<Longrightarrow> \<not> prd" using l by (auto simp: lane_def)
  have "lane app all rest s0 prd pc' r' s' \<and>
    (pc \<noteq> K_done \<longrightarrow> \<not> prd \<or> pc = K_check \<or> contents r \<noteq> [] \<longrightarrow> weight prd pc' r' < weight prd pc r)"
  proof (cases v)
    case (Some m)
    with p have p: "pop r = (Some m, q)" by simp
    show ?thesis
      using st p l drain lane_pop [OF l p] by (cases pc) (auto simp: weight_def lane_def)
  next
    case None
    with p have p: "pop r = (None, q)" by simp
    note e = lane_pop_empty [OF l p]
    show ?thesis
    proof (cases pc)
      case K_pop
      with st p e [of K_check] show ?thesis by (auto simp: weight_def)
    next
      case K_drain
      with st p e [of K_done] drain show ?thesis by (auto simp: weight_def)
    qed (use st p l in \<open>auto simp: weight_def lane_def\<close>)
  qed
  then show "lane app all rest s0 prd pc' r' s'"
    "pc \<noteq> K_done \<Longrightarrow> \<not> prd \<or> pc = K_check \<or> contents r \<noteq> [] \<Longrightarrow> weight prd pc' r' < weight prd pc r"
    by auto
qed

definition fan_ok :: "(Message \<Rightarrow> 's \<Rightarrow> 's) \<Rightarrow> (Message \<Rightarrow> nat) \<Rightarrow> bytes \<Rightarrow> 's list \<Rightarrow> ('r, 's) fan \<Rightarrow> bool" where
  "fan_ok app route buf ss f \<longleftrightarrow>
     length (rings f) = length ss \<and> length (worker_pcs f) = length ss \<and> length (states f) = length ss \<and>
     (producing f \<longleftrightarrow> feeder f \<noteq> Ended) \<and>
     sent f + length (remaining buf (feeder f)) = length (framed_messages buf) \<and>
     (\<forall>i < length ss. lane app (routed route i (framed_messages buf)) (routed route i (remaining buf (feeder f)))
        (ss ! i) (producing f) (worker_pcs f ! i) (rings f ! i) (states f ! i))"

lemma fan_ok_init:
  assumes "length rs = length ss" and "\<forall>r \<in> set rs. ok r \<and> contents r = []"
  shows "fan_ok app route buf ss (fan_init rs ss)"
proof -
  have "lane app xs xs (ss ! i) True K_pop (rs ! i) (ss ! i)" if "i < length ss" for i xs
    using that assms by (auto simp: lane_def intro!: exI [of _ "[]"])
  then show ?thesis using assms(1) by (simp add: fan_ok_def fan_init_def)
qed

lemma fan_ok_work:
  assumes f: "fan_ok app route buf ss f" and i: "i < length ss"
  shows "fan_ok app route buf ss (work pop app i f)"
proof -
  obtain pc r s where st: "worker_step pop app (producing f) (worker_pcs f ! i) (rings f ! i) (states f ! i) = (pc, r, s)"
    by (cases "worker_step pop app (producing f) (worker_pcs f ! i) (rings f ! i) (states f ! i)") auto
  have "lane app (routed route i (framed_messages buf)) (routed route i (remaining buf (feeder f)))
      (ss ! i) (producing f) (worker_pcs f ! i) (rings f ! i) (states f ! i)"
    using f i unfolding fan_ok_def by blast
  note ln = lane_worker(1) [OF this st]
  have w: "work pop app i f = f\<lparr>worker_pcs := (worker_pcs f)[i := pc], rings := (rings f)[i := r],
      states := (states f)[i := s]\<rparr>"
    by (simp add: work_def st)
  show ?thesis using f i ln unfolding w by (auto simp: fan_ok_def nth_list_update)
qed

lemma lane_stop:
  "lane app all [] s0 prd pc r s \<Longrightarrow> lane app all [] s0 False pc r s"
  by (auto simp: lane_def)

lemma lane_push:
  assumes "lane app all (m # rest) s0 prd pc r s" and "push m r = (True, r')" and "prd"
  shows "lane app all rest s0 prd pc r' s"
  using assms push_cases [OF _ assms(2)] by (auto simp: lane_def)

lemma lane_push_full:
  assumes "lane app all rest s0 prd pc r s" and "push m r = (False, r')" and "prd"
  shows "lane app all rest s0 prd pc r' s"
  using assms push_cases [OF _ assms(2)] by (auto simp: lane_def)

lemma fan_ok_feeder:
  assumes f: "fan_ok app route buf ss f" and ne: "feeder f \<noteq> Ended" and route: "\<And>m. route m < length ss"
  shows "fan_ok app route buf ss (feeder_step push route buf (feeder f) f)"
proof (cases "feeder f")
  case (Walk off)
  let ?mlen = "rd_len buf off"
  show ?thesis
  proof (cases "off + 2 \<le> length buf \<and> ?mlen \<noteq> 0 \<and> off + 2 + ?mlen \<le> length buf")
    case True
    obtain ok' m where d: "decode (Some (drop (off + 2) buf)) ?mlen Message_init = (ok', m)" by fastforce
    have fm: "framed_messages (drop off buf) =
        (if ok' then [m] else []) @ framed_messages (drop (off + (2 + ?mlen)) buf)"
      using True d by (intro framed_messages_at) auto
    have "remaining buf (feeder (feeder_step push route buf (feeder f) f)) = remaining buf (feeder f)"
      using True d by (simp add: Walk fm Let_def)
    with f True d ne show ?thesis
      by (auto simp: fan_ok_def Walk Let_def)
  next
    case False
    then have "deframe (drop off buf) = []" by (intro deframe_at_Nil [OF refl]) auto
    then have "remaining buf (feeder f) = []" by (simp add: Walk framed_messages_def map_filter_simps)
    with f False show ?thesis by (auto simp: fan_ok_def Walk Let_def lane_stop)
  qed
next
  case (Spin m off)
  let ?k = "route m"
  obtain b r where p: "push m (rings f ! ?k) = (b, r)" by fastforce
  have prd: "producing f" using f ne by (simp add: fan_ok_def)
  have ln: "lane app (routed route i (framed_messages buf)) (routed route i (remaining buf (Spin m off)))
      (ss ! i) True (worker_pcs f ! i) (rings f ! i) (states f ! i)" if "i < length ss" for i
    using f that prd by (simp add: fan_ok_def Spin)
  show ?thesis
  proof (cases b)
    case True
    have "lane app (routed route i (framed_messages buf)) (routed route i (remaining buf (Walk off)))
      (ss ! i) True (worker_pcs f ! i) ((rings f)[?k := r] ! i) (states f ! i)" if "i < length ss" for i
      using ln [OF that] lane_push [of app _ m _ _ True _ "rings f ! ?k" _ r] p True f that
      by (cases "i = ?k") (auto simp: fan_ok_def)
    with f p True prd show ?thesis by (auto simp: fan_ok_def Spin Let_def)
  next
    case False
    have "lane app (routed route i (framed_messages buf)) (routed route i (remaining buf (Spin m off)))
      (ss ! i) True (worker_pcs f ! i) ((rings f)[?k := r] ! i) (states f ! i)" if "i < length ss" for i
      using ln [OF that] lane_push_full [OF ln [OF that], of m r] p False f that
      by (cases "i = ?k") (auto simp: fan_ok_def)
    with f p False prd show ?thesis by (auto simp: fan_ok_def Spin Let_def)
  qed
qed (use ne in simp)

lemma fan_ok_step:
  assumes "fan_step push pop app route buf f f'" and "fan_ok app route buf ss f" and "\<And>m. route m < length ss"
  shows "fan_ok app route buf ss f'"
  using assms(1)
proof cases
  case by_feeder
  with assms show ?thesis using fan_ok_feeder by blast
next
  case (by_worker i)
  with assms(2) have "i < length ss" by (simp add: fan_ok_def)
  with by_worker assms(2) show ?thesis by (simp add: fan_ok_work)
qed

lemma fan_ok_steps:
  assumes "fan_steps push pop app route buf f f'" and "fan_ok app route buf ss f" and "\<And>m. route m < length ss"
  shows "fan_ok app route buf ss f'"
  using assms(1,2) by (induction rule: rtranclp_induct) (auto intro: fan_ok_step [OF _ _ assms(3)])

text \<open>A finished run: each worker applied exactly the messages routed to it, in feed order.\<close>

lemma fan_final_states:
  assumes "fan_ok app route buf ss f" and "fan_final f"
  shows "states f = map (\<lambda>i. fold app (routed route i (framed_messages buf)) (ss ! i)) [0..<length ss]"
    and "sent f = length (framed_messages buf)"
proof -
  have "states f ! i = fold app (routed route i (framed_messages buf)) (ss ! i)" if "i < length ss" for i
  proof -
    have "worker_pcs f ! i = K_done" using assms that by (auto simp: fan_final_def fan_ok_def)
    then show ?thesis using assms that by (auto simp: fan_ok_def fan_final_def lane_def)
  qed
  then show "states f = map (\<lambda>i. fold app (routed route i (framed_messages buf)) (ss ! i)) [0..<length ss]"
    using assms(1) by (intro nth_equalityI) (auto simp: fan_ok_def)
  show "sent f = length (framed_messages buf)" using assms by (simp add: fan_ok_def fan_final_def)
qed

text \<open>Work left: the feeder's, then the lanes'.\<close>

definition fan_weight :: "bytes \<Rightarrow> nat \<Rightarrow> ('r, 's) fan \<Rightarrow> nat" where
  "fan_weight buf n f = 8 * Suc n * feeder_work buf (feeder f) +
     (\<Sum>i<n. weight (producing f) (worker_pcs f ! i) (rings f ! i))"

lemma weight_stop: "weight False pc r \<le> weight True pc r + 3"
  by (cases pc) (simp_all add: weight_def)

lemma fan_weight_work:
  assumes f: "fan_ok app route buf ss f" and i: "i < length ss" "worker_pcs f ! i \<noteq> K_done"
    and go: "\<not> producing f \<or> worker_pcs f ! i = K_check \<or> contents (rings f ! i) \<noteq> []"
  shows "fan_weight buf (length ss) (work pop app i f) < fan_weight buf (length ss) f"
proof -
  obtain pc r s where st: "worker_step pop app (producing f) (worker_pcs f ! i) (rings f ! i) (states f ! i) = (pc, r, s)"
    by (cases "worker_step pop app (producing f) (worker_pcs f ! i) (rings f ! i) (states f ! i)") auto
  have "lane app (routed route i (framed_messages buf)) (routed route i (remaining buf (feeder f)))
      (ss ! i) (producing f) (worker_pcs f ! i) (rings f ! i) (states f ! i)"
    using f i unfolding fan_ok_def by blast
  from lane_worker(2) [OF this st i(2) go]
  have less: "weight (producing f) pc r < weight (producing f) (worker_pcs f ! i) (rings f ! i)" .
  have len: "length (worker_pcs f) = length ss" "length (rings f) = length ss" using f by (auto simp: fan_ok_def)
  have "(\<Sum>j<length ss. weight (producing f) ((worker_pcs f)[i := pc] ! j) ((rings f)[i := r] ! j)) +
      weight (producing f) (worker_pcs f ! i) (rings f ! i) =
      (\<Sum>j<length ss. weight (producing f) (worker_pcs f ! j) (rings f ! j)) + weight (producing f) pc r"
    using sum_change [OF i(1), of "\<lambda>j. weight (producing f) ((worker_pcs f)[i := pc] ! j) ((rings f)[i := r] ! j)"
        "\<lambda>j. weight (producing f) (worker_pcs f ! j) (rings f ! j)"] i(1) len by simp
  with less show ?thesis by (simp add: fan_weight_def work_def st)
qed

lemma fan_weight_walk:
  assumes f: "fan_ok app route buf ss f" and w: "feeder f = Walk off"
  shows "fan_weight buf (length ss) (feeder_step push route buf (feeder f) f) < fan_weight buf (length ss) f"
proof (cases "off + 2 \<le> length buf \<and> rd_len buf off \<noteq> 0 \<and> off + 2 + rd_len buf off \<le> length buf")
  case True
  obtain ok' m where d: "decode (Some (drop (off + 2) buf)) (rd_len buf off) Message_init = (ok', m)" by fastforce
  define g where "g = (if ok' then Spin m (off + (2 + rd_len buf off)) else Walk (off + (2 + rd_len buf off)))"
  have f': "feeder_step push route buf (feeder f) f = f\<lparr>feeder := g\<rparr>"
    using True d by (simp add: w g_def Let_def)
  have "feeder_work buf g < feeder_work buf (feeder f)" using True by (auto simp: w g_def)
  then have "8 * Suc (length ss) * feeder_work buf g < 8 * Suc (length ss) * feeder_work buf (feeder f)"
    by (intro mult_strict_left_mono) auto
  then show ?thesis unfolding fan_weight_def f' by simp
next
  case False
  let ?S = "\<lambda>p. \<Sum>i<length ss. weight p (worker_pcs f ! i) (rings f ! i)"
  have "?S False \<le> (\<Sum>i<length ss. weight True (worker_pcs f ! i) (rings f ! i) + 3)"
    by (intro sum_mono weight_stop)
  then have "?S False \<le> ?S True + 3 * length ss" by (simp add: sum.distrib)
  moreover have "producing f" using f w by (simp add: fan_ok_def)
  moreover have "feeder_step push route buf (feeder f) f = f\<lparr>feeder := Ended, producing := False\<rparr>"
    using False by (auto simp: w Let_def)
  ultimately show ?thesis unfolding fan_weight_def by (simp add: w)
qed

lemma fan_weight_push:
  assumes f: "fan_ok app route buf ss f" and w: "feeder f = Spin m off" and k: "route m < length ss"
    and room: "length (contents (rings f ! route m)) < capacity (rings f ! route m)"
  shows "fan_weight buf (length ss) (feeder_step push route buf (feeder f) f) < fan_weight buf (length ss) f"
proof -
  let ?k = "route m" and ?p = "producing f"
  obtain b r where p: "push m (rings f ! ?k) = (b, r)" by fastforce
  have "ok (rings f ! ?k)" using f k by (auto simp: fan_ok_def lane_def)
  from push_cases [OF this p] room have b: "b" and c: "contents r = contents (rings f ! ?k) @ [m]" by simp_all
  have len: "length (rings f) = length ss" using f by (simp add: fan_ok_def)
  have "(\<Sum>j<length ss. weight ?p (worker_pcs f ! j) ((rings f)[?k := r] ! j)) +
      weight ?p (worker_pcs f ! ?k) (rings f ! ?k) =
      (\<Sum>j<length ss. weight ?p (worker_pcs f ! j) (rings f ! j)) + weight ?p (worker_pcs f ! ?k) r"
    using sum_change [OF k, of "\<lambda>j. weight ?p (worker_pcs f ! j) ((rings f)[?k := r] ! j)"
        "\<lambda>j. weight ?p (worker_pcs f ! j) (rings f ! j)"] k len by simp
  moreover have "weight ?p (worker_pcs f ! ?k) r = weight ?p (worker_pcs f ! ?k) (rings f ! ?k) + 4"
    by (simp add: weight_def c)
  ultimately show ?thesis using b p unfolding fan_weight_def by (simp add: w Let_def add_mult_distrib2)
qed

lemma fan_progress:
  assumes f: "fan_ok app route buf ss f" and nf: "\<not> fan_final f" and route: "\<And>m. route m < length ss"
  obtains f' where "fan_step push pop app route buf f f'" "fan_weight buf (length ss) f' < fan_weight buf (length ss) f"
proof (cases "feeder f")
  case (Walk off)
  then show ?thesis by (intro that [OF fan_step.by_feeder fan_weight_walk [OF f Walk]]) simp
next
  case (Spin m off)
  let ?k = "route m"
  have k: "?k < length ss" by (rule route)
  have len: "length (worker_pcs f) = length ss" using f by (simp add: fan_ok_def)
  have ln: "lane app (routed route ?k (framed_messages buf)) (routed route ?k (remaining buf (feeder f)))
      (ss ! ?k) True (worker_pcs f ! ?k) (rings f ! ?k) (states f ! ?k)"
  proof -
    have "producing f" using f Spin by (simp add: fan_ok_def)
    moreover have "lane app (routed route ?k (framed_messages buf)) (routed route ?k (remaining buf (feeder f)))
      (ss ! ?k) (producing f) (worker_pcs f ! ?k) (rings f ! ?k) (states f ! ?k)"
      using f k unfolding fan_ok_def by blast
    ultimately show ?thesis by simp
  qed
  then have okr: "ok (rings f ! ?k)" and nd: "worker_pcs f ! ?k \<notin> {K_drain, K_done}" by (auto simp: lane_def)
  show ?thesis
  proof (cases "length (contents (rings f ! ?k)) < capacity (rings f ! ?k)")
    case True
    with Spin show ?thesis by (intro that [OF fan_step.by_feeder fan_weight_push [OF f Spin k]]) simp_all
  next
    case False
    then have "contents (rings f ! ?k) \<noteq> []" using capacity_pos [OF okr] by auto
    with nd len k show ?thesis by (intro that [OF fan_step.by_worker fan_weight_work [OF f k]]) auto
  qed
next
  case Ended
  then obtain i where i: "i < length (worker_pcs f)" "worker_pcs f ! i \<noteq> K_done"
    using nf by (auto simp: fan_final_def in_set_conv_nth)
  moreover have "\<not> producing f" "length (worker_pcs f) = length ss" using f Ended by (auto simp: fan_ok_def)
  ultimately show ?thesis by (intro that [OF fan_step.by_worker fan_weight_work [OF f, of i]]) auto
qed

lemma fan_completes:
  assumes "fan_ok app route buf ss f" and "\<And>m. route m < length ss"
  shows "\<exists>f'. fan_steps push pop app route buf f f' \<and> fan_final f'"
  using assms(1)
proof (induction "fan_weight buf (length ss) f" arbitrary: f rule: less_induct)
  case less
  show ?case
  proof (cases "fan_final f")
    case False
    obtain f1 where st: "fan_step push pop app route buf f f1" "fan_weight buf (length ss) f1 < fan_weight buf (length ss) f"
      by (rule fan_progress [OF less.prems False assms(2)])
    from less.hyps [OF st(2) fan_ok_step [OF st(1) less.prems assms(2)]] st(1)
    show ?thesis by (meson converse_rtranclp_into_rtranclp)
  qed auto
qed

end

interpretation ring_feed: feed_channel ring_push ring_pop ring_ok ring_contents "\<lambda>r. unat (r_cap r)"
  by unfold_locales

end
