(* ===== verification/Pipeline.thy ===== *)
theory Pipeline
  imports Feed_Threads Book_Set
begin

text \<open>
  The three ways to replay a framed ITCH stream: on the calling thread, through the two-stage
  pipeline (\<^verbatim>\<open>include/feed/pipeline.hpp\<close>) and sharded over worker threads
  (\<^verbatim>\<open>include/feed/sharded_pipeline.hpp\<close>). The threaded replays are the feeder and workers of
  \<^verbatim>\<open>Feed_Threads\<close> over the SPSC ring; whatever the schedule, they end with the books of the
  single-threaded replay, and every schedule can be completed.
\<close>

section \<open>Definitions\<close>

text \<open>The consumer's \<open>book.apply(m); ++applied\<close>, also the sink of the single-threaded replay.\<close>

definition count_apply :: "Message \<Rightarrow> map_book \<times> nat \<Rightarrow> map_book \<times> nat" where
  "count_apply m = (\<lambda>(b, n). (book_apply MapLevels m b, n + 1))"

definition replay_single_threaded :: "bytes \<Rightarrow> nat \<Rightarrow> map_book \<Rightarrow> nat \<times> map_book" where
  "replay_single_threaded buf len book =
     (let (off, (b, n)) = for_each_framed_message buf len count_apply (book, 0) in (n, b))"

text \<open>The state in which the threads of \<^verbatim>\<open>replay_pipelined\<close> start; \<open>None\<close> when the ring's
  constructor does not return.\<close>

definition pipelined_start :: "u64 \<Rightarrow> map_book \<Rightarrow> (Message spsc_ring, map_book \<times> nat) fan option" where
  "pipelined_start ring_cap book =
     (case ring_new Message_init ring_cap of
        None \<Rightarrow> None | Some r \<Rightarrow> Some (fan_init [r] [(book, 0)]))"

definition pipelined_steps ::
  "bytes \<Rightarrow> (Message spsc_ring, map_book \<times> nat) fan \<Rightarrow> (Message spsc_ring, map_book \<times> nat) fan \<Rightarrow> bool" where
  "pipelined_steps buf = fan_steps ring_push ring_pop count_apply (\<lambda>m. 0) buf"

text \<open>The book and the return value of \<^verbatim>\<open>replay_pipelined\<close> once the threads have finished.\<close>

definition pipelined_result :: "(Message spsc_ring, map_book \<times> nat) fan \<Rightarrow> nat \<times> map_book" where
  "pipelined_result f = (snd (states f ! 0), fst (states f ! 0))"

definition shard_of :: "u32 \<Rightarrow> u16 \<Rightarrow> nat" where
  "shard_of W locate = unat ((ucast locate * 2654435761 :: u32) mod W)"

definition sharded_workers :: "u32 \<Rightarrow> u32" where
  "sharded_workers n_workers = (if n_workers < 1 then 1 else n_workers)"

definition sharded_start :: "u32 \<Rightarrow> (Message spsc_ring, book_set) fan option" where
  "sharded_start W =
     (case ring_new Message_init 4096 of
        None \<Rightarrow> None
      | Some r \<Rightarrow> Some (fan_init (replicate (unat W) r) (replicate (unat W) bs_new)))"

definition sharded_steps ::
  "u32 \<Rightarrow> bytes \<Rightarrow> (Message spsc_ring, book_set) fan \<Rightarrow> (Message spsc_ring, book_set) fan \<Rightarrow> bool" where
  "sharded_steps W buf = fan_steps ring_push ring_pop bs_apply (\<lambda>m. shard_of W (stock_locate m)) buf"

definition sharded_result :: "(Message spsc_ring, book_set) fan \<Rightarrow> book_set \<Rightarrow> nat \<times> book_set" where
  "sharded_result f out = (sent f, merge_all (states f) out)"

section \<open>The single-threaded replay\<close>

lemma fold_count_apply:
  "fold count_apply ms (b, n) = (fold (book_apply MapLevels) ms b, n + length ms)"
  by (induction ms arbitrary: b n) (simp_all add: count_apply_def)

lemma replay_single_eq:
  "replay_single_threaded buf (length buf) book =
     (length (framed_messages buf), fold (book_apply MapLevels) (framed_messages buf) book)"
  by (simp add: replay_single_threaded_def for_each_framed_eq fold_count_apply)

section \<open>The pipeline\<close>

lemma ring_new_fresh:
  assumes "ring_new dflt c = Some r"
  shows "ring_ok r \<and> ring_contents r = []"
proof -
  have "\<not> unat c > 2 ^ 63"
    using assms round_up_pow2_diverges [of c] by (auto simp: ring_new_def)
  then have "unat c \<le> 2 ^ 63" by simp
  then obtain r' where "ring_new dflt c = Some r'" "ring_ok r'" "ring_contents r' = []"
    by (rule ring_new_ok)
  with assms show ?thesis by simp
qed

lemma routed_all: "routed (\<lambda>m. 0) 0 ms = ms"
  by (simp add: routed_def)

lemma pipelined_ok:
  assumes "pipelined_start c book = Some f0" and "pipelined_steps buf f0 f"
  shows "ring_feed.fan_ok count_apply (\<lambda>m. 0) buf [(book, 0)] f"
proof -
  obtain r where r: "ring_new Message_init c = Some r" "f0 = fan_init [r] [(book, 0)]"
    using assms(1) by (auto simp: pipelined_start_def split: option.splits)
  have "ring_feed.fan_ok count_apply (\<lambda>m. 0) buf [(book, 0)] f0"
    unfolding r(2) using ring_new_fresh [OF r(1)] by (intro ring_feed.fan_ok_init) auto
  then show ?thesis
    using ring_feed.fan_ok_steps [OF assms(2) [unfolded pipelined_steps_def]] by simp
qed

lemma pipelined_final:
  assumes "pipelined_start c book = Some f0" and "pipelined_steps buf f0 f" and "fan_final f"
  shows "pipelined_result f = replay_single_threaded buf (length buf) book"
  using ring_feed.fan_final_states(1) [OF pipelined_ok [OF assms(1,2)] assms(3)]
  by (simp add: pipelined_result_def routed_all fold_count_apply replay_single_eq)

lemma pipelined_finishes:
  assumes "pipelined_start c book = Some f0" and "pipelined_steps buf f0 f"
  shows "\<exists>f'. pipelined_steps buf f f' \<and> fan_final f'"
  using ring_feed.fan_completes [OF pipelined_ok [OF assms]] by (simp add: pipelined_steps_def)

section \<open>The sharded replay\<close>

lemma shard_of_less: "W \<noteq> 0 \<Longrightarrow> shard_of W l < unat W"
  by (simp add: shard_of_def unat_mod unat_gt_0 word_neq_0_conv)

lemma sharded_ok:
  assumes "sharded_start W = Some f0" and "sharded_steps W buf f0 f" and "W \<noteq> 0"
  shows "ring_feed.fan_ok bs_apply (\<lambda>m. shard_of W (stock_locate m)) buf (replicate (unat W) bs_new) f"
proof -
  obtain r where r: "ring_new Message_init 4096 = Some r"
    "f0 = fan_init (replicate (unat W) r) (replicate (unat W) bs_new)"
    using assms(1) by (auto simp: sharded_start_def split: option.splits)
  have "ring_feed.fan_ok bs_apply (\<lambda>m. shard_of W (stock_locate m)) buf (replicate (unat W) bs_new) f0"
    unfolding r(2) using ring_new_fresh [OF r(1)] by (intro ring_feed.fan_ok_init) auto
  then show ?thesis
    using ring_feed.fan_ok_steps [OF assms(2) [unfolded sharded_steps_def]] shard_of_less [OF assms(3)]
    by simp
qed

lemma sharded_final:
  assumes "sharded_start W = Some f0" and "sharded_steps W buf f0 f" and "W \<noteq> 0" and "fan_final f"
  shows "states f = shard_sets (shard_of W) (unat W) (framed_messages buf)"
    and "sent f = length (framed_messages buf)"
proof -
  note fs = ring_feed.fan_final_states [OF sharded_ok [OF assms(1-3)] assms(4)]
  show "sent f = length (framed_messages buf)" by (rule fs(2))
  show "states f = shard_sets (shard_of W) (unat W) (framed_messages buf)"
    unfolding fs(1) by (simp add: shard_sets_def bs_run_def routed_def)
qed

section \<open>Properties\<close>

definition demo_stream :: bytes where
  "demo_stream = frames [body_A 1 0 7 CHR ''B'' 100 1000000, body_E 1 0 7 40 1]"

text \<open>C7. Pipeline parity: in whatever order the producer and consumer threads run, a finished
  \<^verbatim>\<open>replay_pipelined\<close> returns the count and leaves the book of \<^verbatim>\<open>replay_single_threaded\<close>, for
  every byte stream, starting book and ring capacity.\<close>

theorem pipelined_equals_single:
  assumes "pipelined_start ring_cap book = Some f0" and "pipelined_steps buf f0 f" and "fan_final f"
  shows "pipelined_result f = replay_single_threaded buf (length buf) book"
  using assms by (rule pipelined_final)

theorem pipelined_equals_single_witness:
  "\<exists>f0 f. pipelined_start 4 (book_new MapLevels) = Some f0 \<and> pipelined_steps demo_stream f0 f \<and>
     fan_final f \<and>
     pipelined_result f = replay_single_threaded demo_stream (length demo_stream) (book_new MapLevels)"
proof -
  obtain r where "ring_new Message_init 4 = Some r" by (rule ring_new_ok [of 4 Message_init]) simp
  then obtain f0 where f0: "pipelined_start 4 (book_new MapLevels) = Some f0" by (simp add: pipelined_start_def)
  have "pipelined_steps demo_stream f0 f0" by (simp add: pipelined_steps_def)
  from pipelined_finishes [OF f0 this] obtain f where f: "pipelined_steps demo_stream f0 f" "fan_final f" by blast
  from pipelined_equals_single [OF f0 f] f0 f show ?thesis by blast
qed

text \<open>C10. The pipeline cannot get stuck: from every state any schedule reaches (full ring, empty
  ring, flag already cleared) the run can be completed, and it then has the single-threaded
  result.\<close>

theorem pipelined_completes:
  assumes "pipelined_start ring_cap book = Some f0" and "pipelined_steps buf f0 f"
  shows "\<exists>f'. pipelined_steps buf f f' \<and> fan_final f' \<and>
           pipelined_result f' = replay_single_threaded buf (length buf) book"
proof -
  obtain f' where f': "pipelined_steps buf f f'" "fan_final f'" using pipelined_finishes [OF assms] by blast
  then have "pipelined_steps buf f0 f'" using assms(2) unfolding pipelined_steps_def by (meson rtranclp_trans)
  with f' pipelined_final [OF assms(1) this f'(2)] show ?thesis by blast
qed

theorem pipelined_completes_witness:
  "\<exists>f0. pipelined_start 2 (book_new MapLevels) = Some f0 \<and>
     (\<exists>f'. pipelined_steps demo_stream f0 f' \<and> fan_final f')"
proof -
  obtain r where "ring_new Message_init 2 = Some r" by (rule ring_new_ok [of 2 Message_init]) simp
  then obtain f0 where f0: "pipelined_start 2 (book_new MapLevels) = Some f0" by (simp add: pipelined_start_def)
  have "pipelined_steps demo_stream f0 f0" by (simp add: pipelined_steps_def)
  from pipelined_completes [OF f0 this] f0 show ?thesis by blast
qed

lemma sharded_parity:
  assumes "W = sharded_workers n_workers" and "sharded_start W = Some f0"
    and "sharded_steps W buf f0 f" and "fan_final f"
  shows "fst (sharded_result f bs_new) = length (framed_messages buf) \<and>
         same_set (snd (sharded_result f bs_new))
           (snd (for_each_framed_message buf (length buf) bs_apply bs_new))"
proof -
  have W: "W \<noteq> 0" by (auto simp: assms(1) sharded_workers_def)
  note fin = sharded_final [OF assms(2,3) W assms(4)]
  show ?thesis
    using merge_shards [of "shard_of W" "unat W" "framed_messages buf"] shard_of_less [OF W] fin
    by (simp add: sharded_result_def for_each_framed_eq bs_run_def)
qed

text \<open>C8. Sharding parity: for any number of workers and any schedule, a finished
  \<^verbatim>\<open>replay_sharded\<close> into an empty set returns the number of messages and leaves a set with the
  same book and symbol for every locate as applying the feed to one set on one thread.\<close>

theorem sharded_equals_single:
  assumes "W = sharded_workers n_workers" and "sharded_start W = Some f0"
    and "sharded_steps W buf f0 f" and "fan_final f"
  shows "fst (sharded_result f bs_new) = length (framed_messages buf) \<and>
         same_set (snd (sharded_result f bs_new))
           (snd (for_each_framed_message buf (length buf) bs_apply bs_new))"
  by (rule sharded_parity [OF assms])

theorem sharded_equals_single_witness:
  "\<exists>f0 f. sharded_start 3 = Some f0 \<and> sharded_steps 3 demo_stream f0 f \<and> fan_final f \<and>
     same_set (snd (sharded_result f bs_new))
       (snd (for_each_framed_message demo_stream (length demo_stream) bs_apply bs_new))"
proof -
  obtain r where "ring_new Message_init 4096 = Some r" by (rule ring_new_ok [of 4096 Message_init]) simp
  then obtain f0 where f0: "sharded_start 3 = Some f0" by (simp add: sharded_start_def)
  have s0: "sharded_steps 3 demo_stream f0 f0" by (simp add: sharded_steps_def)
  obtain f where f: "sharded_steps 3 demo_stream f0 f" "fan_final f"
    using ring_feed.fan_completes [OF sharded_ok [OF f0 s0]] shard_of_less [of 3]
    by (auto simp: sharded_steps_def)
  have "3 = sharded_workers 3" by (simp add: sharded_workers_def)
  from sharded_equals_single [OF this f0 f] f0 f show ?thesis by blast
qed

text \<open>The sharded replay cannot get stuck either: from every reachable state it can be
  completed, whatever the back-pressure of the full rings.\<close>

theorem sharded_completes:
  assumes "W = sharded_workers n_workers" and "sharded_start W = Some f0" and "sharded_steps W buf f0 f"
  shows "\<exists>f'. sharded_steps W buf f f' \<and> fan_final f'"
proof -
  have W: "W \<noteq> 0" by (auto simp: assms(1) sharded_workers_def)
  from ring_feed.fan_completes [OF sharded_ok [OF assms(2,3) W]] shard_of_less [OF W]
  show ?thesis by (simp add: sharded_steps_def)
qed

theorem sharded_completes_witness:
  "\<exists>f0. sharded_start 2 = Some f0 \<and> (\<exists>f'. sharded_steps 2 demo_stream f0 f' \<and> fan_final f')"
proof -
  obtain r where "ring_new Message_init 4096 = Some r" by (rule ring_new_ok [of 4096 Message_init]) simp
  then obtain f0 where f0: "sharded_start 2 = Some f0" by (simp add: sharded_start_def)
  have s0: "sharded_steps 2 demo_stream f0 f0" by (simp add: sharded_steps_def)
  have "2 = sharded_workers 2" by (simp add: sharded_workers_def)
  from sharded_completes [OF this f0 s0] f0 show ?thesis by blast
qed

end
