(* ===== verification/Float_Env.thy ===== *)
theory Float_Env
  imports Core_Types Complex_Main
begin

text \<open>
  Floating-point arithmetic as the components use it: values are rationals, and the two roundings
  (to \<^verbatim>\<open>long double\<close> and to \<^verbatim>\<open>double\<close>) are a parameter of the model, applied wherever the code
  rounds. What a property needs of the floating-point unit is a named hypothesis on them.
\<close>

record fp_env =
  fp_long :: "rat \<Rightarrow> rat"
  fp_double :: "rat \<Rightarrow> rat"

definition to_dollars :: "fp_env \<Rightarrow> Price \<Rightarrow> rat" where
  "to_dollars fp ticks = fp_double fp (fp_double fp (of_int ticks) / fp_double fp (of_int kPriceScale))"

text \<open>
  Both roundings are monotone, \<^verbatim>\<open>long double\<close> holds every integer below \<open>2 ^ 64\<close> (its 64-bit
  significand on x86) and \<^verbatim>\<open>double\<close> every integer below \<open>2 ^ 53\<close>.
\<close>

definition fp_ok :: "fp_env \<Rightarrow> bool" where
  "fp_ok fp \<longleftrightarrow>
     mono (fp_long fp) \<and> mono (fp_double fp) \<and>
     (\<forall>i :: int. \<bar>i\<bar> < 2 ^ 64 \<longrightarrow> fp_long fp (of_int i) = of_int i) \<and>
     (\<forall>i :: int. \<bar>i\<bar> < 2 ^ 53 \<longrightarrow> fp_double fp (of_int i) = of_int i)"

text \<open>Half-integers of that size are doubles too; a double stays itself when rounded again, so does
  twice a double (away from overflow), and rounding to nearest is symmetric.\<close>

definition fp_halves :: "fp_env \<Rightarrow> bool" where
  "fp_halves fp \<longleftrightarrow> (\<forall>i :: int. \<bar>i\<bar> < 2 ^ 53 \<longrightarrow> fp_double fp (of_int i / 2) = of_int i / 2)"

definition fp_doubles :: "fp_env \<Rightarrow> bool" where
  "fp_doubles fp \<longleftrightarrow>
     (\<forall>x. fp_double fp (fp_double fp x) = fp_double fp x) \<and>
     (\<forall>x. \<bar>x\<bar> \<le> 2 ^ 64 \<longrightarrow> fp_double fp (2 * fp_double fp x) = 2 * fp_double fp x) \<and>
     (\<forall>x. fp_double fp (- x) = - fp_double fp x)"

text \<open>The relative error of rounding to nearest in the normal range.\<close>

definition fp_close :: "fp_env \<Rightarrow> bool" where
  "fp_close fp \<longleftrightarrow> (\<forall>x. \<bar>x\<bar> \<ge> 1 / 2 ^ 1022 \<longrightarrow> \<bar>fp_double fp x - x\<bar> \<le> \<bar>x\<bar> / 2 ^ 53)"

text \<open>Exact arithmetic, for the examples.\<close>

definition fp_exact :: fp_env where
  "fp_exact = \<lparr>fp_long = \<lambda>x. x, fp_double = \<lambda>x. x\<rparr>"

lemma fp_exact_ok [simp]: "fp_ok fp_exact" "fp_halves fp_exact" "fp_doubles fp_exact" "fp_close fp_exact"
  by (simp_all add: fp_exact_def fp_ok_def fp_halves_def fp_doubles_def fp_close_def mono_def)

lemma fp_exact_sel [simp]: "fp_long fp_exact x = x" "fp_double fp_exact x = x"
  by (simp_all add: fp_exact_def)

lemma fp_ok_mono:
  "fp_ok fp \<Longrightarrow> x \<le> y \<Longrightarrow> fp_double fp x \<le> fp_double fp y"
  "fp_ok fp \<Longrightarrow> x \<le> y \<Longrightarrow> fp_long fp x \<le> fp_long fp y"
  by (auto simp: fp_ok_def mono_def)

lemma fp_ok_int:
  "fp_ok fp \<Longrightarrow> \<bar>i\<bar> < 2 ^ 53 \<Longrightarrow> fp_double fp (of_int i) = of_int i"
  "fp_ok fp \<Longrightarrow> \<bar>i\<bar> < 2 ^ 64 \<Longrightarrow> fp_long fp (of_int i) = of_int i"
  by (auto simp: fp_ok_def)

lemma fp_ok_simps [simp]:
  assumes "fp_ok fp"
  shows "fp_double fp 0 = 0" "fp_double fp 1 = 1" "fp_double fp (- 1) = - 1" "fp_long fp 0 = 0"
  using fp_ok_int(1) [OF assms, of 0] fp_ok_int(1) [OF assms, of 1] fp_ok_int(1) [OF assms, of "- 1"]
    fp_ok_int(2) [OF assms, of 0] by simp_all

lemma fp_ok_nat: "fp_ok fp \<Longrightarrow> n < 2 ^ 53 \<Longrightarrow> fp_double fp (of_nat n) = of_nat n"
  using fp_ok_int(1) [of fp "int n"] by simp

end
