(* ===== verification/Tape.thy ===== *)
theory Tape
  imports Float_Env
begin

text \<open>
  The trade tape of \<^verbatim>\<open>include/book/tape.hpp\<close>: last price, cumulative volume and OHLCV bars.
  Volumes are 64-bit words. Notionals and average prices are floating point; the two roundings
  (to \<^verbatim>\<open>long double\<close> and to \<^verbatim>\<open>double\<close>) are a parameter of the model, applied wherever the code
  rounds, and the properties that need exactness say for which values they assume it.
\<close>

section \<open>Definitions\<close>

record Bar =
  start_ns :: u64
  bar_open :: Price
  bar_high :: Price
  bar_low :: Price
  bar_close :: Price
  bar_volume :: u64
  bar_vwap :: rat

definition Bar_init :: Bar where
  "Bar_init = \<lparr>start_ns = 0, bar_open = 0, bar_high = 0, bar_low = 0, bar_close = 0, bar_volume = 0,
               bar_vwap = 0\<rparr>"

record tape =
  t_interval :: u64
  t_has_last :: bool
  t_last_px :: Price
  t_last_ts :: u64
  t_cum_vol :: u64
  t_cum_notional :: rat
  t_bars :: "Bar list"
  t_cur :: Bar
  t_cur_open :: bool
  t_cur_bucket :: u64
  t_cur_notional :: rat

definition tape_new :: "u64 \<Rightarrow> tape" where
  "tape_new bar_interval_ns =
     \<lparr>t_interval = (if bar_interval_ns \<noteq> 0 then bar_interval_ns else 1), t_has_last = False,
      t_last_px = 0, t_last_ts = 0, t_cum_vol = 0, t_cum_notional = 0, t_bars = [], t_cur = Bar_init,
      t_cur_open = False, t_cur_bucket = 0, t_cur_notional = 0\<rparr>"

definition start_bar :: "Price \<Rightarrow> u64 \<Rightarrow> tape \<Rightarrow> tape" where
  "start_bar px bucket t =
     t\<lparr>t_cur := Bar_init\<lparr>start_ns := bucket * t_interval t, bar_open := px, bar_high := px,
                         bar_low := px, bar_close := px\<rparr>,
       t_cur_bucket := bucket, t_cur_notional := 0, t_cur_open := True\<rparr>"

definition vwap_of :: "fp_env \<Rightarrow> rat \<Rightarrow> u64 \<Rightarrow> rat" where
  "vwap_of fp notional volume =
     (if volume \<noteq> 0
      then fp_double fp (fp_double fp (fp_long fp (notional / fp_long fp (of_nat (unat volume)))) /
                         fp_double fp (of_int kPriceScale))
      else 0)"

definition finalize :: "fp_env \<Rightarrow> Bar \<Rightarrow> rat \<Rightarrow> Bar" where
  "finalize fp b notional = b\<lparr>bar_vwap := vwap_of fp notional (bar_volume b)\<rparr>"

definition close_bar :: "fp_env \<Rightarrow> tape \<Rightarrow> tape" where
  "close_bar fp t =
     t\<lparr>t_bars := t_bars t @ [finalize fp (t_cur t) (t_cur_notional t)], t_cur_open := False\<rparr>"

definition notional_of :: "fp_env \<Rightarrow> Price \<Rightarrow> Qty \<Rightarrow> rat" where
  "notional_of fp px qty = fp_long fp (fp_long fp (of_int px) * fp_long fp (of_nat (unat qty)))"

definition on_trade :: "fp_env \<Rightarrow> Price \<Rightarrow> Qty \<Rightarrow> u64 \<Rightarrow> tape \<Rightarrow> tape" where
  "on_trade fp px qty ts t =
     (let t = t\<lparr>t_has_last := True, t_last_px := px, t_last_ts := ts,
                t_cum_vol := t_cum_vol t + ucast qty,
                t_cum_notional := fp_long fp (t_cum_notional t + notional_of fp px qty)\<rparr>;
          bucket = ts div t_interval t;
          t = (if \<not> t_cur_open t then start_bar px bucket t
               else if bucket \<noteq> t_cur_bucket t then start_bar px bucket (close_bar fp t)
               else t);
          c = t_cur t;
          c = (if px > bar_high c then c\<lparr>bar_high := px\<rparr> else c);
          c = (if px < bar_low c then c\<lparr>bar_low := px\<rparr> else c);
          c = c\<lparr>bar_close := px, bar_volume := bar_volume c + ucast qty\<rparr>
      in t\<lparr>t_cur := c,
           t_cur_notional := fp_long fp (t_cur_notional t + notional_of fp px qty)\<rparr>)"

definition tape_vwap :: "fp_env \<Rightarrow> tape \<Rightarrow> rat" where
  "tape_vwap fp t = vwap_of fp (t_cum_notional t) (t_cum_vol t)"

definition tape_bars :: "fp_env \<Rightarrow> bool \<Rightarrow> tape \<Rightarrow> Bar list" where
  "tape_bars fp include_current t =
     (if include_current \<and> t_cur_open t then t_bars t @ [finalize fp (t_cur t) (t_cur_notional t)]
      else t_bars t)"

definition bar_count :: "tape \<Rightarrow> nat" where
  "bar_count t = length (t_bars t) + (if t_cur_open t then 1 else 0)"

section \<open>What the bars should be\<close>

type_synonym trade = "Price \<times> Qty \<times> u64"

fun trade_px :: "trade \<Rightarrow> Price" where "trade_px (px, q, ts) = px"
fun trade_qty :: "trade \<Rightarrow> Qty" where "trade_qty (px, q, ts) = q"
fun trade_ts :: "trade \<Rightarrow> u64" where "trade_ts (px, q, ts) = ts"

definition notional_sum :: "fp_env \<Rightarrow> trade list \<Rightarrow> rat" where
  "notional_sum fp ts = foldl (\<lambda>acc t. fp_long fp (acc + notional_of fp (trade_px t) (trade_qty t))) 0 ts"

definition volume_sum :: "trade list \<Rightarrow> u64" where
  "volume_sum ts = (\<Sum>t\<leftarrow>ts. ucast (trade_qty t))"

text \<open>The bar of a run of trades in one bucket: first, greatest, least and last price, total
  volume and average price.\<close>

definition bar_of :: "fp_env \<Rightarrow> u64 \<Rightarrow> trade list \<Rightarrow> Bar" where
  "bar_of fp iv ts =
     \<lparr>start_ns = trade_ts (hd ts) div iv * iv, bar_open = trade_px (hd ts),
      bar_high = Max (trade_px ` set ts), bar_low = Min (trade_px ` set ts),
      bar_close = trade_px (last ts), bar_volume = volume_sum ts,
      bar_vwap = vwap_of fp (notional_sum fp ts) (volume_sum ts)\<rparr>"

text \<open>The feed cut into maximal runs of equal keys; the last run is the one in progress.\<close>

fun add_run :: "('a \<Rightarrow> 'b) \<Rightarrow> 'a \<Rightarrow> 'a list list \<Rightarrow> 'a list list" where
  "add_run key x rs = (if rs = [] \<or> key (hd (last rs)) \<noteq> key x then rs @ [[x]]
                       else butlast rs @ [last rs @ [x]])"

definition runs :: "('a \<Rightarrow> 'b) \<Rightarrow> 'a list \<Rightarrow> 'a list list" where
  "runs key xs = fold (add_run key) xs []"

definition bucket_of :: "u64 \<Rightarrow> trade \<Rightarrow> u64" where
  "bucket_of iv t = trade_ts t div iv"

definition tape_run :: "fp_env \<Rightarrow> u64 \<Rightarrow> trade list \<Rightarrow> tape" where
  "tape_run fp bar_interval_ns ts = fold (\<lambda>(px, q, t). on_trade fp px q t) ts (tape_new bar_interval_ns)"

section \<open>The tape keeps the bars\<close>

definition open_bar :: "fp_env \<Rightarrow> u64 \<Rightarrow> trade list \<Rightarrow> Bar" where
  "open_bar fp iv ts = (bar_of fp iv ts)\<lparr>bar_vwap := 0\<rparr>"

lemma finalize_open_bar: "finalize fp (open_bar fp iv ts) (notional_sum fp ts) = bar_of fp iv ts"
  by (simp add: finalize_def open_bar_def bar_of_def)

lemma sums_snoc [simp]:
  "notional_sum fp (ts @ [t]) = fp_long fp (notional_sum fp ts + notional_of fp (trade_px t) (trade_qty t))"
  "volume_sum (ts @ [t]) = volume_sum ts + ucast (trade_qty t)"
  "notional_sum fp [] = 0" "volume_sum [] = 0"
  "notional_sum fp [t] = fp_long fp (notional_of fp (trade_px t) (trade_qty t))"
  "volume_sum [t] = ucast (trade_qty t)"
  by (simp_all add: notional_sum_def volume_sum_def)

lemma open_bar_snoc:
  assumes "ts \<noteq> []"
  shows "open_bar fp iv (ts @ [t]) = (open_bar fp iv ts)\<lparr>
      bar_high := max (trade_px t) (bar_high (open_bar fp iv ts)),
      bar_low := min (trade_px t) (bar_low (open_bar fp iv ts)),
      bar_close := trade_px t, bar_volume := bar_volume (open_bar fp iv ts) + ucast (trade_qty t)\<rparr>"
  using assms by (simp add: open_bar_def bar_of_def)

lemma open_bar_single:
  "open_bar fp iv [t] = \<lparr>start_ns = trade_ts t div iv * iv, bar_open = trade_px t, bar_high = trade_px t,
     bar_low = trade_px t, bar_close = trade_px t, bar_volume = ucast (trade_qty t), bar_vwap = 0\<rparr>"
  by (simp add: open_bar_def bar_of_def volume_sum_def)

definition tape_ok :: "fp_env \<Rightarrow> u64 \<Rightarrow> trade list \<Rightarrow> tape \<Rightarrow> bool" where
  "tape_ok fp iv ts t \<longleftrightarrow>
     t_interval t = iv \<and> t_cum_vol t = volume_sum ts \<and> t_cum_notional t = notional_sum fp ts \<and>
     (t_has_last t \<longleftrightarrow> ts \<noteq> []) \<and> (t_cur_open t \<longleftrightarrow> ts \<noteq> []) \<and>
     (if ts = [] then t_bars t = []
      else t_last_px t = trade_px (last ts) \<and> t_last_ts t = trade_ts (last ts) \<and>
           (let rs = runs (bucket_of iv) ts
            in rs \<noteq> [] \<and> last rs \<noteq> [] \<and>
               t_bars t = map (bar_of fp iv) (butlast rs) \<and> t_cur t = open_bar fp iv (last rs) \<and>
               t_cur_bucket t = bucket_of iv (hd (last rs)) \<and>
               t_cur_notional t = notional_sum fp (last rs)))"

lemma runs_snoc: "runs key (xs @ [x]) = add_run key x (runs key xs)"
  by (simp add: runs_def)

lemma tape_ok_new: "tape_ok fp (if iv \<noteq> 0 then iv else 1) [] (tape_new iv)"
  by (simp add: tape_ok_def tape_new_def)

lemma on_trade_ok:
  assumes "tape_ok fp iv ts t"
  shows "tape_ok fp iv (ts @ [(px, q, tm)]) (on_trade fp px q tm t)"
proof -
  let ?rs = "runs (bucket_of iv) ts" and ?x = "(px, q, tm)"
  have bk: "bucket_of iv ?x = tm div iv" by (simp add: bucket_of_def)
  consider "ts = []" | "ts \<noteq> []" "bucket_of iv (hd (last ?rs)) \<noteq> tm div iv"
    | "ts \<noteq> []" "bucket_of iv (hd (last ?rs)) = tm div iv" by blast
  then show ?thesis
  proof cases
    case 1
    with assms show ?thesis
      by (simp add: tape_ok_def on_trade_def start_bar_def Let_def Bar_init_def runs_def open_bar_single
          bucket_of_def)
  next
    case 2
    then have "runs (bucket_of iv) (ts @ [?x]) = ?rs @ [[?x]]" by (simp add: runs_snoc bk)
    moreover have "?rs \<noteq> []" using assms 2 by (simp add: tape_ok_def Let_def)
    then have "map (bar_of fp iv) ?rs = map (bar_of fp iv) (butlast ?rs) @ [bar_of fp iv (last ?rs)]"
      by (cases ?rs rule: rev_cases) simp_all
    ultimately show ?thesis
      using assms 2
      by (simp add: tape_ok_def on_trade_def start_bar_def close_bar_def Let_def Bar_init_def
          open_bar_single bucket_of_def finalize_open_bar)
  next
    case 3
    then have "runs (bucket_of iv) (ts @ [?x]) = butlast ?rs @ [last ?rs @ [?x]]"
      using assms by (simp add: runs_snoc bk tape_ok_def Let_def)
    then show ?thesis
      using assms 3
      by (auto simp: tape_ok_def on_trade_def Let_def open_bar_snoc max_def min_def)
  qed
qed

lemma tape_run_ok: "tape_ok fp (if iv \<noteq> 0 then iv else 1) ts (tape_run fp iv ts)"
proof (induction ts rule: rev_induct)
  case (snoc t ts)
  then show ?case using on_trade_ok [of fp _ ts "tape_run fp iv ts"] by (cases t) (simp add: tape_run_def)
qed (simp add: tape_run_def tape_ok_new)

section \<open>Runs\<close>

definition is_runs :: "('a \<Rightarrow> 'b) \<Rightarrow> 'a list \<Rightarrow> 'a list list \<Rightarrow> bool" where
  "is_runs key xs rs \<longleftrightarrow>
     concat rs = xs \<and> (\<forall>r \<in> set rs. r \<noteq> [] \<and> (\<forall>x \<in> set r. key (hd r) = key x)) \<and>
     (\<forall>i. Suc i < length rs \<longrightarrow> key (hd (rs ! i)) \<noteq> key (hd (rs ! Suc i)))"

lemma is_runs_add:
  assumes "is_runs key xs rs"
  shows "is_runs key (xs @ [x]) (add_run key x rs)"
proof (cases "rs = [] \<or> key (hd (last rs)) \<noteq> key x")
  case True
  have "key (hd ((rs @ [[x]]) ! i)) \<noteq> key (hd ((rs @ [[x]]) ! Suc i))" if "Suc i < length (rs @ [[x]])" for i
  proof (cases "Suc i < length rs")
    case False
    then have i: "i < length rs" "Suc i = length rs" using that by auto
    have ne: "rs \<noteq> []" using i(1) by auto
    have "length rs - 1 = i" using i(2) by linarith
    then have "rs ! i = last rs" using last_conv_nth [OF ne] by simp
    with True ne i show ?thesis by (simp add: nth_append)
  next
    case less: True
    then have "key (hd (rs ! i)) \<noteq> key (hd (rs ! Suc i))" using assms by (simp add: is_runs_def)
    with less show ?thesis by (simp add: nth_append)
  qed
  moreover have "add_run key x rs = rs @ [[x]]" using True by simp
  moreover have "concat rs = xs" "\<forall>r \<in> set rs. r \<noteq> [] \<and> (\<forall>x \<in> set r. key (hd r) = key x)"
    using assms by (simp_all add: is_runs_def)
  ultimately show ?thesis by (simp add: is_runs_def)
next
  case False
  then obtain as a where rs: "rs = as @ [a]" by (cases rs rule: rev_cases) auto
  have a: "a \<noteq> []" "\<forall>y \<in> set a. key (hd a) = key y" using assms by (auto simp: is_runs_def rs)
  have "key (hd ((as @ [a @ [x]]) ! i)) \<noteq> key (hd ((as @ [a @ [x]]) ! Suc i))" if "Suc i < length (as @ [a @ [x]])" for i
  proof -
    have "key (hd ((as @ [a]) ! i)) \<noteq> key (hd ((as @ [a]) ! Suc i))" using assms that by (auto simp: is_runs_def rs)
    with a(1) that show ?thesis by (cases "Suc i < length as") (auto simp: nth_append less_Suc_eq)
  qed
  with False assms a show ?thesis by (auto simp: is_runs_def rs)
qed

lemma is_runs_runs: "is_runs key xs (runs key xs)"
proof (induction xs rule: rev_induct)
  case (snoc x xs)
  then show ?case unfolding runs_snoc by (rule is_runs_add)
qed (simp add: is_runs_def runs_def)

section \<open>Average prices\<close>

definition exact_notional :: "trade list \<Rightarrow> int" where
  "exact_notional ts = (\<Sum>t\<leftarrow>ts. trade_px t * uint (trade_qty t))"

definition exact_volume :: "trade list \<Rightarrow> int" where
  "exact_volume ts = (\<Sum>t\<leftarrow>ts. uint (trade_qty t))"

lemma notional_sum_exact:
  assumes fp: "fp_ok fp" and px: "\<forall>t \<in> set ts. 0 \<le> trade_px t \<and> trade_px t < 2 ^ 32"
    and small: "exact_notional ts < 2 ^ 64"
  shows "notional_sum fp ts = of_int (exact_notional ts)"
  using px small
proof (induction ts rule: rev_induct)
  case (snoc t ts)
  let ?p = "trade_px t" and ?q = "uint (trade_qty t)"
  note q = uint_u32_range [of "trade_qty t"]
  have p: "0 \<le> ?p" "?p < 2 ^ 32" using snoc.prems(1) by auto
  have E: "exact_notional (ts @ [t]) = exact_notional ts + ?p * ?q" by (simp add: exact_notional_def)
  have nn: "0 \<le> ?p * ?q" "0 \<le> exact_notional ts"
    using p q snoc.prems(1) unfolding exact_notional_def
    by (auto intro!: sum_list_nonneg mult_nonneg_nonneg uint_u32_range)
  have ex: "fp_long fp (of_int i) = of_int i" if "\<bar>i\<bar> < 2 ^ 64" for i using fp that by (simp add: fp_ok_def)
  have "notional_of fp ?p (trade_qty t) = fp_long fp (of_int ?p * of_int ?q)"
    using ex [of ?p] ex [of ?q] p q by (simp add: notional_of_def)
  also have "\<dots> = of_int (?p * ?q)"
    using ex [of "?p * ?q"] nn E snoc.prems(2) by simp
  finally have n: "notional_of fp ?p (trade_qty t) = of_int (?p * ?q)" .
  have "exact_notional ts < 2 ^ 64" using snoc.prems(2) E nn(1) by linarith
  then have "notional_sum fp ts = of_int (exact_notional ts)" using snoc by simp
  then show ?case
    using ex [of "exact_notional (ts @ [t])"] nn E snoc.prems(2) by (simp add: n)
qed (simp add: exact_notional_def)

lemma volume_sum_exact:
  "exact_volume ts < 2 ^ 64 \<Longrightarrow> uint (volume_sum ts) = exact_volume ts"
proof (induction ts rule: rev_induct)
  case (snoc t ts)
  have E: "exact_volume (ts @ [t]) = exact_volume ts + uint (trade_qty t)" by (simp add: exact_volume_def)
  have uq: "uint (ucast (trade_qty t) :: u64) = uint (trade_qty t)"
    using uint_u32_range [of "trade_qty t"] by (simp add: unsigned_ucast_eq take_bit_int_eq_self)
  have "exact_volume ts < 2 ^ 64" using snoc.prems E uint_u32_range(1) [of "trade_qty t"] by linarith
  note ih = snoc.IH [OF this]
  then have "uint (volume_sum ts) + uint (trade_qty t) < 2 ^ 64" using snoc.prems E by simp
  then have "uint (volume_sum ts + ucast (trade_qty t)) = uint (volume_sum ts) + uint (trade_qty t)"
    using uint_add_lem [of "volume_sum ts" "ucast (trade_qty t)"] by (simp add: uq)
  then show ?case using ih E by simp
qed (simp add: exact_volume_def)

lemma notional_between:
  "\<forall>t \<in> set ts. lo \<le> trade_px t \<and> trade_px t \<le> hi \<Longrightarrow>
   lo * exact_volume ts \<le> exact_notional ts \<and> exact_notional ts \<le> hi * exact_volume ts"
  by (induction ts)
    (auto simp: exact_volume_def exact_notional_def distrib_left intro!: add_mono mult_right_mono uint_u32_range)

lemma vwap_of_between:
  assumes fp: "fp_ok fp" and ts: "\<forall>t \<in> set ts. lo \<le> trade_px t \<and> trade_px t \<le> hi"
    and range: "0 \<le> lo" "hi < 2 ^ 32" and ne: "0 < exact_volume ts"
    and small: "exact_notional ts < 2 ^ 64" "exact_volume ts < 2 ^ 64"
  shows "fp_double fp (of_int lo / 10000) \<le> vwap_of fp (notional_sum fp ts) (volume_sum ts) \<and>
         vwap_of fp (notional_sum fp ts) (volume_sum ts) \<le> fp_double fp (of_int hi / 10000)"
proof -
  let ?V = "exact_volume ts" and ?N = "exact_notional ts"
  define q where "q = (of_int ?N / of_int ?V :: rat)"
  have mono: "x \<le> y \<Longrightarrow> fp_long fp x \<le> fp_long fp y" "x \<le> y \<Longrightarrow> fp_double fp x \<le> fp_double fp y" for x y
    using fp by (auto simp: fp_ok_def mono_def)
  have exl: "fp_long fp (of_int i) = of_int i" if "\<bar>i\<bar> < 2 ^ 64" for i using fp that by (simp add: fp_ok_def)
  have exd: "fp_double fp (of_int i) = of_int i" if "\<bar>i\<bar> < 2 ^ 53" for i using fp that by (simp add: fp_ok_def)
  have "\<forall>t \<in> set ts. 0 \<le> trade_px t \<and> trade_px t < 2 ^ 32" using ts range by fastforce
  from notional_sum_exact [OF fp this small(1)] have N: "notional_sum fp ts = of_int ?N" .
  have V: "uint (volume_sum ts) = ?V" by (rule volume_sum_exact [OF small(2)])
  then have V0: "volume_sum ts \<noteq> 0" using ne by auto
  have vr: "(unsigned (volume_sum ts) :: rat) = of_int ?V" unfolding V [symmetric] by simp
  have "lo * ?V \<le> ?N" "?N \<le> hi * ?V" using notional_between [OF ts] by auto
  then have q: "of_int lo \<le> q" "q \<le> of_int hi"
    using ne unfolding q_def by (simp_all add: pos_le_divide_eq pos_divide_le_eq flip: of_int_mult)
  have "(of_int lo :: rat) \<le> of_int hi" using q by linarith
  then have "lo \<le> hi" by simp
  then have lo: "\<bar>lo\<bar> < 2 ^ 53" "\<bar>hi\<bar> < 2 ^ 53" using range by simp_all
  have "of_int lo \<le> fp_long fp q" "fp_long fp q \<le> of_int hi"
    using mono(1) [OF q(1)] mono(1) [OF q(2)] exl lo by simp_all
  then have d: "of_int lo \<le> fp_double fp (fp_long fp q)" "fp_double fp (fp_long fp q) \<le> of_int hi"
    using mono(2) [of "of_int lo" "fp_long fp q"] mono(2) [of "fp_long fp q" "of_int hi"] exd lo by simp_all
  have v: "vwap_of fp (notional_sum fp ts) (volume_sum ts) = fp_double fp (fp_double fp (fp_long fp q) / 10000)"
    using V0 exl [of ?V] small(2) ne exd [of 10000]
    by (simp add: vwap_of_def N vr kPriceScale_def q_def)
  show ?thesis unfolding v using d by (intro conjI mono(2)) (simp_all add: divide_right_mono)
qed

section \<open>Properties\<close>

text \<open>C13. The tape is the trade history cut into bars: after any sequence of trades the bars,
  the one in progress included, are those of the maximal runs of trades in the same time
  bucket, each with its first, greatest, least and last price, total volume and average; the
  cumulative volume is the total and the last trade is the last one.\<close>

theorem tape_bars_correct:
  assumes "iv = (if bar_interval_ns \<noteq> 0 then bar_interval_ns else 1)" and "t = tape_run fp bar_interval_ns ts"
  shows "tape_bars fp True t = map (bar_of fp iv) (runs (bucket_of iv) ts) \<and>
         is_runs (bucket_of iv) ts (runs (bucket_of iv) ts) \<and>
         bar_count t = length (runs (bucket_of iv) ts) \<and> t_cum_vol t = volume_sum ts \<and>
         tape_vwap fp t = vwap_of fp (notional_sum fp ts) (volume_sum ts) \<and>
         (t_has_last t \<longleftrightarrow> ts \<noteq> []) \<and>
         (ts = [] \<or> t_last_px t = trade_px (last ts) \<and> t_last_ts t = trade_ts (last ts))"
proof -
  have ok: "tape_ok fp iv ts t" unfolding assms by (rule tape_run_ok)
  let ?rs = "runs (bucket_of iv) ts"
  have "tape_bars fp True t = map (bar_of fp iv) ?rs \<and> bar_count t = length ?rs"
  proof (cases "ts = []")
    case False
    then have "?rs \<noteq> []" using ok by (simp add: tape_ok_def Let_def)
    then obtain as a where rs: "?rs = as @ [a]" by (cases ?rs rule: rev_cases) auto
    show ?thesis using ok False by (simp add: tape_ok_def tape_bars_def bar_count_def rs finalize_open_bar)
  qed (use ok in \<open>simp add: tape_ok_def tape_bars_def bar_count_def runs_def\<close>)
  with ok is_runs_runs [of "bucket_of iv" ts] show ?thesis
    by (auto simp: tape_ok_def tape_vwap_def Let_def)
qed

theorem tape_bars_correct_witness:
  "map bar_high (tape_bars \<lparr>fp_long = \<lambda>x. x, fp_double = \<lambda>x. x\<rparr> True
     (tape_run \<lparr>fp_long = \<lambda>x. x, fp_double = \<lambda>x. x\<rparr> 10 [(100, 5, 1), (120, 1, 9), (90, 2, 10)])) = [120, 90]"
  using tape_bars_correct [of 10 10 _ "\<lparr>fp_long = \<lambda>x. x, fp_double = \<lambda>x. x\<rparr>" "[(100, 5, 1), (120, 1, 9), (90, 2, 10)]"]
  by (simp add: bar_of_def runs_def bucket_of_def)

text \<open>Average prices are averages: on a floating-point unit with monotone rounding that holds
  the integers involved, the VWAP of any trades whose total notional and volume fit 64 bits
  lies between their lowest and highest price, converted to dollars.\<close>

theorem tape_vwap_between:
  assumes "fp_ok fp" and "0 \<le> Min (trade_px ` set ts)" and "Max (trade_px ` set ts) < 2 ^ 32"
    and "0 < exact_volume ts" and "exact_volume ts < 2 ^ 64" and "exact_notional ts < 2 ^ 64"
    and "v = tape_vwap fp (tape_run fp iv ts)"
  shows "fp_double fp (of_int (Min (trade_px ` set ts)) / 10000) \<le> v \<and>
         v \<le> fp_double fp (of_int (Max (trade_px ` set ts)) / 10000)"
proof -
  have "\<forall>t \<in> set ts. Min (trade_px ` set ts) \<le> trade_px t \<and> trade_px t \<le> Max (trade_px ` set ts)" by simp
  from vwap_of_between [OF assms(1) this assms(2,3,4,6,5)]
  show ?thesis using tape_run_ok [of fp iv ts] by (simp add: assms(7) tape_vwap_def tape_ok_def)
qed

theorem tape_vwap_between_witness:
  "(1 / 100 :: rat) \<le> tape_vwap \<lparr>fp_long = \<lambda>x. x, fp_double = \<lambda>x. x\<rparr>
     (tape_run \<lparr>fp_long = \<lambda>x. x, fp_double = \<lambda>x. x\<rparr> 10 [(100, 5, 1), (120, 1, 9)])"
proof -
  have "fp_ok \<lparr>fp_long = \<lambda>x. x, fp_double = \<lambda>x. x\<rparr>" by (simp add: fp_ok_def mono_def)
  from tape_vwap_between [OF this, of "[(100, 5, 1), (120, 1, 9)]" _ 10] show ?thesis
    by (simp add: exact_volume_def exact_notional_def)
qed

end
