(* ===== verification/Feed_Streams.thy ===== *)
theory Feed_Streams
  imports Framing Order_Book
begin

text \<open>
  What the generators of \<^verbatim>\<open>include/feed/synthetic.hpp\<close> share: a stream of framed records of which
  each one decodes, and whose messages, symbol by symbol, are a well-formed feed. A generator
  keeps \<open>stream_ok\<close> when every body it frames is a \<open>good_msg\<close>: allowed in, and leading back to,
  a book that is small in the number of orders and in their size.
\<close>

section \<open>Small books\<close>

text \<open>
  After \<open>k\<close> messages: at most \<open>k\<close> orders, all of them under references below the next one, each of
  at most \<open>Q\<close> shares on a proper side.
\<close>

definition small_book :: "nat \<Rightarrow> nat \<Rightarrow> u64 \<Rightarrow> spec_book \<Rightarrow> bool" where
  "small_book Q k ref M \<longleftrightarrow>
     finite (dom M) \<and> card (dom M) \<le> k \<and> unat ref \<le> Suc k \<and> (\<forall>r \<in> dom M. unat r < unat ref) \<and>
     (\<forall>r ord. M r = Some ord \<longrightarrow> unat (o_shares ord) \<le> Q \<and> o_side ord \<in> {Buy, Sell})"

lemma small_book_empty [simp]: "small_book Q 0 1 Map.empty"
  by (simp add: small_book_def)

lemma small_book_mono: "small_book Q k ref M \<Longrightarrow> small_book Q (Suc k) ref M"
  by (auto simp: small_book_def)

lemma small_book_remove: "small_book Q k ref M \<Longrightarrow> small_book Q k ref (M(r := None))"
  by (auto simp: small_book_def card_Diff_singleton_if split: if_splits)

lemma small_book_reduce:
  assumes "small_book Q k ref M"
  shows "small_book Q k ref (spec_reduce r q M)"
proof (cases "M r")
  case (Some ord)
  have "unat (o_shares ord) \<le> Q" using assms Some by (simp add: small_book_def)
  then have "unat (o_shares ord - q) \<le> Q" if "\<not> o_shares ord \<le> q"
    using that by (subst unat_sub_small) (simp_all add: word_le_nat_alt)
  moreover have "insert r (dom M) = dom M" using Some by auto
  ultimately show ?thesis using assms Some small_book_remove [OF assms, of r]
    by (auto simp: spec_reduce_def small_book_def)
qed (use assms in \<open>simp add: spec_reduce_def\<close>)

lemma spec_depth_small:
  assumes "small_book Q k ref M"
  shows "spec_depth M s p \<le> Q * k"
proof -
  have "spec_depth M s p \<le> (\<Sum>r \<in> dom M. Q)"
    unfolding spec_depth_def using assms by (intro sum_mono) (auto simp: resting_def small_book_def)
  also have "\<dots> \<le> Q * k" using assms by (simp add: small_book_def)
  finally show ?thesis .
qed

text \<open>The number of messages a feed may have without a level total or a count wrapping.\<close>

definition room_for :: "nat \<Rightarrow> nat \<Rightarrow> bool" where
  "room_for Q k \<longleftrightarrow> 0 < Q \<and> Q * Suc k < 2 ^ 32"

lemma room_for_count: "room_for Q k \<Longrightarrow> Suc k < 2 ^ 32"
  using mult_le_mono1 [of 1 Q "Suc k"] by (simp add: room_for_def)

lemma room_for_less:
  assumes "room_for Q n" and "k < n"
  shows "room_for Q k"
proof -
  have "Q * k \<le> Q * n" using assms(2) by simp
  with assms(1) show ?thesis unfolding room_for_def mult_Suc_right by linarith
qed

lemma small_book_next_ref:
  assumes "small_book Q k ref M" and "room_for Q k"
  shows "unat (ref + 1) = Suc (unat ref)" and "small_book Q (Suc k) (ref + 1) M"
proof -
  have "unat ref + 1 < 2 ^ 64" using assms room_for_count [OF assms(2)] by (simp add: small_book_def)
  then show ref: "unat (ref + 1) = Suc (unat ref)" by (subst unat_add_small) simp_all
  show "small_book Q (Suc k) (ref + 1) M" using assms(1) by (auto simp: small_book_def ref less_Suc_eq)
qed

lemma small_book_add:
  assumes M: "small_book Q k ref M" and k: "room_for Q k" and q: "q \<noteq> 0" "unat q \<le> Q"
    and sd: "sd \<in> {Buy, Sell}" and p: "0 \<le> p"
  shows "add_allowed ref sd p q M" and "small_book Q (Suc k) (ref + 1) (spec_add ref sd p q M)"
    and "card (dom M) < 2 ^ 32"
proof -
  have fresh: "M ref = None" using M by (auto simp: small_book_def)
  have "spec_depth M sd p + unat q < 2 ^ 32"
    using spec_depth_small [OF M, of sd p] k q(2) by (simp add: room_for_def)
  then show "add_allowed ref sd p q M" using fresh sd p by (simp add: add_allowed_def)
  have "card (dom (M(ref \<mapsto> ord))) \<le> Suc k" for ord using M by (simp add: small_book_def card_insert_if)
  then show "small_book Q (Suc k) (ref + 1) (spec_add ref sd p q M)"
    using M q sd small_book_next_ref(1) [OF M k] by (auto simp: small_book_def spec_add_def less_Suc_eq)
  show "card (dom M) < 2 ^ 32" using M room_for_count [OF k] by (simp add: small_book_def)
qed

lemma small_book_replace:
  assumes M: "small_book Q k ref M" and k: "room_for Q k" and q: "q \<noteq> 0" "unat q \<le> Q" and p: "0 \<le> p"
  shows "M r = Some ord \<Longrightarrow> add_allowed ref (o_side ord) p q (M(r := None))"
    and "small_book Q (Suc k) (ref + 1) (spec_replace r ref q p M)"
proof -
  note rm = small_book_remove [OF M, of r]
  have sd: "M r = Some ord \<Longrightarrow> o_side ord \<in> {Buy, Sell}" for ord using M by (auto simp: small_book_def)
  show "M r = Some ord \<Longrightarrow> add_allowed ref (o_side ord) p q (M(r := None))"
    using small_book_add(1) [OF rm k q _ p] sd by blast
  show "small_book Q (Suc k) (ref + 1) (spec_replace r ref q p M)"
    using small_book_add(2) [OF rm k q sd p] small_book_next_ref(2) [OF M k]
    by (auto simp: spec_replace_def split: option.splits)
qed

section \<open>Messages that keep books small\<close>

text \<open>
  \<open>good_msg Q k ref m ref'\<close>: as message \<open>k\<close> of a feed whose next fresh reference is \<open>ref\<close>, \<open>m\<close> is
  allowed and keeps the book small with \<open>ref'\<close> as the next reference; so do the books of the
  symbols that \<open>m\<close> is not about.
\<close>

definition good_msg :: "nat \<Rightarrow> nat \<Rightarrow> u64 \<Rightarrow> Message \<Rightarrow> u64 \<Rightarrow> bool" where
  "good_msg Q k ref m ref' \<longleftrightarrow>
     (\<forall>M. small_book Q k ref M \<longrightarrow>
        msg_allowed m M \<and> small_book Q (Suc k) ref' (spec_apply m M) \<and> small_book Q (Suc k) ref' M)"

lemma good_msg_add:
  assumes "msg_type m = AddOrder" "order_ref m = ref" "m_shares m \<noteq> 0" "unat (m_shares m) \<le> Q"
    "m_side m \<in> {Buy, Sell}" "0 \<le> m_price m" "room_for Q k"
  shows "good_msg Q k ref m (ref + 1)"
  using assms small_book_add [OF _ assms(7,3,4,5,6)] small_book_next_ref(2) [OF _ assms(7)]
  by (simp add: good_msg_def msg_allowed_def spec_apply_def)

lemma good_msg_reduce:
  assumes "msg_type m \<in> {OrderExecuted, OrderExecutedWithPrice, OrderCancel}"
  shows "good_msg Q k ref m ref"
  using assms small_book_mono small_book_mono [OF small_book_reduce]
  by (auto simp: good_msg_def msg_allowed_def spec_apply_def)

lemma good_msg_delete: "msg_type m = OrderDelete \<Longrightarrow> good_msg Q k ref m ref"
  using small_book_mono small_book_mono [OF small_book_remove]
  by (auto simp: good_msg_def msg_allowed_def spec_apply_def spec_remove_def)

lemma good_msg_replace:
  assumes "msg_type m = OrderReplace" "new_order_ref m = ref" "m_shares m \<noteq> 0" "unat (m_shares m) \<le> Q"
    "0 \<le> m_price m" "room_for Q k"
  shows "good_msg Q k ref m (ref + 1)"
  using assms small_book_replace [OF _ assms(6,3,4,5)] small_book_next_ref(2) [OF _ assms(6)]
  by (auto simp: good_msg_def msg_allowed_def spec_apply_def split: option.splits)

lemma good_msg_other:
  "msg_type m \<notin> {AddOrder, AddOrderMpid, OrderExecuted, OrderExecutedWithPrice, OrderCancel,
     OrderDelete, OrderReplace} \<Longrightarrow> good_msg Q k ref m ref"
  using small_book_mono by (auto simp: good_msg_def msg_allowed_def spec_apply_def)

section \<open>Streams\<close>

lemma feed_allowed_snoc:
  "feed_allowed (ms @ [m]) M \<longleftrightarrow> feed_allowed ms M \<and> msg_allowed m (fold spec_apply ms M)"
  by (induction ms arbitrary: M) auto

lemma frame_frames: "frame (frames fs) f = frames (fs @ [f])"
  by (simp add: frame_def be16_def)

definition messages_of :: "bytes list \<Rightarrow> Message list" where
  "messages_of fs = List.map_filter decode_frame fs"

lemma messages_of_snoc: "decode_frame f = Some m \<Longrightarrow> messages_of (fs @ [f]) = messages_of fs @ [m]"
  by (simp add: messages_of_def map_filter_def)

text \<open>The messages about one symbol.\<close>

definition feed_at :: "u16 \<Rightarrow> Message list \<Rightarrow> Message list" where
  "feed_at loc ms = filter (\<lambda>m. stock_locate m = loc) ms"

definition stream_ok :: "nat \<Rightarrow> bytes list \<Rightarrow> u64 \<Rightarrow> bool" where
  "stream_ok Q fs ref \<longleftrightarrow>
     (\<forall>f \<in> set fs. frameable f) \<and> length (messages_of fs) = length fs \<and>
     (\<forall>loc. feed_allowed (feed_at loc (messages_of fs)) Map.empty \<and>
            small_book Q (length fs) ref (fold spec_apply (feed_at loc (messages_of fs)) Map.empty))"

lemma stream_ok_Nil [simp]: "stream_ok Q [] 1"
  by (simp add: stream_ok_def messages_of_def feed_at_def map_filter_simps)

lemma stream_ok_snoc:
  assumes ok: "stream_ok Q fs ref" and f: "decode_frame f = Some m" "frameable f"
    and m: "good_msg Q (length fs) ref m ref'"
  shows "stream_ok Q (fs @ [f]) ref'"
  using assms by (simp add: stream_ok_def good_msg_def messages_of_snoc feed_at_def feed_allowed_snoc)

text \<open>What a finished stream is worth to its readers.\<close>

lemma stream_ok_messages:
  assumes "stream_ok Q fs ref"
  shows "framed_messages (frames fs) = messages_of fs" and "length (deframe (frames fs)) = length fs"
    and "framed_length (deframe (frames fs)) = length (frames fs)"
  using assms deframe_frames [of fs "[]"] deframe_padding [of 0]
  by (simp_all add: stream_ok_def framed_messages_def messages_of_def length_frames)

lemma feed_at_all: "\<forall>m \<in> set ms. stock_locate m = loc \<Longrightarrow> feed_at loc ms = ms"
  by (simp add: feed_at_def)

section \<open>The bodies the generators write\<close>

lemma body_frameable:
  "frameable (body_A l ts ref side sh px)" "frameable (body_E l ts ref sh mn)" "frameable (body_X l ts ref sh)"
  "frameable (body_D l ts ref)" "frameable (body_U l ts ref nref sh px)" "frameable (body_P l ts side sh px mn)"
  by (simp_all only: frameable_def body_length) simp_all

lemma side_of_char [simp]: "side_of_char CHR ''B'' = Buy" "side_of_char CHR ''S'' = Sell"
  by (simp_all add: side_of_char_def side_of_byte_def char_byte_def)

text \<open>Each body decodes to a message of its kind; \<open>emits\<close> names what the generator's step needs.\<close>

definition emits :: "nat \<Rightarrow> nat \<Rightarrow> u16 \<Rightarrow> u64 \<Rightarrow> bytes \<Rightarrow> u64 \<Rightarrow> bool" where
  "emits Q k loc ref f ref' \<longleftrightarrow>
     frameable f \<and> (\<exists>m. decode_frame f = Some m \<and> stock_locate m = loc \<and> good_msg Q k ref m ref')"

lemma emits_add:
  assumes "room_for Q k" "sh \<noteq> 0" "unat sh \<le> Q" "side \<in> {CHR ''B'', CHR ''S''}"
  shows "emits Q k loc ref (body_A loc ts ref side sh px) (ref + 1)"
  using assms good_msg_add [OF _ _ _ _ _ _ assms(1)]
  by (auto simp: emits_def body_frameable decode_frame_def decode_body_A)

lemma emits_execute: "emits Q k loc ref (body_E loc ts r sh mn) ref"
  using good_msg_reduce by (auto simp: emits_def body_frameable decode_frame_def decode_body_E)

lemma emits_cancel: "emits Q k loc ref (body_X loc ts r sh) ref"
  using good_msg_reduce by (auto simp: emits_def body_frameable decode_frame_def decode_body_X)

lemma emits_delete: "emits Q k loc ref (body_D loc ts r) ref"
  using good_msg_delete by (auto simp: emits_def body_frameable decode_frame_def decode_body_D)

lemma emits_replace:
  assumes "room_for Q k" "sh \<noteq> 0" "unat sh \<le> Q"
  shows "emits Q k loc ref (body_U loc ts r ref sh px) (ref + 1)"
  using assms good_msg_replace [OF _ _ _ _ _ assms(1)]
  by (auto simp: emits_def body_frameable decode_frame_def decode_body_U)

lemma emits_trade: "emits Q k loc ref (body_P loc ts side sh px mn) ref"
  using good_msg_other by (auto simp: emits_def body_frameable decode_frame_def decode_body_P)

lemma stream_ok_emits:
  assumes "stream_ok Q fs ref" and "emits Q (length fs) loc ref f ref'"
  shows "stream_ok Q (fs @ [f]) ref'" and "\<exists>m. messages_of (fs @ [f]) = messages_of fs @ [m] \<and> stock_locate m = loc"
  using assms stream_ok_snoc [OF assms(1)] messages_of_snoc by (auto simp: emits_def)

lemma share_count:
  assumes "n \<le> k" "0 < n" "k < 2 ^ 32"
  shows "of_nat n \<noteq> (0 :: u32)" and "unat (of_nat n :: u32) \<le> k"
  using assms unat_of_nat_small [of n, where ?'a = 32] by (auto simp: unat_eq_0 [symmetric] simp del: unat_eq_0)

section \<open>The state every generator keeps\<close>

text \<open>
  The engine, the output vector, the next reference, the clock and the count of messages emitted;
  each generator extends it by its own variables. The engine \<^verbatim>\<open>std::mt19937\<close> is given as the
  function \<open>nx\<close> that draws the next 32-bit number from a state of any type, so that what is shown
  holds for every sequence of draws.
\<close>

record 'g src =
  g_rng :: 'g
  g_out :: bytes
  g_next_ref :: u64
  g_ts :: u64
  g_emitted :: nat

definition draw :: "('g \<Rightarrow> u32 \<times> 'g) \<Rightarrow> ('g, 'z) src_scheme \<Rightarrow> u32 \<times> ('g, 'z) src_scheme" where
  "draw nx s = (let (r, g) = nx (g_rng s) in (r, s\<lparr>g_rng := g\<rparr>))"

definition pct :: "('g \<Rightarrow> u32 \<times> 'g) \<Rightarrow> nat \<Rightarrow> ('g, 'z) src_scheme \<Rightarrow> nat \<times> ('g, 'z) src_scheme" where
  "pct nx hi s = (let (r, s) = draw nx s in (unat r mod hi, s))"

definition emit_frame :: "bytes \<Rightarrow> ('g, 'z) src_scheme \<Rightarrow> ('g, 'z) src_scheme" where
  "emit_frame m s = s\<lparr>g_out := frame (g_out s) m\<rparr>"

definition tick :: "('g \<Rightarrow> u32 \<times> 'g) \<Rightarrow> nat \<Rightarrow> ('g, 'z) src_scheme \<Rightarrow> ('g, 'z) src_scheme" where
  "tick nx hi s =
     (let (k, s) = pct nx hi s in s\<lparr>g_ts := g_ts s + (1 + of_nat k), g_emitted := g_emitted s + 1\<rparr>)"

lemma draw_eq: "draw nx s = (fst (nx (g_rng s)), s\<lparr>g_rng := snd (nx (g_rng s))\<rparr>)"
  by (simp add: draw_def case_prod_beta Let_def)

lemma pct_eq: "pct nx hi s = (unat (fst (nx (g_rng s))) mod hi, s\<lparr>g_rng := snd (nx (g_rng s))\<rparr>)"
  by (simp add: pct_def draw_eq)

lemma emit_frame_sel [simp]:
  "g_emitted (emit_frame m s) = g_emitted s" "g_next_ref (emit_frame m s) = g_next_ref s"
  "g_out (emit_frame m s) = frame (g_out s) m" "src.more (emit_frame m s) = src.more s"
  by (simp_all add: emit_frame_def)

lemma tick_sel [simp]:
  "g_emitted (tick nx hi s) = Suc (g_emitted s)" "g_next_ref (tick nx hi s) = g_next_ref s"
  "g_out (tick nx hi s) = g_out s" "src.more (tick nx hi s) = src.more s"
  by (simp_all add: tick_def pct_eq Let_def)

text \<open>\<open>src_ok Q L n s\<close>: the output is the framing of \<open>n\<close> good records about the symbols in \<open>L\<close>.\<close>

definition src_ok :: "nat \<Rightarrow> u16 set \<Rightarrow> nat \<Rightarrow> ('g, 'z) src_scheme \<Rightarrow> bool" where
  "src_ok Q L n s \<longleftrightarrow>
     (\<exists>fs. g_out s = frames fs \<and> length fs = n \<and> stream_ok Q fs (g_next_ref s) \<and>
           stock_locate ` set (messages_of fs) \<subseteq> L)"

lemma src_ok_init: "g_out s = [] \<Longrightarrow> g_next_ref s = 1 \<Longrightarrow> src_ok Q L 0 s"
  by (auto simp: src_ok_def messages_of_def map_filter_simps)

lemma src_ok_cong:
  "g_out s' = g_out s \<Longrightarrow> g_next_ref s' = g_next_ref s \<Longrightarrow> src_ok Q L n s \<Longrightarrow> src_ok Q L n s'"
  by (simp add: src_ok_def)

lemma src_ok_emit:
  assumes "src_ok Q L n s" and "g_out s' = frame (g_out s) f"
    and "emits Q n loc (g_next_ref s) f (g_next_ref s')" and "loc \<in> L"
  shows "src_ok Q L (Suc n) s'"
proof -
  obtain fs where fs: "g_out s = frames fs" "length fs = n" "stream_ok Q fs (g_next_ref s)"
      "stock_locate ` set (messages_of fs) \<subseteq> L"
    using assms(1) by (auto simp: src_ok_def)
  from stream_ok_emits [OF fs(3), of loc f "g_next_ref s'"] fs assms(2-4) show ?thesis
    unfolding src_ok_def by (intro exI [of _ "fs @ [f]"]) (auto simp: frame_frames image_subset_iff)
qed

text \<open>What a reader of the finished stream finds.\<close>

definition good_feed :: "u16 set \<Rightarrow> nat \<Rightarrow> bytes \<Rightarrow> bool" where
  "good_feed L n bs \<longleftrightarrow>
     length (deframe bs) = n \<and> framed_length (deframe bs) = length bs \<and>
     length (framed_messages bs) = n \<and> stock_locate ` set (framed_messages bs) \<subseteq> L \<and>
     (\<forall>loc. feed_allowed (feed_at loc (framed_messages bs)) Map.empty)"

lemma src_ok_good_feed:
  assumes "src_ok Q L n s"
  shows "good_feed L n (g_out s)"
proof -
  obtain fs where fs: "g_out s = frames fs" "length fs = n" "stream_ok Q fs (g_next_ref s)"
      "stock_locate ` set (messages_of fs) \<subseteq> L"
    using assms by (auto simp: src_ok_def)
  from fs(3) have "length (messages_of fs) = length fs"
      "\<forall>loc. feed_allowed (feed_at loc (messages_of fs)) Map.empty"
    by (simp_all add: stream_ok_def)
  with fs stream_ok_messages [OF fs(3)] show ?thesis by (simp add: good_feed_def)
qed

lemma good_feed_single:
  assumes "good_feed {loc} n bs"
  shows "length (deframe bs) = n \<and> framed_length (deframe bs) = length bs \<and>
    length (framed_messages bs) = n \<and> stock_locate ` set (framed_messages bs) \<subseteq> {loc} \<and>
    feed_allowed (framed_messages bs) Map.empty"
proof -
  have "feed_at loc (framed_messages bs) = framed_messages bs"
    using assms by (intro feed_at_all) (auto simp: good_feed_def)
  with assms show ?thesis unfolding good_feed_def by metis
qed

end
