(* ===== verification/Mt19937.thy ===== *)
theory Mt19937
  imports Prelude
begin

text \<open>
  The random engine \<^verbatim>\<open>std::mt19937\<close> that \<^verbatim>\<open>include/feed/synthetic.hpp\<close> seeds and draws from, by
  the recurrence of the C++ standard: the state is the last 624 words, a draw appends the next
  word of the sequence and returns it tempered.
\<close>

fun mt_fill :: "nat \<Rightarrow> nat \<Rightarrow> u32 \<Rightarrow> u32 list" where
  "mt_fill 0 i x = []"
| "mt_fill (Suc n) i x = x # mt_fill n (Suc i) (1812433253 * (x XOR drop_bit 30 x) + of_nat i)"

definition mt_seed :: "u32 \<Rightarrow> u32 list" where
  "mt_seed seed = mt_fill 624 1 seed"

definition mt_twist :: "u32 \<Rightarrow> u32 \<Rightarrow> u32 \<Rightarrow> u32" where
  "mt_twist x y z =
     (let w = (x AND 0x80000000) OR (y AND 0x7fffffff)
      in z XOR drop_bit 1 w XOR (if bit w 0 then 0x9908b0df else 0))"

definition mt_temper :: "u32 \<Rightarrow> u32" where
  "mt_temper z =
     (let z = z XOR drop_bit 11 z;
          z = z XOR (push_bit 7 z AND 0x9d2c5680);
          z = z XOR (push_bit 15 z AND 0xefc60000)
      in z XOR drop_bit 18 z)"

definition mt_next :: "u32 list \<Rightarrow> u32 \<times> u32 list" where
  "mt_next xs =
     (let y = mt_twist (xs ! 0) (xs ! 1) (xs ! 397) in (mt_temper y, tl xs @ [y]))"

lemma length_mt_fill [simp]: "length (mt_fill n i x) = n"
  by (induction n i x rule: mt_fill.induct) simp_all

lemma length_mt_seed [simp]: "length (mt_seed s) = 624"
  by (simp add: mt_seed_def)

lemma length_mt_next: "xs \<noteq> [] \<Longrightarrow> length (snd (mt_next xs)) = length xs"
  by (cases xs) (simp_all add: mt_next_def Let_def)

text \<open>Every state reached from a seed keeps its 624 words, so the three reads stay in range.\<close>

theorem mt_state_length: "length (((\<lambda>s. snd (mt_next s)) ^^ k) (mt_seed seed)) = 624"
proof (induction k)
  case (Suc k)
  let ?s = "((\<lambda>s. snd (mt_next s)) ^^ k) (mt_seed seed)"
  have "?s \<noteq> []" using Suc by (metis list.size(3) zero_neq_numeral)
  with Suc show ?case by (simp add: length_mt_next)
qed simp

end
