(* ===== verification/Synthetic.thy ===== *)
theory Synthetic
  imports Feed_Streams Mt19937
begin

text \<open>
  The synthetic feed generator \<^verbatim>\<open>make_synthetic_itch\<close> of \<^verbatim>\<open>include/feed/synthetic.hpp\<close>. The
  generator's \<^verbatim>\<open>std::mt19937\<close> is given as the function \<open>nx\<close> that draws the next 32-bit number
  from a state of any type, so what is shown holds for every sequence of draws and in particular
  for every seed: the stream consists of exactly the requested number of records, every record
  decodes, and the messages form a well-formed feed.
\<close>

section \<open>The generator\<close>

record 'g gen = "'g src" +
  g_live :: "(u64 \<times> char) list"
  g_mid :: int

definition add_px :: "('g \<Rightarrow> u32 \<times> 'g) \<Rightarrow> char \<Rightarrow> 'g gen \<Rightarrow> int \<times> 'g gen" where
  "add_px nx side s =
     (let (k, s) = pct nx 50 s;
          off = (if side = CHR ''B'' then - (1 + int k) else 1 + int k);
          px = g_mid s + off * 100
      in (if px < 100 then 100 else px, s))"

definition emit_add :: "('g \<Rightarrow> u32 \<times> 'g) \<Rightarrow> 'g gen \<Rightarrow> 'g gen" where
  "emit_add nx s =
     (let (k, s) = pct nx 2 s;
          side = (if k = 0 then CHR ''B'' else CHR ''S'');
          ref = g_next_ref s;
          s = s\<lparr>g_next_ref := g_next_ref s + 1\<rparr>;
          (k, s) = pct nx 990 s;
          shares = of_nat (10 + k);
          (px, s) = add_px nx side s;
          s = emit_frame (body_A 1 (g_ts s) ref side shares (of_int px)) s
      in s\<lparr>g_live := g_live s @ [(ref, side)]\<rparr>)"

definition pick :: "('g \<Rightarrow> u32 \<times> 'g) \<Rightarrow> 'g gen \<Rightarrow> nat \<times> 'g gen" where
  "pick nx s = (let (r, s) = draw nx s in (unat r mod length (g_live s), s))"

definition walk_mid :: "('g \<Rightarrow> u32 \<times> 'g) \<Rightarrow> 'g gen \<Rightarrow> 'g gen" where
  "walk_mid nx s =
     (let (k, s) = pct nx 8 s
      in if k = 0
         then let (k, s) = pct nx 2 s;
                  s = s\<lparr>g_mid := g_mid s + (if k \<noteq> 0 then 100 else - 100)\<rparr>
              in if g_mid s < 1000 then s\<lparr>g_mid := 1000\<rparr> else s
         else s)"

definition emit_execute :: "('g \<Rightarrow> u32 \<times> 'g) \<Rightarrow> 'g gen \<Rightarrow> 'g gen" where
  "emit_execute nx s =
     (let (i, s) = pick nx s; (k, s) = pct nx 20 s
      in emit_frame (body_E 1 (g_ts s) (fst (g_live s ! i)) (of_nat (1 + k)) (of_nat (g_emitted s))) s)"

definition emit_cancel :: "('g \<Rightarrow> u32 \<times> 'g) \<Rightarrow> 'g gen \<Rightarrow> 'g gen" where
  "emit_cancel nx s =
     (let (i, s) = pick nx s; (k, s) = pct nx 20 s
      in emit_frame (body_X 1 (g_ts s) (fst (g_live s ! i)) (of_nat (1 + k))) s)"

definition emit_delete :: "('g \<Rightarrow> u32 \<times> 'g) \<Rightarrow> 'g gen \<Rightarrow> 'g gen" where
  "emit_delete nx s =
     (let (i, s) = pick nx s;
          s = emit_frame (body_D 1 (g_ts s) (fst (g_live s ! i))) s
      in s\<lparr>g_live := butlast ((g_live s)[i := last (g_live s)])\<rparr>)"

definition emit_replace :: "('g \<Rightarrow> u32 \<times> 'g) \<Rightarrow> 'g gen \<Rightarrow> 'g gen" where
  "emit_replace nx s =
     (let (i, s) = pick nx s;
          side = snd (g_live s ! i);
          nref = g_next_ref s;
          s = s\<lparr>g_next_ref := g_next_ref s + 1\<rparr>;
          orig = fst (g_live s ! i);
          (k, s) = pct nx 990 s;
          (px, s) = add_px nx side s;
          s = emit_frame (body_U 1 (g_ts s) orig nref (of_nat (10 + k)) (of_int px)) s
      in s\<lparr>g_live := (g_live s)[i := (nref, side)]\<rparr>)"

definition emit_trade :: "('g \<Rightarrow> u32 \<times> 'g) \<Rightarrow> 'g gen \<Rightarrow> 'g gen" where
  "emit_trade nx s =
     (let (k, s) = pct nx 2 s;
          side = (if k = 0 then CHR ''B'' else CHR ''S'');
          (k, s) = pct nx 200 s
      in emit_frame (body_P 1 (g_ts s) side (of_nat (1 + k)) (of_int (g_mid s)) (of_nat (g_emitted s))) s)"

definition gen_iter :: "('g \<Rightarrow> u32 \<times> 'g) \<Rightarrow> 'g gen \<Rightarrow> 'g gen" where
  "gen_iter nx s =
     (let s = walk_mid nx s;
          (roll, s) = pct nx 100 s;
          s = (if length (g_live s) < 8 \<or> roll < 50 then emit_add nx s
               else if roll < 66 then emit_execute nx s
               else if roll < 78 then emit_cancel nx s
               else if roll < 88 then emit_delete nx s
               else if roll < 96 then emit_replace nx s
               else emit_trade nx s)
      in tick nx 1000 s)"

text \<open>The seeding loop runs at most 16 times, the main loop until the count is reached.\<close>

fun seed_loop :: "('g \<Rightarrow> u32 \<times> 'g) \<Rightarrow> nat \<Rightarrow> nat \<Rightarrow> 'g gen \<Rightarrow> 'g gen" where
  "seed_loop nx n 0 s = s"
| "seed_loop nx n (Suc i) s =
     (if g_emitted s < n
      then let s = emit_add nx s in seed_loop nx n i (s\<lparr>g_emitted := g_emitted s + 1\<rparr>)
      else s)"

lemma emit_frame_live [simp]: "g_live (emit_frame m s) = g_live s"
  by (simp add: emit_frame_def)

lemma pick_eq:
  "pick nx s = (unat (fst (nx (g_rng s))) mod length (g_live s), s\<lparr>g_rng := snd (nx (g_rng s))\<rparr>)"
  by (simp add: pick_def draw_eq)

lemma add_px_sel [simp]:
  "g_emitted (snd (add_px nx side s)) = g_emitted s" "g_live (snd (add_px nx side s)) = g_live s"
  "g_next_ref (snd (add_px nx side s)) = g_next_ref s" "g_out (snd (add_px nx side s)) = g_out s"
  "g_ts (snd (add_px nx side s)) = g_ts s"
  by (simp_all add: add_px_def pct_eq Let_def)

lemma emitted_sel [simp]:
  "g_emitted (emit_add nx s) = g_emitted s" "g_emitted (emit_execute nx s) = g_emitted s"
  "g_emitted (emit_cancel nx s) = g_emitted s" "g_emitted (emit_delete nx s) = g_emitted s"
  "g_emitted (emit_replace nx s) = g_emitted s" "g_emitted (emit_trade nx s) = g_emitted s"
  by (simp_all add: emit_add_def emit_execute_def emit_cancel_def emit_delete_def emit_replace_def
      emit_trade_def pct_eq pick_eq case_prod_beta Let_def)

lemma walk_mid_sel [simp]:
  "g_emitted (walk_mid nx s) = g_emitted s" "g_live (walk_mid nx s) = g_live s"
  "g_next_ref (walk_mid nx s) = g_next_ref s" "g_out (walk_mid nx s) = g_out s"
  by (simp_all add: walk_mid_def pct_eq Let_def)

lemma gen_iter_emitted: "g_emitted (gen_iter nx s) = Suc (g_emitted s)"
  by (simp add: gen_iter_def pct_eq Let_def)

function main_loop :: "('g \<Rightarrow> u32 \<times> 'g) \<Rightarrow> nat \<Rightarrow> 'g gen \<Rightarrow> 'g gen" where
  "main_loop nx n s = (if g_emitted s < n then main_loop nx n (gen_iter nx s) else s)"
  by pat_completeness auto
termination
  by (relation "measure (\<lambda>(nx, n, s). n - g_emitted s)") (simp_all add: gen_iter_emitted)

declare main_loop.simps [simp del]

definition gen_init :: "'g \<Rightarrow> 'g gen" where
  "gen_init g = \<lparr>g_rng = g, g_out = [], g_next_ref = 1, g_ts = 34200 * 1000000000, g_emitted = 0,
                 g_live = [], g_mid = 1000000\<rparr>"

definition make_synthetic_itch :: "('g \<Rightarrow> u32 \<times> 'g) \<Rightarrow> nat \<Rightarrow> 'g \<Rightarrow> bytes" where
  "make_synthetic_itch nx n_messages g =
     g_out (main_loop nx n_messages (seed_loop nx n_messages 16 (gen_init g)))"

section \<open>The stream is a well-formed feed\<close>

text \<open>At most 999 shares in an order, and every record is about symbol 1.\<close>

abbreviation itch_ok :: "nat \<Rightarrow> 'g gen \<Rightarrow> bool" where
  "itch_ok \<equiv> src_ok 999 {1}"

lemma itch_ok_add:
  assumes "itch_ok n s" and "room_for 999 n"
  shows "itch_ok (Suc n) (emit_add nx s)"
proof -
  let ?k = "unat (fst (nx (snd (nx (g_rng s))))) mod 990"
  have "of_nat (10 + ?k) \<noteq> (0 :: u32)" "unat (of_nat (10 + ?k) :: u32) \<le> 999"
    using share_count [of "10 + ?k" 999] by (simp_all del: of_nat_add)
  with assms(2) show ?thesis
    by (intro src_ok_emit [OF assms(1), where loc = 1])
      (auto simp: emit_add_def pct_eq case_prod_beta Let_def simp del: of_nat_add intro!: emits_add split: if_splits)
qed

lemma itch_ok_replace:
  assumes "itch_ok n s" and "room_for 999 n"
  shows "itch_ok (Suc n) (emit_replace nx s)"
proof -
  let ?k = "unat (fst (nx (snd (nx (g_rng s))))) mod 990"
  have "of_nat (10 + ?k) \<noteq> (0 :: u32)" "unat (of_nat (10 + ?k) :: u32) \<le> 999"
    using share_count [of "10 + ?k" 999] by (simp_all del: of_nat_add)
  with assms(2) show ?thesis
    by (intro src_ok_emit [OF assms(1), where loc = 1])
      (auto simp: emit_replace_def pct_eq pick_eq case_prod_beta Let_def simp del: of_nat_add intro!: emits_replace)
qed

lemmas emit_simps = emit_execute_def emit_cancel_def emit_delete_def emit_trade_def pct_eq pick_eq Let_def
  emits_execute emits_cancel emits_delete emits_trade

lemma itch_ok_other:
  assumes "itch_ok n s"
  shows "itch_ok (Suc n) (emit_execute nx s)" "itch_ok (Suc n) (emit_cancel nx s)"
    "itch_ok (Suc n) (emit_delete nx s)" "itch_ok (Suc n) (emit_trade nx s)"
  by (rule src_ok_emit [OF assms, where loc = 1], simp add: emit_simps, simp add: emit_simps, simp)+

lemma itch_ok_iter:
  assumes "itch_ok n s" and "room_for 999 n"
  shows "itch_ok (Suc n) (gen_iter nx s)"
proof -
  let ?s = "snd (pct nx 100 (walk_mid nx s))"
  have "itch_ok n ?s" using assms(1) by (rule src_ok_cong [rotated 2]) (simp_all add: pct_eq)
  note ops = itch_ok_add [OF this assms(2)] itch_ok_replace [OF this assms(2)] itch_ok_other [OF this]
  show ?thesis
    unfolding gen_iter_def Let_def case_prod_beta
    by (rule src_ok_cong [rotated 2]) (use ops in \<open>auto simp: pct_eq\<close>)
qed

lemma itch_ok_seed:
  assumes "itch_ok (g_emitted s) s" "g_emitted s \<le> n" "room_for 999 n"
  shows "itch_ok (g_emitted (seed_loop nx n i s)) (seed_loop nx n i s) \<and> g_emitted (seed_loop nx n i s) \<le> n"
  using assms
proof (induction nx n i s rule: seed_loop.induct)
  case (2 nx n i s)
  let ?s = "(emit_add nx s)\<lparr>g_emitted := g_emitted (emit_add nx s) + 1\<rparr>"
  show ?case
  proof (cases "g_emitted s < n")
    case True
    then have "itch_ok (Suc (g_emitted s)) (emit_add nx s)"
      using "2.prems" room_for_less by (intro itch_ok_add) auto
    then have "itch_ok (g_emitted ?s) ?s" by (simp add: src_ok_def)
    with "2.IH" [OF True refl] "2.prems" True show ?thesis by (simp add: Let_def)
  qed (use "2.prems" in simp)
qed simp

lemma itch_ok_main:
  assumes "itch_ok (g_emitted s) s" "g_emitted s \<le> n" "room_for 999 n"
  shows "itch_ok n (main_loop nx n s)"
  using assms
proof (induction nx n s rule: main_loop.induct)
  case (1 nx n s)
  show ?case
  proof (cases "g_emitted s < n")
    case True
    then have "itch_ok (g_emitted (gen_iter nx s)) (gen_iter nx s)"
      using "1.prems" room_for_less by (auto simp: gen_iter_emitted intro!: itch_ok_iter)
    with "1.IH" [OF True] "1.prems" True show ?thesis
      by (subst main_loop.simps) (simp add: gen_iter_emitted)
  next
    case False
    with "1.prems" show ?thesis by (subst main_loop.simps) simp
  qed
qed

lemma itch_ok_stream:
  assumes "n \<le> 4000000"
  shows "good_feed {1} n (make_synthetic_itch nx n g)"
proof -
  have init: "itch_ok (g_emitted (gen_init g)) (gen_init g)" "g_emitted (gen_init g) \<le> n"
    using src_ok_init [of "gen_init g"] by (simp_all add: gen_init_def)
  have "room_for 999 n" using assms by (simp add: room_for_def)
  with itch_ok_main [OF _ _ this] itch_ok_seed [OF init this] show ?thesis
    unfolding make_synthetic_itch_def by (blast intro: src_ok_good_feed)
qed

section \<open>Properties\<close>

text \<open>C11. The synthetic feed is well formed: whatever numbers the random engine draws, a requested
  stream of up to four million messages consists of exactly that many records and nothing else,
  every record decodes to a message of symbol 1, and the messages are an allowed feed: no
  reference is reused and no level total or order count can wrap.\<close>

theorem synthetic_itch_well_formed:
  assumes "n \<le> 4000000"
  shows "length (deframe (make_synthetic_itch nx n g)) = n \<and>
    framed_length (deframe (make_synthetic_itch nx n g)) = length (make_synthetic_itch nx n g) \<and>
    length (framed_messages (make_synthetic_itch nx n g)) = n \<and>
    stock_locate ` set (framed_messages (make_synthetic_itch nx n g)) \<subseteq> {1} \<and>
    feed_allowed (framed_messages (make_synthetic_itch nx n g)) Map.empty"
  using itch_ok_stream [OF assms] by (rule good_feed_single)

theorem synthetic_itch_well_formed_witness:
  "length (framed_messages (make_synthetic_itch mt_next 1000 (mt_seed 1))) = 1000 \<and>
   feed_allowed (framed_messages (make_synthetic_itch mt_next 1000 (mt_seed 1))) Map.empty"
  using synthetic_itch_well_formed [of 1000 mt_next "mt_seed 1"] by simp

end
