(* ===== verification/Synthetic_Multi.thy ===== *)
theory Synthetic_Multi
  imports Feed_Streams Mt19937 Book_Set Book_Runs
begin

text \<open>
  The multi-symbol generator \<^verbatim>\<open>make_synthetic_multi\<close> of \<^verbatim>\<open>include/feed/synthetic.hpp\<close>: directory
  records first, then orders interleaved over the symbols, each with its own mid price and pool of
  live orders. References are unique over all symbols, so each symbol's messages are a well-formed
  feed of their own, however the symbols interleave.
\<close>

section \<open>The generator\<close>

record sym =
  sy_mid :: int
  sy_live :: "(u64 \<times> char) list"

record 'g mgen = "'g src" +
  g_syms :: "sym list"

definition sym_name :: "nat \<Rightarrow> string" where
  "sym_name s = ''SYN'' @ [char_of (48 + s div 10 mod 10), char_of (48 + s mod 10)] @ ''   ''"

definition locate_of :: "nat \<Rightarrow> u16" where
  "locate_of s = of_nat (s + 1)"

fun directory_loop :: "nat \<Rightarrow> nat \<Rightarrow> nat \<Rightarrow> 'g mgen \<Rightarrow> 'g mgen" where
  "directory_loop n s 0 g = g"
| "directory_loop n s (Suc k) g =
     (if g_emitted g < n
      then let g = emit_frame (body_R (locate_of s) (g_ts g) (sym_name s)) g
           in directory_loop n (Suc s) k (g\<lparr>g_emitted := g_emitted g + 1\<rparr>)
      else g)"

definition sym_upd :: "nat \<Rightarrow> (sym \<Rightarrow> sym) \<Rightarrow> 'g mgen \<Rightarrow> 'g mgen" where
  "sym_upd s f g = g\<lparr>g_syms := (g_syms g)[s := f (g_syms g ! s)]\<rparr>"

definition multi_walk :: "('g \<Rightarrow> u32 \<times> 'g) \<Rightarrow> nat \<Rightarrow> 'g mgen \<Rightarrow> 'g mgen" where
  "multi_walk nx s g =
     (let (k, g) = pct nx 8 g
      in if k = 0
         then let (k, g) = pct nx 2 g;
                  g = sym_upd s (\<lambda>y. y\<lparr>sy_mid := sy_mid y + (if k \<noteq> 0 then 100 else - 100)\<rparr>) g
              in if sy_mid (g_syms g ! s) < 1000 then sym_upd s (\<lambda>y. y\<lparr>sy_mid := 1000\<rparr>) g else g
         else g)"

definition multi_px :: "('g \<Rightarrow> u32 \<times> 'g) \<Rightarrow> nat \<Rightarrow> char \<Rightarrow> 'g mgen \<Rightarrow> int \<times> 'g mgen" where
  "multi_px nx s side g =
     (let (k, g) = pct nx 50 g;
          off = (if side = CHR ''B'' then - (1 + int k) else 1 + int k);
          px = sy_mid (g_syms g ! s) + off * 100
      in (if px < 100 then 100 else px, g))"

definition multi_pick :: "('g \<Rightarrow> u32 \<times> 'g) \<Rightarrow> nat \<Rightarrow> 'g mgen \<Rightarrow> nat \<times> 'g mgen" where
  "multi_pick nx s g =
     (let (r, g) = draw nx g in (unat r mod length (sy_live (g_syms g ! s)), g))"

definition multi_add :: "('g \<Rightarrow> u32 \<times> 'g) \<Rightarrow> nat \<Rightarrow> 'g mgen \<Rightarrow> 'g mgen" where
  "multi_add nx s g =
     (let (k, g) = pct nx 2 g;
          side = (if k = 0 then CHR ''B'' else CHR ''S'');
          ref = g_next_ref g;
          g = g\<lparr>g_next_ref := g_next_ref g + 1\<rparr>;
          (k, g) = pct nx 990 g;
          (px, g) = multi_px nx s side g;
          g = emit_frame (body_A (locate_of s) (g_ts g) ref side (of_nat (10 + k)) (of_int px)) g
      in sym_upd s (\<lambda>y. y\<lparr>sy_live := sy_live y @ [(ref, side)]\<rparr>) g)"

definition multi_execute :: "('g \<Rightarrow> u32 \<times> 'g) \<Rightarrow> nat \<Rightarrow> 'g mgen \<Rightarrow> 'g mgen" where
  "multi_execute nx s g =
     (let (i, g) = multi_pick nx s g; (k, g) = pct nx 20 g
      in emit_frame (body_E (locate_of s) (g_ts g) (fst (sy_live (g_syms g ! s) ! i)) (of_nat (1 + k))
                       (of_nat (g_emitted g))) g)"

definition multi_cancel :: "('g \<Rightarrow> u32 \<times> 'g) \<Rightarrow> nat \<Rightarrow> 'g mgen \<Rightarrow> 'g mgen" where
  "multi_cancel nx s g =
     (let (i, g) = multi_pick nx s g; (k, g) = pct nx 20 g
      in emit_frame (body_X (locate_of s) (g_ts g) (fst (sy_live (g_syms g ! s) ! i)) (of_nat (1 + k))) g)"

definition multi_delete :: "('g \<Rightarrow> u32 \<times> 'g) \<Rightarrow> nat \<Rightarrow> 'g mgen \<Rightarrow> 'g mgen" where
  "multi_delete nx s g =
     (let (i, g) = multi_pick nx s g;
          g = emit_frame (body_D (locate_of s) (g_ts g) (fst (sy_live (g_syms g ! s) ! i))) g
      in sym_upd s (\<lambda>y. y\<lparr>sy_live := butlast ((sy_live y)[i := last (sy_live y)])\<rparr>) g)"

definition multi_iter :: "('g \<Rightarrow> u32 \<times> 'g) \<Rightarrow> nat \<Rightarrow> 'g mgen \<Rightarrow> 'g mgen" where
  "multi_iter nx n_symbols g =
     (let (r, g) = draw nx g;
          s = unat r mod n_symbols;
          g = multi_walk nx s g;
          (roll, g) = pct nx 100 g;
          g = (if length (sy_live (g_syms g ! s)) < 4 \<or> roll < 55 then multi_add nx s g
               else if roll < 72 then multi_execute nx s g
               else if roll < 84 then multi_cancel nx s g
               else multi_delete nx s g)
      in tick nx 1000 g)"

lemma sym_upd_sel [simp]:
  "g_out (sym_upd s f g) = g_out g" "g_next_ref (sym_upd s f g) = g_next_ref g"
  "g_emitted (sym_upd s f g) = g_emitted g" "g_ts (sym_upd s f g) = g_ts g"
  "g_rng (sym_upd s f g) = g_rng g"
  by (simp_all add: sym_upd_def)

lemma multi_walk_sel [simp]:
  "g_out (multi_walk nx s g) = g_out g" "g_next_ref (multi_walk nx s g) = g_next_ref g"
  "g_emitted (multi_walk nx s g) = g_emitted g"
  by (simp_all add: multi_walk_def pct_eq Let_def)

lemma multi_px_sel [simp]:
  "g_out (snd (multi_px nx s side g)) = g_out g" "g_next_ref (snd (multi_px nx s side g)) = g_next_ref g"
  "g_emitted (snd (multi_px nx s side g)) = g_emitted g" "g_ts (snd (multi_px nx s side g)) = g_ts g"
  by (simp_all add: multi_px_def pct_eq Let_def)

lemma multi_pick_eq:
  "multi_pick nx s g =
     (unat (fst (nx (g_rng g))) mod length (sy_live (g_syms g ! s)), g\<lparr>g_rng := snd (nx (g_rng g))\<rparr>)"
  by (simp add: multi_pick_def draw_eq)

lemmas multi_defs = multi_add_def multi_execute_def multi_cancel_def multi_delete_def pct_eq multi_pick_eq
  case_prod_beta Let_def

lemma multi_iter_emitted [simp]: "g_emitted (multi_iter nx k g) = Suc (g_emitted g)"
  by (simp add: multi_iter_def draw_eq multi_defs)

function multi_loop :: "('g \<Rightarrow> u32 \<times> 'g) \<Rightarrow> nat \<Rightarrow> nat \<Rightarrow> 'g mgen \<Rightarrow> 'g mgen" where
  "multi_loop nx n_symbols n g =
     (if g_emitted g < n then multi_loop nx n_symbols n (multi_iter nx n_symbols g) else g)"
  by pat_completeness auto
termination by (relation "measure (\<lambda>(nx, k, n, g). n - g_emitted g)") simp_all

declare multi_loop.simps [simp del]

definition multi_init :: "nat \<Rightarrow> 'g \<Rightarrow> 'g mgen" where
  "multi_init n_symbols g =
     \<lparr>g_rng = g, g_out = [], g_next_ref = 1, g_ts = 34200 * 1000000000, g_emitted = 0,
      g_syms = map (\<lambda>s. \<lparr>sy_mid = 1000000 + int s * 5000, sy_live = []\<rparr>) [0..<n_symbols]\<rparr>"

definition make_synthetic_multi :: "('g \<Rightarrow> u32 \<times> 'g) \<Rightarrow> nat \<Rightarrow> nat \<Rightarrow> 'g \<Rightarrow> bytes" where
  "make_synthetic_multi nx n_messages n_symbols0 g =
     (let n_symbols = (if n_symbols0 < 1 then 1 else n_symbols0)
      in g_out (multi_loop nx n_symbols n_messages
                 (directory_loop n_messages 0 n_symbols (multi_init n_symbols g))))"

section \<open>Every symbol's messages are a well-formed feed\<close>

abbreviation locates :: "nat \<Rightarrow> u16 set" where
  "locates k \<equiv> locate_of ` {..<k}"

lemma emits_directory: "emits Q k (locate_of s) ref (body_R (locate_of s) ts (sym_name s)) ref"
  using good_msg_other
  by (auto simp: emits_def frameable_def decode_frame_def body_R_length decode_body_R sym_name_def
      intro: Nat.gr0I)

lemma src_ok_multi_add:
  assumes "src_ok 999 L n g" "room_for 999 n" "locate_of s \<in> L"
  shows "src_ok 999 L (Suc n) (multi_add nx s g)"
proof -
  let ?k = "unat (fst (nx (snd (nx (g_rng g))))) mod 990"
  have "of_nat (10 + ?k) \<noteq> (0 :: u32)" "unat (of_nat (10 + ?k) :: u32) \<le> 999"
    using share_count [of "10 + ?k" 999] by (simp_all del: of_nat_add)
  with assms show ?thesis
    by (intro src_ok_emit [OF assms(1), where loc = "locate_of s"])
      (auto simp: multi_defs simp del: of_nat_add intro!: emits_add split: if_splits)
qed

lemma src_ok_multi_other:
  assumes "src_ok 999 L n g" "locate_of s \<in> L"
  shows "src_ok 999 L (Suc n) (multi_execute nx s g)" "src_ok 999 L (Suc n) (multi_cancel nx s g)"
    "src_ok 999 L (Suc n) (multi_delete nx s g)"
  by (rule src_ok_emit [OF assms(1) _ _ assms(2)], simp add: multi_defs,
      simp add: multi_defs emits_execute emits_cancel emits_delete)+

lemma src_ok_multi_iter:
  assumes "src_ok 999 (locates k) n g" "room_for 999 n" "0 < k"
  shows "src_ok 999 (locates k) (Suc n) (multi_iter nx k g)"
proof -
  define s where "s = unat (fst (nx (g_rng g))) mod k"
  let ?g = "snd (pct nx 100 (multi_walk nx s (snd (draw nx g))))"
  have loc: "locate_of s \<in> locates k" using assms(3) by (simp add: s_def)
  have "src_ok 999 (locates k) n ?g"
    using assms(1) by (rule src_ok_cong [rotated 2]) (simp_all add: pct_eq draw_eq)
  note ops = src_ok_multi_add [OF this assms(2) loc] src_ok_multi_other [OF this loc]
  show ?thesis
    unfolding multi_iter_def Let_def case_prod_beta
    by (rule src_ok_cong [rotated 2]) (use ops in \<open>auto simp: pct_eq draw_eq s_def\<close>)
qed

lemma src_ok_directory:
  assumes "src_ok 999 (locates m) (g_emitted g) g" "g_emitted g \<le> n" "s + k \<le> m"
  shows "src_ok 999 (locates m) (g_emitted (directory_loop n s k g)) (directory_loop n s k g) \<and>
         g_emitted (directory_loop n s k g) \<le> n"
  using assms
proof (induction n s k g rule: directory_loop.induct)
  case (2 n s k g)
  let ?g = "emit_frame (body_R (locate_of s) (g_ts g) (sym_name s)) g"
  show ?case
  proof (cases "g_emitted g < n")
    case True
    have "src_ok 999 (locates m) (Suc (g_emitted g)) ?g"
      using "2.prems" by (intro src_ok_emit [OF "2.prems"(1) _ _ imageI, of _ _ s]) (auto simp: emits_directory)
    then have "src_ok 999 (locates m) (Suc (g_emitted g)) (?g\<lparr>g_emitted := Suc (g_emitted g)\<rparr>)"
      by (simp add: src_ok_def)
    with "2.IH" [OF True refl] "2.prems" True show ?thesis by (simp add: Let_def)
  qed (use "2.prems" in simp)
qed simp

lemma src_ok_multi_loop:
  assumes "src_ok 999 (locates k) (g_emitted g) g" "g_emitted g \<le> n" "room_for 999 n" "0 < k"
  shows "src_ok 999 (locates k) n (multi_loop nx k n g)"
  using assms
proof (induction nx k n g rule: multi_loop.induct)
  case (1 nx k n g)
  show ?case
  proof (cases "g_emitted g < n")
    case True
    then have "src_ok 999 (locates k) (g_emitted (multi_iter nx k g)) (multi_iter nx k g)"
      using "1.prems" room_for_less by (auto intro!: src_ok_multi_iter)
    with "1.IH" [OF True] "1.prems" True show ?thesis by (subst multi_loop.simps) simp
  next
    case False
    with "1.prems" show ?thesis by (subst multi_loop.simps) simp
  qed
qed

lemma multi_good_feed:
  assumes "n \<le> 4000000" and "0 < k"
  shows "good_feed (locates k) n (make_synthetic_multi nx n k g)"
proof -
  have init: "src_ok 999 (locates k) (g_emitted (multi_init k g)) (multi_init k g)"
      "g_emitted (multi_init k g) \<le> n"
    using src_ok_init [of "multi_init k g"] by (simp_all add: multi_init_def)
  have "room_for 999 n" using assms(1) by (simp add: room_for_def)
  with src_ok_multi_loop [OF _ _ this assms(2)] src_ok_directory [OF init, of 0 k] assms(2)
  show ?thesis
    unfolding make_synthetic_multi_def by (auto simp: Let_def intro: src_ok_good_feed)
qed

lemma make_synthetic_multi_0: "make_synthetic_multi nx n 0 g = make_synthetic_multi nx n 1 g"
  by (simp add: make_synthetic_multi_def)

section \<open>Properties\<close>

text \<open>C12. The multi-symbol feed builds consistent books: for up to four million messages, any number
  of symbols and whatever the random engine draws, the stream consists of exactly the requested
  records, all decodable, and every book the set holds after reading it belongs to one of the
  symbols, passes the book's consistency check and shows the abstract book of that symbol's
  messages.\<close>

theorem synthetic_multi_books:
  assumes "n \<le> 4000000" and "ms = framed_messages (make_synthetic_multi nx n n_symbols g)"
    and "bs_book (bs_run ms bs_new) l = Some b"
  shows "length ms = n \<and> l \<in> locates (max 1 n_symbols) \<and> invariant_ok MapLevels b \<and>
         book_shows MapLevels b (fold spec_apply (feed_at l ms) Map.empty)"
proof -
  have "make_synthetic_multi nx n n_symbols g = make_synthetic_multi nx n (max 1 n_symbols) g"
    by (cases n_symbols) (simp_all add: make_synthetic_multi_0)
  then have feed: "good_feed (locates (max 1 n_symbols)) n (make_synthetic_multi nx n n_symbols g)"
    using multi_good_feed [OF assms(1), of "max 1 n_symbols" nx g] by simp
  have ops: "list_ex (\<lambda>m. at_locate l m \<and> opens_book m) ms" and b: "b = book_run MapLevels (feed_at l ms)"
    using assms(3) by (auto simp: bs_run_new_book list_ex_iff feed_at_def at_locate_def [abs_def] split: if_splits)
  from ops have "l \<in> stock_locate ` set ms" by (auto simp: list_ex_iff at_locate_def)
  with feed have "l \<in> locates (max 1 n_symbols)" "length ms = n"
    unfolding good_feed_def assms(2) by blast+
  moreover have al: "feed_allowed (feed_at l ms) Map.empty" using feed by (simp add: good_feed_def assms(2))
  ultimately show ?thesis
    using map_store.book_run_ok(3) [OF al] map_store.book_run_shows [OF al] b by simp
qed

theorem synthetic_multi_books_witness:
  "\<exists>b. bs_book (bs_run (framed_messages (make_synthetic_multi mt_next 1 2 (mt_seed 1))) bs_new) 1 = Some b \<and>
       invariant_ok MapLevels b"
proof -
  let ?bs = "make_synthetic_multi mt_next 1 2 (mt_seed 1)"
  let ?R = "body_R 1 34200000000000 ''SYN00   ''"
  have "char_of (48 :: nat) = CHR ''0''" by (simp add: char_of_def bit_iff_odd)
  then have "?bs = frames [?R]"
    by (simp add: make_synthetic_multi_def multi_init_def numeral_2_eq_2 multi_loop.simps emit_frame_def
        locate_of_def sym_name_def frames_def del: frames_simps)
  moreover have "frameable ?R" by (simp add: frameable_def body_R_length flip: length_greater_0_conv)
  ultimately have "framed_messages ?bs = [Message_init\<lparr>msg_type := StockDirectory, stock_locate := 1,
      timestamp := take_bit 48 34200000000000, stock := ''SYN00   ''\<rparr>]"
    using deframe_frames [of "[?R]" "[]"] deframe_padding [of 0]
    by (simp add: framed_messages_def map_filter_simps decode_frame_def body_R_length decode_body_R)
  then have "\<exists>b. bs_book (bs_run (framed_messages ?bs) bs_new) 1 = Some b"
    by (simp add: bs_run_new_book at_locate_def opens_book_def)
  then show ?thesis using synthetic_multi_books [of 1 _ mt_next 2 "mt_seed 1" 1] by auto
qed

end
