(* ===== verification/Synthetic_Book.thy ===== *)
theory Synthetic_Book
  imports Feed_Streams Mt19937 Book_Runs "HOL-Library.Signed_Division" "HOL-Library.Sublist"
begin

text \<open>
  The L2 demo generator \<^verbatim>\<open>make_synthetic_book\<close> of \<^verbatim>\<open>include/feed/synthetic.hpp\<close>, which prices every
  new order against the inside of the orders it still counts as live. The orders resting in the
  reconstructed book are always among those, so the book a reader builds is never crossed, after
  any prefix of the stream.
\<close>

section \<open>The generator\<close>

record 'g bgen = "'g src" +
  g_live :: "(u64 \<times> char) list"
  g_px :: "int list"

fun best_loop :: "char \<Rightarrow> ((u64 \<times> char) \<times> int) list \<Rightarrow> bool \<Rightarrow> int \<Rightarrow> bool \<times> int" where
  "best_loop side [] found v = (found, v)"
| "best_loop side (((r, sd), p) # es) found v =
     (if sd = side
      then if \<not> found then best_loop side es True p
           else if (if side = CHR ''B'' then p > v else p < v) then best_loop side es found p
           else best_loop side es found v
      else best_loop side es found v)"

definition gen_best :: "char \<Rightarrow> 'g bgen \<Rightarrow> int" where
  "gen_best side s =
     (let (found, v) = best_loop side (zip (g_live s) (g_px s)) False 0
      in if found then v else if side = CHR ''B'' then 1001000 else 1001100)"

definition book_gen_add :: "('g \<Rightarrow> u32 \<times> 'g) \<Rightarrow> char \<Rightarrow> 'g bgen \<Rightarrow> 'g bgen" where
  "book_gen_add nx side s =
     (let bb = gen_best CHR ''B'' s; ba = gen_best CHR ''S'' s;
          (k, s) = pct nx 10 s;
          price = (if side = CHR ''B'' then ba - 100 - int k * 100 else bb + 100 + int k * 100);
          price = (if price < 100 then 100 else price);
          ref = g_next_ref s;
          s = s\<lparr>g_next_ref := g_next_ref s + 1\<rparr>;
          (k, s) = pct nx 2500 s;
          s = emit_frame (body_A 1 (g_ts s) ref side (of_nat (50 + k)) (of_int price)) s
      in s\<lparr>g_live := g_live s @ [(ref, side)], g_px := g_px s @ [price]\<rparr>)"

definition book_gen_execute :: "('g \<Rightarrow> u32 \<times> 'g) \<Rightarrow> 'g bgen \<Rightarrow> 'g bgen" where
  "book_gen_execute nx s =
     (let (r, s) = draw nx s; i = unat r mod length (g_live s); (k, s) = pct nx 150 s
      in emit_frame (body_E 1 (g_ts s) (fst (g_live s ! i)) (of_nat (5 + k)) (of_nat (g_emitted s))) s)"

definition book_gen_delete :: "('g \<Rightarrow> u32 \<times> 'g) \<Rightarrow> 'g bgen \<Rightarrow> 'g bgen" where
  "book_gen_delete nx s =
     (let (r, s) = draw nx s; i = unat r mod length (g_live s);
          s = emit_frame (body_D 1 (g_ts s) (fst (g_live s ! i))) s
      in s\<lparr>g_live := butlast ((g_live s)[i := last (g_live s)]),
           g_px := butlast ((g_px s)[i := last (g_px s)])\<rparr>)"

definition book_gen_trade :: "('g \<Rightarrow> u32 \<times> 'g) \<Rightarrow> 'g bgen \<Rightarrow> 'g bgen" where
  "book_gen_trade nx s =
     (let mid = (gen_best CHR ''B'' s + gen_best CHR ''S'' s) sdiv 2;
          (k, s) = pct nx 2 s;
          side = (if k = 0 then CHR ''B'' else CHR ''S'');
          (k, s) = pct nx 600 s
      in emit_frame (body_P 1 (g_ts s) side (of_nat (10 + k)) (of_int mid) (of_nat (g_emitted s))) s)"

definition book_gen_iter :: "('g \<Rightarrow> u32 \<times> 'g) \<Rightarrow> 'g bgen \<Rightarrow> 'g bgen" where
  "book_gen_iter nx s =
     (let (roll, s) = pct nx 100 s;
          s = (if roll < 42 \<or> length (g_live s) < 10
               then let (k, s) = pct nx 2 s
                    in book_gen_add nx (if k = 0 then CHR ''B'' else CHR ''S'') s
               else if roll < 64 then book_gen_execute nx s
               else if roll < 82 then book_gen_delete nx s
               else book_gen_trade nx s)
      in tick nx 800 s)"

text \<open>The seeding loop \<open>for (int i = 0; i < 20 \<dots>)\<close>, with \<open>k\<close> iterations left.\<close>

fun book_seed_loop :: "('g \<Rightarrow> u32 \<times> 'g) \<Rightarrow> nat \<Rightarrow> nat \<Rightarrow> nat \<Rightarrow> 'g bgen \<Rightarrow> 'g bgen" where
  "book_seed_loop nx n i 0 s = s"
| "book_seed_loop nx n i (Suc k) s =
     (if g_emitted s < n
      then let s = book_gen_add nx (if odd i then CHR ''S'' else CHR ''B'') s
           in book_seed_loop nx n (Suc i) k (s\<lparr>g_emitted := g_emitted s + 1\<rparr>)
      else s)"

lemmas book_gen_defs = book_gen_add_def book_gen_execute_def book_gen_delete_def book_gen_trade_def
  draw_eq pct_eq case_prod_beta Let_def

lemma book_gen_emitted [simp]:
  "g_emitted (book_gen_add nx side s) = g_emitted s" "g_emitted (book_gen_iter nx s) = Suc (g_emitted s)"
  by (simp_all add: book_gen_defs book_gen_iter_def)

function book_main_loop :: "('g \<Rightarrow> u32 \<times> 'g) \<Rightarrow> nat \<Rightarrow> 'g bgen \<Rightarrow> 'g bgen" where
  "book_main_loop nx n s = (if g_emitted s < n then book_main_loop nx n (book_gen_iter nx s) else s)"
  by pat_completeness auto
termination by (relation "measure (\<lambda>(nx, n, s). n - g_emitted s)") simp_all

declare book_main_loop.simps [simp del]

definition book_gen_init :: "'g \<Rightarrow> 'g bgen" where
  "book_gen_init g = \<lparr>g_rng = g, g_out = [], g_next_ref = 1, g_ts = 34200 * 1000000000, g_emitted = 0,
                      g_live = [], g_px = []\<rparr>"

definition make_synthetic_book :: "('g \<Rightarrow> u32 \<times> 'g) \<Rightarrow> nat \<Rightarrow> 'g \<Rightarrow> bytes" where
  "make_synthetic_book nx n_messages g =
     g_out (book_main_loop nx n_messages (book_seed_loop nx n_messages 0 20 (book_gen_init g)))"

section \<open>The inside of the live orders\<close>

type_synonym entries = "((u64 \<times> char) \<times> int) list"

abbreviation entries :: "'g bgen \<Rightarrow> entries" where
  "entries s \<equiv> zip (g_live s) (g_px s)"

definition prices :: "char \<Rightarrow> entries \<Rightarrow> int set" where
  "prices side es = {p. \<exists>r. ((r, side), p) \<in> set es}"

lemma prices_simps [simp]:
  "prices side [] = {}"
  "prices side (((r, sd), p) # es) = (if sd = side then insert p (prices side es) else prices side es)"
  "prices side (es @ [((r, sd), p)]) = (if sd = side then insert p (prices side es) else prices side es)"
  by (auto simp: prices_def)

text \<open>The loop keeps the best price seen so far, counting the one it started with.\<close>

definition no_better :: "char \<Rightarrow> int \<Rightarrow> int \<Rightarrow> bool" where
  "no_better side p v \<longleftrightarrow> (if side = CHR ''B'' then p \<le> v else v \<le> p)"

lemma best_loop_found:
  "fst (best_loop side es True v) \<and> snd (best_loop side es True v) \<in> insert v (prices side es) \<and>
   (\<forall>p \<in> insert v (prices side es). no_better side p (snd (best_loop side es True v)))"
proof (induction es arbitrary: v)
  case (Cons e es)
  obtain r sd p where e: "e = ((r, sd), p)" by (metis surj_pair)
  show ?case using Cons.IH [of v] Cons.IH [of p] by (auto simp: e no_better_def)
qed (simp add: no_better_def)

lemma best_loop_spec:
  "fst (best_loop side es False v) \<longleftrightarrow> prices side es \<noteq> {}"
  "prices side es \<noteq> {} \<Longrightarrow> snd (best_loop side es False v) \<in> prices side es \<and>
     (\<forall>p \<in> prices side es. no_better side p (snd (best_loop side es False v)))"
proof (atomize(full), induction es)
  case (Cons e es)
  obtain r sd p where e: "e = ((r, sd), p)" by (metis surj_pair)
  show ?case using Cons.IH best_loop_found [of side es p] by (simp add: e)
qed simp

lemma gen_best_spec:
  "prices side (entries s) = {} \<Longrightarrow> gen_best side s = (if side = CHR ''B'' then 1001000 else 1001100)"
  "prices side (entries s) \<noteq> {} \<Longrightarrow> gen_best side s \<in> prices side (entries s)"
  "p \<in> prices side (entries s) \<Longrightarrow> no_better side p (gen_best side s)"
  using best_loop_spec [of side "entries s" 0] by (auto simp: gen_best_def case_prod_beta)

section \<open>Live orders do not cross\<close>

text \<open>
  \<open>entries_ok n es\<close>: bids lie below asks, bids are at least one cent, asks at least two, and no
  price has moved further from the start than \<open>n\<close> adds can take it.
\<close>

definition entries_ok :: "nat \<Rightarrow> entries \<Rightarrow> bool" where
  "entries_ok n es \<longleftrightarrow>
     prices CHR ''B'' es \<subseteq> {100..1001100 + 1000 * int n} \<and>
     prices CHR ''S'' es \<subseteq> {200..1001100 + 1000 * int n} \<and>
     (\<forall>p \<in> prices CHR ''B'' es. \<forall>q \<in> prices CHR ''S'' es. p < q) \<and>
     (\<forall>e \<in> set es. snd (fst e) \<in> {CHR ''B'', CHR ''S''})"

lemma entries_ok_mono:
  assumes "entries_ok n es" and "set es' \<subseteq> set es"
  shows "entries_ok (Suc n) es'"
proof -
  have sub: "prices side es' \<subseteq> prices side es" for side using assms(2) by (auto simp: prices_def)
  have up: "{a..1001100 + 1000 * int n} \<subseteq> {a..1001100 + 1000 * int (Suc n)}" for a by auto
  from assms show ?thesis
    unfolding entries_ok_def by (meson sub up subset_trans subsetD)
qed

definition add_price :: "char \<Rightarrow> nat \<Rightarrow> 'g bgen \<Rightarrow> int" where
  "add_price side k s =
     (let price = (if side = CHR ''B'' then gen_best CHR ''S'' s - 100 - int k * 100
                   else gen_best CHR ''B'' s + 100 + int k * 100)
      in if price < 100 then 100 else price)"

lemma gen_best_in:
  "gen_best side s \<in> insert (if side = CHR ''B'' then 1001000 else 1001100) (prices side (entries s))"
  using gen_best_spec(1,2) [of side s] by (cases "prices side (entries s) = {}") simp_all

lemma gen_best_bounds:
  assumes "entries_ok n (entries s)"
  shows "100 \<le> gen_best CHR ''B'' s \<and> gen_best CHR ''B'' s \<le> 1001100 + 1000 * int n"
    and "200 \<le> gen_best CHR ''S'' s \<and> gen_best CHR ''S'' s \<le> 1001100 + 1000 * int n"
  using gen_best_in [of "CHR ''B''" s] gen_best_in [of "CHR ''S''" s] assms
  unfolding entries_ok_def by fastforce+

lemma entries_ok_add:
  assumes ok: "entries_ok n (entries s)" and k: "k < 10" and side: "side \<in> {CHR ''B'', CHR ''S''}"
  shows "entries_ok (Suc n) (entries s @ [((r, side), add_price side k s)])"
    and "100 \<le> add_price side k s" "add_price side k s \<le> 1001100 + 1000 * int (Suc n)"
proof -
  note b = gen_best_bounds [OF ok]
  note best = gen_best_spec(3) [of _ "CHR ''B''" s] gen_best_spec(3) [of _ "CHR ''S''" s]
  have ok': "entries_ok (Suc n) (entries s)" using ok by (rule entries_ok_mono) simp
  show le: "100 \<le> add_price side k s" "add_price side k s \<le> 1001100 + 1000 * int (Suc n)"
    using b k by (auto simp: add_price_def Let_def)
  have buy: "add_price CHR ''B'' k s < q" if "q \<in> prices CHR ''S'' (entries s)" for q
    using best(2) [OF that] b by (auto simp: add_price_def no_better_def Let_def)
  have sell: "p < add_price CHR ''S'' k s" if "p \<in> prices CHR ''B'' (entries s)" for p
    using best(1) [OF that] b by (auto simp: add_price_def no_better_def Let_def)
  have "200 \<le> add_price CHR ''S'' k s" using b by (auto simp: add_price_def Let_def)
  with side ok' le buy sell show "entries_ok (Suc n) (entries s @ [((r, side), add_price side k s)])"
    by (auto simp: entries_ok_def)
qed

section \<open>The book holds live orders only\<close>

definition listed :: "entries \<Rightarrow> spec_book \<Rightarrow> bool" where
  "listed es M \<longleftrightarrow>
     (\<forall>r ord. M r = Some ord \<longrightarrow>
        (\<exists>c. ((r, c), o_price ord) \<in> set es \<and> o_side ord = side_of_char c))"

definition uncrossed :: "spec_book \<Rightarrow> bool" where
  "uncrossed M \<longleftrightarrow>
     (\<forall>r ord r' ord'. M r = Some ord \<and> M r' = Some ord' \<and> o_side ord = Buy \<and> o_side ord' = Sell \<longrightarrow>
        o_price ord < o_price ord')"

lemma listed_uncrossed:
  assumes es: "entries_ok n es" and M: "listed es M"
  shows "uncrossed M"
proof -
  have at: "o_price ord \<in> prices (if o_side ord = Buy then CHR ''B'' else CHR ''S'') es"
    if m: "M r = Some ord" for r ord
  proof -
    obtain c where c: "((r, c), o_price ord) \<in> set es" "o_side ord = side_of_char c"
      using M m unfolding listed_def by blast
    moreover have "c \<in> {CHR ''B'', CHR ''S''}" using es c(1) by (fastforce simp: entries_ok_def)
    ultimately show ?thesis by (auto simp: prices_def)
  qed
  from es show ?thesis
    unfolding uncrossed_def entries_ok_def by (metis at Side.distinct(1))
qed

lemma listed_reduce: "listed es M \<Longrightarrow> listed es (spec_reduce r q M)"
  by (fastforce simp: listed_def spec_reduce_def split: option.splits if_splits)

lemma listed_add:
  assumes "listed es M" and "sd = side_of_char c"
  shows "listed (es @ [((r, c), p)]) (spec_add r sd p q M)"
  using assms by (auto simp: listed_def spec_add_def)

lemma swap_pop:
  assumes "i < length xs"
  shows "set (butlast (xs[i := last xs])) \<subseteq> set xs"
    and "x \<in> set xs \<Longrightarrow> x \<noteq> xs ! i \<Longrightarrow> x \<in> set (butlast (xs[i := last xs]))"
proof -
  have "last xs \<in> set xs" using assms by (intro last_in_set) auto
  then show "set (butlast (xs[i := last xs])) \<subseteq> set xs"
    using set_update_subset_insert [of xs i "last xs"] by (auto dest!: in_set_butlastD)
  assume "x \<in> set xs" "x \<noteq> xs ! i"
  then obtain j where j: "j < length xs" "x = xs ! j" "j \<noteq> i" by (auto simp: in_set_conv_nth)
  show "x \<in> set (butlast (xs[i := last xs]))"
  proof (cases "j = length xs - 1")
    case True
    have "last xs = xs ! (length xs - 1)" using assms by (intro last_conv_nth) auto
    with True have "butlast (xs[i := last xs]) ! i = x" "i < length xs - 1"
      using j assms by (auto simp: nth_butlast)
    then show ?thesis by (metis length_butlast length_list_update nth_mem)
  next
    case False
    then have "butlast (xs[i := last xs]) ! j = x" "j < length xs - 1" using j by (auto simp: nth_butlast)
    then show ?thesis by (metis length_butlast length_list_update nth_mem)
  qed
qed

lemma zip_swap_pop:
  assumes "length xs = length ys" and "i < length xs"
  shows "zip (butlast (xs[i := last xs])) (butlast (ys[i := last ys])) =
         butlast ((zip xs ys)[i := last (zip xs ys)])"
proof -
  have "last (zip xs ys) = (last xs, last ys)" using assms by (intro last_zip) auto
  with assms show ?thesis by (intro nth_equalityI) (auto simp: nth_butlast nth_list_update)
qed

lemma listed_remove:
  assumes "listed es M" and "i < length es" and "fst (fst (es ! i)) = r"
  shows "listed (butlast (es[i := last es])) (spec_remove r M)"
proof -
  have "((r', c), p) \<in> set (butlast (es[i := last es]))" if "((r', c), p) \<in> set es" "r' \<noteq> r" for r' c p
    using that assms(3) swap_pop(2) [OF assms(2)] by (metis fst_conv)
  with assms(1) show ?thesis unfolding listed_def spec_remove_def by (metis fun_upd_apply option.distinct(1))
qed

section \<open>The generator's invariant\<close>

definition bgen_ok :: "nat \<Rightarrow> 'g bgen \<Rightarrow> bool" where
  "bgen_ok n s \<longleftrightarrow>
     (\<exists>fs. g_out s = frames fs \<and> length fs = n \<and> stream_ok 2549 fs (g_next_ref s) \<and>
           stock_locate ` set (messages_of fs) \<subseteq> {1} \<and>
           listed (entries s) (fold spec_apply (messages_of fs) Map.empty) \<and>
           (\<forall>k \<le> n. uncrossed (fold spec_apply (take k (messages_of fs)) Map.empty))) \<and>
     entries_ok n (entries s) \<and> length (g_live s) = length (g_px s)"

lemma bgen_ok_emit:
  assumes ok: "bgen_ok n s" and f: "g_out s' = frame (g_out s) f"
    and em: "emits 2549 n 1 (g_next_ref s) f (g_next_ref s')"
    and li: "\<And>m M. decode_frame f = Some m \<Longrightarrow> listed (entries s) M \<Longrightarrow> listed (entries s') (spec_apply m M)"
    and en: "entries_ok (Suc n) (entries s')" and len: "length (g_live s') = length (g_px s')"
  shows "bgen_ok (Suc n) s'"
proof -
  obtain fs where fs: "g_out s = frames fs" "length fs = n" "stream_ok 2549 fs (g_next_ref s)"
      "stock_locate ` set (messages_of fs) \<subseteq> {1}"
      "listed (entries s) (fold spec_apply (messages_of fs) Map.empty)"
      "\<forall>k \<le> n. uncrossed (fold spec_apply (take k (messages_of fs)) Map.empty)"
    using ok by (auto simp: bgen_ok_def)
  obtain m where m: "decode_frame f = Some m" "stock_locate m = 1" using em by (auto simp: emits_def)
  have ms: "messages_of (fs @ [f]) = messages_of fs @ [m]" by (rule messages_of_snoc [OF m(1)])
  have n: "length (messages_of fs) = n" using fs(2,3) by (simp add: stream_ok_def)
  have "listed (entries s') (fold spec_apply (messages_of (fs @ [f])) Map.empty)"
    using li [OF m(1) fs(5)] by (simp add: ms)
  moreover from listed_uncrossed [OF en this]
  have "\<forall>k \<le> Suc n. uncrossed (fold spec_apply (take k (messages_of (fs @ [f]))) Map.empty)"
    using fs(6) n by (auto simp: ms le_Suc_eq)
  moreover have "stream_ok 2549 (fs @ [f]) (g_next_ref s')"
    using stream_ok_emits(1) [OF fs(3)] em fs(2) by simp
  moreover have "stock_locate ` set (messages_of (fs @ [f])) \<subseteq> {1}" using fs(4) m(2) by (simp add: ms)
  ultimately show ?thesis
    unfolding bgen_ok_def using f fs(1,2) en len by (intro conjI exI [of _ "fs @ [f]"]) (simp_all add: frame_frames)
qed

lemma decode_frame_bodies:
  "decode_frame (body_A l ts r c q p) = Some (Message_init\<lparr>msg_type := AddOrder, stock_locate := l,
     timestamp := take_bit 48 ts, order_ref := r, m_side := side_of_char c, m_shares := q,
     stock := ''SYNTH   '', m_price := uint p\<rparr>)"
  "decode_frame (body_E l ts r q mn) = Some (Message_init\<lparr>msg_type := OrderExecuted, stock_locate := l,
     timestamp := take_bit 48 ts, order_ref := r, m_shares := q, match_number := mn\<rparr>)"
  "decode_frame (body_D l ts r) = Some (Message_init\<lparr>msg_type := OrderDelete, stock_locate := l,
     timestamp := take_bit 48 ts, order_ref := r\<rparr>)"
  "decode_frame (body_P l ts c q p mn) = Some (Message_init\<lparr>msg_type := Trade, stock_locate := l,
     timestamp := take_bit 48 ts, m_side := side_of_char c, m_shares := q, stock := ''SYNTH   '',
     m_price := uint p, match_number := mn\<rparr>)"
  by (simp_all add: decode_frame_def decode_body_A decode_body_E decode_body_D decode_body_P)

lemma book_gen_add_sel:
  "g_out (book_gen_add nx side s) =
      frame (g_out s) (body_A 1 (g_ts s) (g_next_ref s) side (of_nat (50 + unat (fst (nx (snd (nx (g_rng s))))) mod 2500))
        (of_int (add_price side (unat (fst (nx (g_rng s))) mod 10) s)))"
  "g_next_ref (book_gen_add nx side s) = g_next_ref s + 1"
  "g_live (book_gen_add nx side s) = g_live s @ [(g_next_ref s, side)]"
  "g_px (book_gen_add nx side s) = g_px s @ [add_price side (unat (fst (nx (g_rng s))) mod 10) s]"
  by (simp_all add: book_gen_add_def pct_eq Let_def emit_frame_def add_price_def)

lemma bgen_ok_add:
  assumes ok: "bgen_ok n s" and room: "room_for 2549 n" and side: "side \<in> {CHR ''B'', CHR ''S''}"
  shows "bgen_ok (Suc n) (book_gen_add nx side s)"
proof -
  let ?k = "unat (fst (nx (g_rng s))) mod 10"
  let ?q = "50 + unat (fst (nx (snd (nx (g_rng s))))) mod 2500"
  have len: "length (g_live s) = length (g_px s)" and en: "entries_ok n (entries s)"
    using ok by (simp_all add: bgen_ok_def)
  have add: "entries_ok (Suc n) (entries s @ [((g_next_ref s, side), add_price side ?k s)])"
      "100 \<le> add_price side ?k s" "add_price side ?k s \<le> 1001100 + 1000 * int (Suc n)"
    by (rule entries_ok_add [OF en _ side]; simp)+
  have "1001100 + 1000 * int (Suc n) < 2 ^ 32" using room by (simp add: room_for_def)
  with add(2,3) have px: "uint (of_int (add_price side ?k s) :: u32) = add_price side ?k s"
    by (simp add: uint_word_of_int_eq take_bit_int_eq_self)
  have q: "of_nat ?q \<noteq> (0 :: u32)" "unat (of_nat ?q :: u32) \<le> 2549"
    using share_count [of ?q 2549] by (simp_all del: of_nat_add)
  show ?thesis
  proof (rule bgen_ok_emit [OF ok])
    show "emits 2549 n 1 (g_next_ref s)
        (body_A 1 (g_ts s) (g_next_ref s) side (of_nat ?q) (of_int (add_price side ?k s)))
        (g_next_ref (book_gen_add nx side s))"
      unfolding book_gen_add_sel by (rule emits_add [OF room q side])
  qed (use add(1) len px in \<open>auto simp: book_gen_add_sel decode_frame_bodies spec_apply_def listed_add\<close>)
qed

lemma bgen_ok_execute:
  assumes ok: "bgen_ok n s"
  shows "bgen_ok (Suc n) (book_gen_execute nx s)"
proof -
  have en: "entries_ok (Suc n) (entries s)" using ok entries_ok_mono by (auto simp: bgen_ok_def)
  show ?thesis
    by (rule bgen_ok_emit [OF ok], simp add: book_gen_defs, simp add: book_gen_defs emits_execute)
      (use ok en in \<open>auto simp: book_gen_defs decode_frame_bodies spec_apply_def listed_reduce emit_frame_def
         bgen_ok_def\<close>)
qed

lemma bgen_ok_trade:
  assumes ok: "bgen_ok n s"
  shows "bgen_ok (Suc n) (book_gen_trade nx s)"
proof -
  have en: "entries_ok (Suc n) (entries s)" using ok entries_ok_mono by (auto simp: bgen_ok_def)
  show ?thesis
    by (rule bgen_ok_emit [OF ok], simp add: book_gen_defs, simp add: book_gen_defs emits_trade)
      (use ok en in \<open>auto simp: book_gen_defs decode_frame_bodies spec_apply_def emit_frame_def bgen_ok_def\<close>)
qed

lemma bgen_ok_delete:
  assumes ok: "bgen_ok n s" and live: "g_live s \<noteq> []"
  shows "bgen_ok (Suc n) (book_gen_delete nx s)"
proof -
  let ?i = "unat (fst (nx (g_rng s))) mod length (g_live s)"
  let ?s = "book_gen_delete nx s"
  have len: "length (g_live s) = length (g_px s)" and en: "entries_ok n (entries s)"
    using ok by (simp_all add: bgen_ok_def)
  have i: "?i < length (g_live s)" using live by simp
  then have i': "?i < length (entries s)" using len by simp
  have sel: "g_out ?s = frame (g_out s) (body_D 1 (g_ts s) (fst (g_live s ! ?i)))"
    "g_next_ref ?s = g_next_ref s" "length (g_live ?s) = length (g_px ?s)"
    using len by (simp_all add: book_gen_defs emit_frame_def)
  have es: "entries ?s = butlast ((entries s)[?i := last (entries s)])"
    using zip_swap_pop [OF len i] by (simp add: book_gen_defs emit_frame_def)
  have at: "fst (fst (entries s ! ?i)) = fst (g_live s ! ?i)" using i len by simp
  show ?thesis
  proof (rule bgen_ok_emit [OF ok sel(1) _ _ _ sel(3)])
    show "emits 2549 n 1 (g_next_ref s) (body_D 1 (g_ts s) (fst (g_live s ! ?i))) (g_next_ref ?s)"
      unfolding sel(2) by (rule emits_delete)
    show "entries_ok (Suc n) (entries ?s)" unfolding es using en swap_pop(1) [OF i'] by (rule entries_ok_mono)
  next
    fix m M
    assume "decode_frame (body_D 1 (g_ts s) (fst (g_live s ! ?i))) = Some m" "listed (entries s) M"
    then show "listed (entries ?s) (spec_apply m M)"
      unfolding es using listed_remove [OF _ i' at] by (auto simp: decode_frame_bodies spec_apply_def)
  qed
qed

lemma bgen_ok_cong:
  "g_out s' = g_out s \<Longrightarrow> g_next_ref s' = g_next_ref s \<Longrightarrow> g_live s' = g_live s \<Longrightarrow> g_px s' = g_px s \<Longrightarrow>
   bgen_ok n s \<Longrightarrow> bgen_ok n s'"
  by (simp add: bgen_ok_def)

lemma tick_live [simp]: "g_live (tick nx hi s) = g_live s" "g_px (tick nx hi s) = g_px s"
  by (simp_all add: tick_def pct_eq Let_def)

lemma bgen_ok_iter:
  assumes "bgen_ok n s" and "room_for 2549 n"
  shows "bgen_ok (Suc n) (book_gen_iter nx s)"
proof -
  let ?s = "snd (pct nx 100 s)"
  have s: "bgen_ok n ?s" "bgen_ok n (snd (pct nx 2 ?s))"
    using assms(1) by (auto simp: pct_eq intro: bgen_ok_cong [rotated 4])
  let ?add = "book_gen_add nx (if fst (pct nx 2 ?s) = 0 then CHR ''B'' else CHR ''S'') (snd (pct nx 2 ?s))"
  let ?op = "if fst (pct nx 100 s) < 42 \<or> length (g_live ?s) < 10 then ?add
    else if fst (pct nx 100 s) < 64 then book_gen_execute nx ?s
    else if fst (pct nx 100 s) < 82 then book_gen_delete nx ?s else book_gen_trade nx ?s"
  have "bgen_ok (Suc n) ?add" by (rule bgen_ok_add [OF s(2) assms(2)]) simp
  moreover have "bgen_ok (Suc n) (book_gen_delete nx ?s)" if "\<not> length (g_live ?s) < 10"
    using that by (intro bgen_ok_delete [OF s(1)]) auto
  ultimately have "bgen_ok (Suc n) ?op"
    using bgen_ok_execute [OF s(1)] bgen_ok_trade [OF s(1)] by presburger
  moreover have "book_gen_iter nx s = tick nx 800 ?op"
    unfolding book_gen_iter_def Let_def case_prod_beta ..
  ultimately show ?thesis by (auto intro: bgen_ok_cong [rotated 4])
qed

lemma bgen_ok_seed:
  assumes "bgen_ok (g_emitted s) s" "g_emitted s \<le> n" "room_for 2549 n"
  shows "bgen_ok (g_emitted (book_seed_loop nx n i k s)) (book_seed_loop nx n i k s) \<and>
         g_emitted (book_seed_loop nx n i k s) \<le> n"
  using assms
proof (induction nx n i k s rule: book_seed_loop.induct)
  case (2 nx n i k s)
  let ?s = "book_gen_add nx (if odd i then CHR ''S'' else CHR ''B'') s"
  show ?case
  proof (cases "g_emitted s < n")
    case True
    then have "bgen_ok (Suc (g_emitted s)) ?s"
      using "2.prems" room_for_less by (intro bgen_ok_add) auto
    then have "bgen_ok (Suc (g_emitted s)) (?s\<lparr>g_emitted := Suc (g_emitted s)\<rparr>)"
      by (rule bgen_ok_cong [rotated 4]) simp_all
    with "2.IH" [OF True refl] "2.prems" True show ?thesis by (simp add: Let_def)
  qed (use "2.prems" in simp)
qed simp

lemma bgen_ok_main:
  assumes "bgen_ok (g_emitted s) s" "g_emitted s \<le> n" "room_for 2549 n"
  shows "bgen_ok n (book_main_loop nx n s)"
  using assms
proof (induction nx n s rule: book_main_loop.induct)
  case (1 nx n s)
  show ?case
  proof (cases "g_emitted s < n")
    case True
    then have "bgen_ok (g_emitted (book_gen_iter nx s)) (book_gen_iter nx s)"
      using "1.prems" room_for_less by (auto intro!: bgen_ok_iter)
    with "1.IH" [OF True] "1.prems" True show ?thesis by (subst book_main_loop.simps) simp
  next
    case False
    with "1.prems" show ?thesis by (subst book_main_loop.simps) simp
  qed
qed

lemma bgen_ok_init: "bgen_ok 0 (book_gen_init g)"
  by (auto simp: bgen_ok_def book_gen_init_def messages_of_def map_filter_simps listed_def uncrossed_def
      entries_ok_def intro!: exI [of _ "[]"])

lemma synthetic_book_ok:
  fixes nx :: "'g \<Rightarrow> u32 \<times> 'g"
  assumes "n \<le> 1600000"
  obtains s :: "'g bgen" where "make_synthetic_book nx n g = g_out s" "bgen_ok n s"
proof -
  have init: "bgen_ok (g_emitted (book_gen_init g)) (book_gen_init g)" "g_emitted (book_gen_init g) \<le> n"
    using bgen_ok_init by (simp_all add: book_gen_init_def)
  have room: "room_for 2549 n" using assms by (simp add: room_for_def)
  show ?thesis
    by (rule that [OF make_synthetic_book_def]) (use bgen_ok_main [OF _ _ room] bgen_ok_seed [OF init room] in blast)
qed

section \<open>Properties\<close>

lemma feed_allowed_append: "feed_allowed (ms @ ms') M \<Longrightarrow> feed_allowed ms M"
  by (induction ms arbitrary: M) auto

text \<open>The inside of a book: when both sides have orders, the best bid is below the best ask.\<close>

definition inside_ok :: "'l level_ops \<Rightarrow> 'l order_book \<Rightarrow> bool" where
  "inside_ok LS b \<longleftrightarrow>
     (case (best_bid LS b, best_ask LS b) of (Some (p, _), Some (p', _)) \<Rightarrow> p < p' | _ \<Rightarrow> True)"

lemma spec_depth_pos:
  assumes "spec_depth M s p > 0"
  obtains r ord where "M r = Some ord" "o_side ord = s" "o_price ord = p"
proof -
  have "\<exists>r \<in> dom M. resting s p (the (M r)) \<noteq> 0"
    using assms by (metis less_irrefl spec_depth_def sum.neutral)
  then show ?thesis by (auto simp: resting_def split: if_splits intro: that)
qed

lemma uncrossed_inside:
  assumes "book_shows LS b M" and "uncrossed M"
  shows "inside_ok LS b"
proof -
  have "p < p'" if "best_bid LS b = Some (p, q)" "best_ask LS b = Some (p', q')" for p q p' q'
  proof -
    have "spec_depth M Buy p > 0" "spec_depth M Sell p' > 0"
      using assms(1) that by (auto simp: book_shows_def is_best_def)
    then show ?thesis using assms(2) by (metis spec_depth_pos uncrossed_def)
  qed
  then show ?thesis by (auto simp: inside_ok_def split: option.split)
qed

lemma synthetic_book_inside:
  assumes "n \<le> 1600000" and "k \<le> n"
  shows "length (framed_messages (make_synthetic_book nx n g)) = n \<and>
    inside_ok MapLevels (book_run MapLevels (take k (framed_messages (make_synthetic_book nx n g)))) \<and>
    inside_ok FlatLevels (book_run FlatLevels (take k (framed_messages (make_synthetic_book nx n g)))) \<and>
    inside_ok WindowedLevels (book_run WindowedLevels (take k (framed_messages (make_synthetic_book nx n g))))"
proof -
  obtain s :: "'a bgen" where s: "make_synthetic_book nx n g = g_out s" "bgen_ok n s"
    by (rule synthetic_book_ok [OF assms(1)])
  obtain fs where fs: "g_out s = frames fs" "length fs = n" "stream_ok 2549 fs (g_next_ref s)"
      "stock_locate ` set (messages_of fs) \<subseteq> {1}"
      "\<forall>k \<le> n. uncrossed (fold spec_apply (take k (messages_of fs)) Map.empty)"
    using s(2) by (auto simp: bgen_ok_def)
  let ?ms = "messages_of fs"
  have ms: "framed_messages (make_synthetic_book nx n g) = ?ms" "length ?ms = n"
    using stream_ok_messages(1) [OF fs(3)] s(1) fs(1-3) by (simp_all add: stream_ok_def)
  have "feed_at 1 ?ms = ?ms" using fs(4) by (intro feed_at_all) blast
  then have "feed_allowed ?ms Map.empty" using fs(3) unfolding stream_ok_def by metis
  then have al: "feed_allowed (take k ?ms) Map.empty" by (metis append_take_drop_id feed_allowed_append)
  have un: "uncrossed (fold spec_apply (take k ?ms) Map.empty)" using fs(5) assms(2) by blast
  show ?thesis
    unfolding ms using ms(2) uncrossed_inside [OF map_store.book_run_shows [OF al] un]
      uncrossed_inside [OF flat_store.book_run_shows [OF al] un]
      uncrossed_inside [OF win_store.book_run_shows [OF al] un] by blast
qed

lemma synthetic_book_feed:
  assumes "n \<le> 1600000"
  shows "length (deframe (make_synthetic_book nx n g)) = n \<and>
    (\<forall>m \<in> set (framed_messages (make_synthetic_book nx n g)). stock_locate m = 1)"
proof -
  obtain s :: "'a bgen" where s: "make_synthetic_book nx n g = g_out s" "bgen_ok n s"
    by (rule synthetic_book_ok [OF assms])
  then obtain fs where fs: "g_out s = frames fs" "length fs = n" "stream_ok 2549 fs (g_next_ref s)"
      "stock_locate ` set (messages_of fs) \<subseteq> {1}"
    by (auto simp: bgen_ok_def)
  with stream_ok_messages [OF fs(3)] show ?thesis unfolding s(1) by auto
qed

text \<open>The stream starts with an order for symbol 1.\<close>

lemma prefix_ops:
  "prefix (g_out s) (g_out (book_gen_add nx side s))" "prefix (g_out s) (g_out (book_gen_execute nx s))"
  "prefix (g_out s) (g_out (book_gen_delete nx s))" "prefix (g_out s) (g_out (book_gen_trade nx s))"
  by (simp_all add: book_gen_defs frame_def be16_def)

lemma prefix_iter: "prefix (g_out s) (g_out (book_gen_iter nx s))"
proof -
  have "g_out (snd (pct nx h s)) = g_out s" for h and s :: "'a bgen" by (simp add: pct_eq)
  then show ?thesis using prefix_ops [where nx = nx]
    by (simp add: book_gen_iter_def Let_def case_prod_beta) metis
qed

lemma prefix_seed: "prefix (g_out s) (g_out (book_seed_loop nx n i k s))"
proof (induction nx n i k s rule: book_seed_loop.induct)
  case (2 nx n i k s)
  then show ?case by (auto simp: Let_def intro: prefix_order.trans [OF prefix_ops(1)])
qed simp

lemma prefix_main: "prefix (g_out s) (g_out (book_main_loop nx n s))"
proof (induction nx n s rule: book_main_loop.induct)
  case (1 nx n s)
  then show ?case using prefix_iter [of s nx] by (subst book_main_loop.simps) (auto intro: prefix_order.trans)
qed

lemma synthetic_book_first:
  fixes nx :: "'g \<Rightarrow> u32 \<times> 'g"
  assumes "0 < n"
  obtains f fs m where "deframe (make_synthetic_book nx n g) = f # fs" "decode_frame f = Some m"
    "msg_type m = AddOrder" "stock_locate m = 1"
proof -
  let ?s = "book_gen_add nx CHR ''B'' (book_gen_init g)"
  obtain ts r q p where s: "g_out ?s = frame [] (body_A 1 ts r CHR ''B'' q p)"
    by (simp add: book_gen_defs book_gen_init_def)
  let ?s1 = "?s\<lparr>g_emitted := Suc (g_emitted ?s)\<rparr>"
  have seed: "book_seed_loop nx n 0 20 (book_gen_init g) = book_seed_loop nx n 1 19 ?s1"
    using assms by (simp add: eval_nat_numeral Let_def book_gen_init_def)
  have "prefix (g_out ?s) (make_synthetic_book nx n g)"
    unfolding make_synthetic_book_def seed
    by (rule prefix_order.trans [OF _ prefix_main])
      (use prefix_seed [of ?s1 nx n 1 19] in simp)
  then obtain rest where "make_synthetic_book nx n g = frame [] (body_A 1 ts r CHR ''B'' q p) @ rest"
    using s by (auto simp: prefix_def)
  then have "deframe (make_synthetic_book nx n g) = body_A 1 ts r CHR ''B'' q p # deframe rest"
    by (simp add: deframe_frame body_frameable)
  then show ?thesis by (rule that [OF _ decode_frame_bodies(1)]) simp_all
qed

text \<open>C9. The demo feed never crosses: for up to 1.6 million messages and whatever the random engine
  draws, every record decodes and after every prefix of the stream the book a reader has built, over
  any of the three level stores, has its best bid strictly below its best ask.\<close>

theorem synthetic_book_never_crossed:
  assumes "n \<le> 1600000" and "k \<le> n"
  shows "length (framed_messages (make_synthetic_book nx n g)) = n \<and>
    inside_ok MapLevels (book_run MapLevels (take k (framed_messages (make_synthetic_book nx n g)))) \<and>
    inside_ok FlatLevels (book_run FlatLevels (take k (framed_messages (make_synthetic_book nx n g)))) \<and>
    inside_ok WindowedLevels (book_run WindowedLevels (take k (framed_messages (make_synthetic_book nx n g))))"
  by (rule synthetic_book_inside [OF assms])

theorem synthetic_book_never_crossed_witness:
  "inside_ok WindowedLevels
     (book_run WindowedLevels (take 25 (framed_messages (make_synthetic_book mt_next 1000 (mt_seed 7)))))"
  using synthetic_book_never_crossed [of 1000 25 mt_next "mt_seed 7"] by simp

end
