(* ===== verification/Text_Numbers.thy ===== *)
theory Text_Numbers
  imports Prelude Complex_Main
begin

text \<open>
  The parts of the C++ standard library's text functions that the protocol codecs call: decimal
  printing (\<^verbatim>\<open>std::to_string\<close>, the \<^verbatim>\<open>%u\<close>, \<^verbatim>\<open>%03u\<close> and \<^verbatim>\<open>%.nf\<close> conversions), decimal reading
  (\<^verbatim>\<open>std::atoi\<close>) and searching in a \<^verbatim>\<open>std::string\<close> by index, with the facts that printing and
  reading are inverse and that a search stops at the first or last match.
\<close>

section \<open>Decimal numbers\<close>

definition digit :: "nat \<Rightarrow> char" where
  "digit d = char_of (48 + d)"

definition is_digit :: "char \<Rightarrow> bool" where
  "is_digit c \<longleftrightarrow> 48 \<le> (of_char c :: nat) \<and> (of_char c :: nat) \<le> 57"

definition digit_val :: "char \<Rightarrow> nat" where
  "digit_val c = of_char c - 48"

fun dec :: "nat \<Rightarrow> string" where
  "dec n = (if n < 10 then [digit n] else dec (n div 10) @ [digit (n mod 10)])"

declare dec.simps [simp del]

definition to_string :: "int \<Rightarrow> string" where
  "to_string n = (if n < 0 then CHR ''-'' # dec (nat (- n)) else dec (nat n))"

text \<open>\<^verbatim>\<open>printf\<close> with a minimal width and leading zeros.\<close>

definition zero_pad :: "nat \<Rightarrow> nat \<Rightarrow> string" where
  "zero_pad w n = replicate (w - length (dec n)) CHR ''0'' @ dec n"

definition is_space :: "char \<Rightarrow> bool" where
  "is_space c \<longleftrightarrow> c = CHR '' '' \<or> (9 \<le> (of_char c :: nat) \<and> (of_char c :: nat) \<le> 13)"

fun read_digits :: "nat \<Rightarrow> string \<Rightarrow> nat" where
  "read_digits acc [] = acc"
| "read_digits acc (c # cs) = (if is_digit c then read_digits (acc * 10 + digit_val c) cs else acc)"

text \<open>
  \<^verbatim>\<open>std::atoi\<close>: white space, a sign, then digits up to the first other character. Its result is
  undefined when the number does not fit an \<^verbatim>\<open>int\<close>; here it is the number itself.
\<close>

definition atoi :: "string \<Rightarrow> int" where
  "atoi s =
     (case dropWhile is_space s of
        [] \<Rightarrow> 0
      | c # cs \<Rightarrow> if c = CHR ''-'' then - int (read_digits 0 cs)
                  else if c = CHR ''+'' then int (read_digits 0 cs)
                  else int (read_digits 0 (c # cs)))"

lemma of_char_digit: "d < 10 \<Longrightarrow> of_char (digit d) = 48 + d"
  by (simp add: digit_def)

lemma is_digit_digit [simp]: "d < 10 \<Longrightarrow> is_digit (digit d)" "d < 10 \<Longrightarrow> digit_val (digit d) = d"
  by (simp_all add: is_digit_def digit_val_def of_char_digit)

lemma dec_digits: "\<forall>c \<in> set (dec n). is_digit c"
  by (induction n rule: dec.induct) (subst dec.simps, auto)

lemma dec_not_Nil [simp]: "dec n \<noteq> []"
  by (subst dec.simps) simp

lemma read_digits_append:
  "\<forall>c \<in> set u. is_digit c \<Longrightarrow> read_digits a (u @ rest) = read_digits (read_digits a u) rest"
  by (induction u arbitrary: a) simp_all

lemma read_digits_dec: "read_digits 0 (dec n) = n"
proof (induction n rule: dec.induct)
  case (1 n)
  show ?case
  proof (cases "n < 10")
    case True
    then show ?thesis by (subst dec.simps) simp
  next
    case False
    with 1 have "read_digits 0 (dec (n div 10)) = n div 10" by simp
    with False show ?thesis
      by (subst dec.simps) (simp add: read_digits_append [OF dec_digits])
  qed
qed

lemma digit_not_special:
  assumes "is_digit c"
  shows "\<not> is_space c" "c \<noteq> CHR ''-''" "c \<noteq> CHR ''+''" "c \<noteq> CHR ''=''" "c \<noteq> CHR 0x01" "c \<noteq> CHR ''.''"
    "c \<noteq> CHR '' ''"
  using assms by (auto simp: is_digit_def is_space_def)

lemma atoi_digits:
  assumes "\<forall>c \<in> set u. is_digit c" and "u \<noteq> []"
  shows "atoi u = int (read_digits 0 u)"
  using assms by (cases u) (auto simp: atoi_def digit_not_special)

lemma atoi_to_string [simp]: "atoi (to_string n) = n"
proof (cases "n < 0")
  case True
  have "\<not> is_space CHR ''-''" by (simp add: is_space_def)
  with True show ?thesis by (simp add: to_string_def atoi_def read_digits_dec)
next
  case False
  then show ?thesis by (simp add: to_string_def atoi_digits dec_digits read_digits_dec)
qed

lemma to_string_chars: "c \<in> set (to_string n) \<Longrightarrow> is_digit c \<or> c = CHR ''-''"
  using dec_digits by (auto simp: to_string_def split: if_splits)

lemma zero_pad_digits: "\<forall>c \<in> set (zero_pad w n). is_digit c"
  using dec_digits by (auto simp: zero_pad_def is_digit_def)

lemma read_digits_zeros: "read_digits 0 (replicate k CHR ''0'' @ u) = read_digits 0 u"
  by (induction k) (simp_all add: is_digit_def digit_val_def)

lemma atoi_zero_pad [simp]: "atoi (zero_pad w n) = int n"
proof -
  have "zero_pad w n \<noteq> []" by (simp add: zero_pad_def)
  then show ?thesis
    using atoi_digits [OF zero_pad_digits] by (simp add: zero_pad_def read_digits_zeros read_digits_dec)
qed

lemma length_dec_less: "n < 10 ^ k \<Longrightarrow> 0 < k \<Longrightarrow> length (dec n) \<le> k"
proof (induction k arbitrary: n)
  case (Suc k)
  show ?case
  proof (cases "n < 10")
    case True
    then show ?thesis by (subst dec.simps) simp
  next
    case False
    then have "0 < k" using Suc.prems(1) by (cases k) auto
    moreover have "n div 10 < 10 ^ k" using Suc.prems(1) by (simp add: div_less_iff_less_mult mult.commute)
    ultimately have "length (dec (n div 10)) \<le> k" by (rule Suc.IH [rotated])
    with False show ?thesis by (subst dec.simps) simp
  qed
qed simp

lemma length_zero_pad: "n < 10 ^ w \<Longrightarrow> 0 < w \<Longrightarrow> length (zero_pad w n) = w"
  using length_dec_less [of n w] by (simp add: zero_pad_def)

section \<open>Searching\<close>

text \<open>\<open>s.find(c, i)\<close>; \<^const>\<open>None\<close> is \<^verbatim>\<open>std::string::npos\<close>.\<close>

function str_find :: "char \<Rightarrow> string \<Rightarrow> nat \<Rightarrow> nat option" where
  "str_find c s i = (if i < length s then if s ! i = c then Some i else str_find c s (i + 1) else None)"
  by pat_completeness auto
termination by (relation "measure (\<lambda>(c, s, i). length s - i)") auto

declare str_find.simps [simp del]

lemma str_find_Some: "str_find c s i = Some k \<Longrightarrow> i \<le> k \<and> k < length s \<and> s ! k = c"
proof (induction c s i rule: str_find.induct)
  case (1 c s i)
  from "1.prems" "1.IH" show ?case by (subst (asm) str_find.simps) (force split: if_splits)
qed

lemma str_find_at: "c \<notin> set u \<Longrightarrow> str_find c (pre @ u @ c # rest) (length pre) = Some (length pre + length u)"
proof (induction u arbitrary: pre)
  case Nil
  show ?case by (subst str_find.simps) simp
next
  case (Cons x u)
  then have "str_find c ((pre @ [x]) @ u @ c # rest) (length (pre @ [x])) = Some (length (pre @ [x]) + length u)"
    by (intro Cons.IH) simp
  with Cons.prems show ?case by (subst str_find.simps) (auto simp: nth_append)
qed

lemma str_find_None: "c \<notin> set (drop i s) \<Longrightarrow> str_find c s i = None"
proof (induction c s i rule: str_find.induct)
  case (1 c s i)
  show ?case
  proof (cases "i < length s")
    case True
    then have "drop i s = s ! i # drop (i + 1) s" by (simp add: Cons_nth_drop_Suc)
    with 1 True show ?thesis by (subst str_find.simps) auto
  qed (subst str_find.simps, simp)
qed

text \<open>\<open>s.rfind(pat)\<close>: the last position at which \<open>pat\<close> occurs.\<close>

fun rfind_from :: "string \<Rightarrow> string \<Rightarrow> nat \<Rightarrow> nat option" where
  "rfind_from pat s k =
     (if take (length pat) (drop k s) = pat then Some k
      else case k of 0 \<Rightarrow> None | Suc j \<Rightarrow> rfind_from pat s j)"

declare rfind_from.simps [simp del]

definition rfind :: "string \<Rightarrow> string \<Rightarrow> nat option" where
  "rfind pat s = (if length pat \<le> length s then rfind_from pat s (length s - length pat) else None)"

lemma rfind_from_last:
  assumes "take (length pat) (drop p s) = pat" and "p \<le> k"
    and "\<And>j. p < j \<Longrightarrow> j \<le> k \<Longrightarrow> take (length pat) (drop j s) \<noteq> pat"
  shows "rfind_from pat s k = Some p"
  using assms(2,3)
proof (induction k)
  case 0
  with assms(1) show ?case by (subst rfind_from.simps) simp
next
  case (Suc k)
  show ?case
  proof (cases "p = Suc k")
    case True
    with assms(1) show ?thesis by (subst rfind_from.simps) simp
  next
    case False
    with Suc have "rfind_from pat s k = Some p" by simp
    with Suc.prems False show ?thesis by (subst rfind_from.simps) simp
  qed
qed

text \<open>The last occurrence of a pattern whose first character does not occur behind it.\<close>

lemma rfind_last:
  assumes "c \<notin> set (pat @ butlast rest)" and "pat \<noteq> []"
  shows "rfind (c # pat) (pre @ (c # pat) @ rest) = Some (length pre)"
proof -
  let ?s = "pre @ (c # pat) @ rest"
  have no: "take (length (c # pat)) (drop j ?s) \<noteq> c # pat"
    if j: "length pre < j" "j \<le> length ?s - length (c # pat)" for j
  proof
    assume eq: "take (length (c # pat)) (drop j ?s) = c # pat"
    have len: "j < length ?s - 1" using j assms(2) by (cases pat) auto
    have "take (Suc n) (drop j t) ! 0 = t ! j" if "j < length t" for n and t :: string using that by simp
    from this [of ?s "length pat"] len eq have "?s ! j = c" by (simp only: length_Cons nth_Cons_0)
    moreover have "?s ! j = (pat @ rest) ! (j - Suc (length pre))"
      using j(1) by (simp add: nth_append nth_Cons' not_less Suc_diff_le)
    moreover have "(pat @ rest) ! (j - Suc (length pre)) = (pat @ butlast rest) ! (j - Suc (length pre))"
      using len j(1) by (auto simp: nth_append nth_butlast)
    moreover have "j - Suc (length pre) < length (pat @ butlast rest)" using len j(1) by auto
    ultimately show False using assms(1) by (metis nth_mem)
  qed
  show ?thesis
    unfolding rfind_def using no by (subst rfind_from_last [of _ "length pre"]) auto
qed

section \<open>Fixed-point printing\<close>

text \<open>
  The \<^verbatim>\<open>%.nf\<close> conversion of a finite double other than the negative zero: the exact value rounded
  to \<open>n\<close> decimals, ties to even.
\<close>

definition round_half_even :: "rat \<Rightarrow> int" where
  "round_half_even x =
     (let f = floor x; r = x - of_int f
      in if r < 1 / 2 then f else if r > 1 / 2 then f + 1 else if even f then f else f + 1)"

definition print_fixed :: "nat \<Rightarrow> rat \<Rightarrow> string" where
  "print_fixed n x =
     (let k = round_half_even (abs x * 10 ^ n); ip = nat k div 10 ^ n; fp = nat k mod 10 ^ n
      in (if x < 0 then ''-'' else '''') @ dec ip @ (if n = 0 then '''' else ''.'' @ zero_pad n fp))"

lemma round_half_even_near: "\<bar>of_int (round_half_even x) - x\<bar> \<le> 1 / 2"
proof -
  have "of_int (floor x) \<le> x" "x < of_int (floor x) + 1" by linarith+
  then show ?thesis by (auto simp: round_half_even_def Let_def abs_if) linarith+
qed

lemma round_half_even_int [simp]: "round_half_even (of_int k) = k"
  by (simp add: round_half_even_def)

end
