(* ===== verification/Fix_Codec.thy ===== *)
theory Fix_Codec
  imports Text_Numbers
begin

text \<open>
  The FIX 4.4 order-entry codec of \<^verbatim>\<open>include/fix/fields.hpp\<close> and \<^verbatim>\<open>include/fix/message.hpp\<close>: the
  field list, the encoder with its computed BodyLength and CheckSum, the parser over indices, the
  checksum validation and the two message builders. Encoding and parsing are inverse, an encoded
  message always validates, and a changed byte before the trailer is always noticed.
\<close>

section \<open>Fields\<close>

definition SOH :: char where "SOH = CHR 0x01"

definition BeginString :: int where "BeginString = 8"
definition BodyLength :: int where "BodyLength = 9"
definition CheckSum :: int where "CheckSum = 10"
definition MsgTypeTag :: int where "MsgTypeTag = 35"
definition SenderCompID :: int where "SenderCompID = 49"
definition TargetCompID :: int where "TargetCompID = 56"
definition MsgSeqNum :: int where "MsgSeqNum = 34"
definition ClOrdID :: int where "ClOrdID = 11"
definition OrderID :: int where "OrderID = 37"
definition SymbolTag :: int where "SymbolTag = 55"
definition SideTag :: int where "SideTag = 54"
definition OrderQty :: int where "OrderQty = 38"
definition OrdTypeTag :: int where "OrdTypeTag = 40"
definition PriceTag :: int where "PriceTag = 44"
definition ExecTypeTag :: int where "ExecTypeTag = 150"
definition OrdStatusTag :: int where "OrdStatusTag = 39"
definition LeavesQty :: int where "LeavesQty = 151"
definition CumQty :: int where "CumQty = 14"
definition AvgPx :: int where "AvgPx = 6"

lemmas tag_defs = BeginString_def BodyLength_def CheckSum_def MsgTypeTag_def SenderCompID_def
  TargetCompID_def MsgSeqNum_def ClOrdID_def OrderID_def SymbolTag_def SideTag_def OrderQty_def
  OrdTypeTag_def PriceTag_def ExecTypeTag_def OrdStatusTag_def LeavesQty_def CumQty_def AvgPx_def

datatype fix_side = FIX_Buy | FIX_Sell
datatype ord_type = Market | Limit
datatype exec_type = ET_New | ET_PartialFill | ET_Fill | ET_Canceled | ET_Rejected
datatype ord_status = OS_New | OS_PartiallyFilled | OS_Filled | OS_Canceled | OS_Rejected

fun side_char :: "fix_side \<Rightarrow> char" where
  "side_char FIX_Buy = CHR ''1''" | "side_char FIX_Sell = CHR ''2''"

fun ord_type_char :: "ord_type \<Rightarrow> char" where
  "ord_type_char Market = CHR ''1''" | "ord_type_char Limit = CHR ''2''"

fun exec_type_char :: "exec_type \<Rightarrow> char" where
  "exec_type_char ET_New = CHR ''0''" | "exec_type_char ET_PartialFill = CHR ''1''"
| "exec_type_char ET_Fill = CHR ''2''" | "exec_type_char ET_Canceled = CHR ''4''"
| "exec_type_char ET_Rejected = CHR ''8''"

fun ord_status_char :: "ord_status \<Rightarrow> char" where
  "ord_status_char OS_New = CHR ''0''" | "ord_status_char OS_PartiallyFilled = CHR ''1''"
| "ord_status_char OS_Filled = CHR ''2''" | "ord_status_char OS_Canceled = CHR ''4''"
| "ord_status_char OS_Rejected = CHR ''8''"

section \<open>Messages\<close>

type_synonym fix_message = "(int \<times> string) list"

definition set_str :: "int \<Rightarrow> string \<Rightarrow> fix_message \<Rightarrow> fix_message" where
  "set_str t v m = m @ [(t, v)]"

definition set_int :: "int \<Rightarrow> int \<Rightarrow> fix_message \<Rightarrow> fix_message" where
  "set_int t v m = m @ [(t, to_string v)]"

definition set_chr :: "int \<Rightarrow> char \<Rightarrow> fix_message \<Rightarrow> fix_message" where
  "set_chr t c m = m @ [(t, [c])]"

fun fix_get :: "fix_message \<Rightarrow> int \<Rightarrow> string option" where
  "fix_get [] t = None"
| "fix_get (f # fs) t = (if fst f = t then Some (snd f) else fix_get fs t)"

definition get_or :: "fix_message \<Rightarrow> int \<Rightarrow> string \<Rightarrow> string" where
  "get_or m t dflt = (case fix_get m t of Some v \<Rightarrow> v | None \<Rightarrow> dflt)"

definition checksum :: "string \<Rightarrow> nat" where
  "checksum s = unat (fold (\<lambda>c sum. sum + of_nat (of_char c)) s (0 :: u32) mod 256)"

text \<open>The buffer of \<open>price_str\<close> holds 31 characters and the terminator.\<close>

definition price_str :: "rat \<Rightarrow> string" where
  "price_str px = take 31 (print_fixed 4 px)"

definition field :: "int \<times> string \<Rightarrow> string" where
  "field f = to_string (fst f) @ ''='' @ snd f @ [SOH]"

definition fix_encode :: "string \<Rightarrow> string \<Rightarrow> fix_message \<Rightarrow> string" where
  "fix_encode begin_string msg_type body =
     (let b = fold (\<lambda>f b. b @ field f) body (''35='' @ msg_type @ [SOH]);
          head = ''8='' @ begin_string @ [SOH] @ ''9='' @ to_string (int (length b)) @ [SOH];
          m = head @ b
      in m @ ''10='' @ zero_pad 3 (checksum m) @ [SOH])"

function parse_loop :: "string \<Rightarrow> nat \<Rightarrow> fix_message \<Rightarrow> fix_message" where
  "parse_loop s i out =
     (if i < length s
      then case str_find CHR ''='' s i of
             None \<Rightarrow> out
           | Some eq \<Rightarrow> (case str_find SOH s (eq + 1) of
               None \<Rightarrow> out
             | Some soh \<Rightarrow>
                 parse_loop s (soh + 1)
                   (out @ [(atoi (take (eq - i) (drop i s)), take (soh - eq - 1) (drop (eq + 1) s))]))
      else out)"
  by pat_completeness auto
termination
  by (relation "measure (\<lambda>(s, i, out). length s - i)") (auto dest!: str_find_Some)

declare parse_loop.simps [simp del]

definition fix_parse :: "string \<Rightarrow> bool \<times> fix_message" where
  "fix_parse s = (let out = parse_loop s 0 [] in (out \<noteq> [], out))"

definition valid_checksum :: "string \<Rightarrow> bool" where
  "valid_checksum s =
     (case rfind (SOH # ''10='') s of
        None \<Rightarrow> False
      | Some p \<Rightarrow> atoi (take 3 (drop (p + 1 + 3) s)) = int (checksum (take (p + 1) s)))"

definition new_order_single ::
  "string \<Rightarrow> string \<Rightarrow> int \<Rightarrow> string \<Rightarrow> string \<Rightarrow> fix_side \<Rightarrow> int \<Rightarrow> ord_type \<Rightarrow> rat \<Rightarrow> string" where
  "new_order_single sender target seq clordid symbol side qty type price =
     (let m = set_str SenderCompID sender [];
          m = set_str TargetCompID target m;
          m = set_int MsgSeqNum seq m;
          m = set_str ClOrdID clordid m;
          m = set_str SymbolTag symbol m;
          m = set_chr SideTag (side_char side) m;
          m = set_int OrderQty qty m;
          m = set_chr OrdTypeTag (ord_type_char type) m;
          m = (if type = Limit then set_str PriceTag (price_str price) m else m)
      in fix_encode ''FIX.4.4'' ''D'' m)"

definition execution_report ::
  "string \<Rightarrow> string \<Rightarrow> int \<Rightarrow> string \<Rightarrow> string \<Rightarrow> string \<Rightarrow> fix_side \<Rightarrow> exec_type \<Rightarrow> ord_status \<Rightarrow>
   int \<Rightarrow> int \<Rightarrow> rat \<Rightarrow> string" where
  "execution_report sender target seq orderid clordid symbol side et os cumqty leavesqty avgpx =
     (let m = set_str SenderCompID sender [];
          m = set_str TargetCompID target m;
          m = set_int MsgSeqNum seq m;
          m = set_str OrderID orderid m;
          m = set_str ClOrdID clordid m;
          m = set_str SymbolTag symbol m;
          m = set_chr SideTag (side_char side) m;
          m = set_chr ExecTypeTag (exec_type_char et) m;
          m = set_chr OrdStatusTag (ord_status_char os) m;
          m = set_int CumQty cumqty m;
          m = set_int LeavesQty leavesqty m;
          m = set_str AvgPx (price_str avgpx) m
      in fix_encode ''FIX.4.4'' ''8'' m)"

section \<open>The encoded message is a list of fields\<close>

definition fields_text :: "fix_message \<Rightarrow> string" where
  "fields_text fs = concat (map field fs)"

lemma fold_fields: "fold (\<lambda>f b. b @ field f) fs b = b @ fields_text fs"
  by (induction fs arbitrary: b) (simp_all add: fields_text_def)

lemma fields_text_simps [simp]:
  "fields_text [] = []" "fields_text (f # fs) = field f @ fields_text fs"
  "fields_text (fs @ gs) = fields_text fs @ fields_text gs"
  by (simp_all add: fields_text_def)

lemma to_string_small:
  "to_string 8 = ''8''" "to_string 9 = ''9''" "to_string 10 = ''10''" "to_string 35 = ''35''"
  by (simp_all add: to_string_def dec.simps digit_def char_of_def bit_iff_odd)

definition enc_body :: "string \<Rightarrow> fix_message \<Rightarrow> fix_message" where
  "enc_body msg_type body = (MsgTypeTag, msg_type) # body"

definition enc_head :: "string \<Rightarrow> string \<Rightarrow> fix_message \<Rightarrow> fix_message" where
  "enc_head begin_string msg_type body =
     [(BeginString, begin_string),
      (BodyLength, to_string (int (length (fields_text (enc_body msg_type body)))))]
     @ enc_body msg_type body"

definition enc_fields :: "string \<Rightarrow> string \<Rightarrow> fix_message \<Rightarrow> fix_message" where
  "enc_fields begin_string msg_type body =
     enc_head begin_string msg_type body @
     [(CheckSum, zero_pad 3 (checksum (fields_text (enc_head begin_string msg_type body))))]"

lemma field_tags:
  "field (BeginString, v) = ''8='' @ v @ [SOH]" "field (BodyLength, v) = ''9='' @ v @ [SOH]"
  "field (CheckSum, v) = ''10='' @ v @ [SOH]" "field (MsgTypeTag, v) = ''35='' @ v @ [SOH]"
  by (simp_all add: field_def tag_defs to_string_small)

lemma fix_encode_fields: "fix_encode bs mt body = fields_text (enc_fields bs mt body)"
  unfolding fix_encode_def Let_def fold_fields enc_fields_def enc_head_def enc_body_def fields_text_simps
    field_tags append_assoc append_Nil append_Nil2 append_Cons ..

section \<open>Parsing a list of fields\<close>

lemma field_split:
  assumes "SOH \<notin> set v"
  shows "str_find CHR ''='' (pre @ field (t, v) @ rest) (length pre) = Some (length pre + length (to_string t))"
    and "str_find SOH (pre @ field (t, v) @ rest) (length pre + length (to_string t) + 1) =
         Some (length pre + length (to_string t) + 1 + length v)"
proof -
  have "CHR ''='' \<notin> set (to_string t)"
    using to_string_chars digit_not_special(4) by fastforce
  from str_find_at [OF this, of pre "v @ SOH # rest"]
  show "str_find CHR ''='' (pre @ field (t, v) @ rest) (length pre) = Some (length pre + length (to_string t))"
    by (simp add: field_def)
  from str_find_at [OF assms, of "pre @ to_string t @ ''=''" rest]
  show "str_find SOH (pre @ field (t, v) @ rest) (length pre + length (to_string t) + 1) =
         Some (length pre + length (to_string t) + 1 + length v)"
    by (simp add: field_def)
qed

lemma parse_loop_field:
  assumes "SOH \<notin> set v"
  shows "parse_loop (pre @ field (t, v) @ rest) (length pre) out =
         parse_loop (pre @ field (t, v) @ rest) (length (pre @ field (t, v))) (out @ [(t, v)])"
proof -
  let ?s = "pre @ field (t, v) @ rest"
  have "take (length (to_string t)) (drop (length pre) ?s) = to_string t"
      "take (length v) (drop (length pre + length (to_string t) + 1) ?s) = v"
    by (simp_all add: field_def)
  with field_split [OF assms, of pre t rest] show ?thesis
    by (subst parse_loop.simps) (simp add: field_def add.assoc)
qed

lemma parse_loop_fields:
  assumes "\<forall>f \<in> set fs. SOH \<notin> set (snd f)"
  shows "parse_loop (pre @ fields_text fs) (length pre) out = out @ fs"
  using assms
proof (induction fs arbitrary: pre out)
  case Nil
  show ?case by (subst parse_loop.simps) simp
next
  case (Cons f fs)
  obtain t v where f: "f = (t, v)" by (cases f)
  have "parse_loop (pre @ field (t, v) @ fields_text fs) (length pre) out =
        parse_loop ((pre @ field (t, v)) @ fields_text fs) (length (pre @ field (t, v))) (out @ [(t, v)])"
    using parse_loop_field [of v pre t "fields_text fs" out] Cons.prems by (simp add: f)
  also have "\<dots> = (out @ [(t, v)]) @ fs" using Cons.prems by (intro Cons.IH) simp
  finally show ?case by (simp add: f)
qed

lemma SOH_not_in_numbers: "SOH \<notin> set (to_string n)" "SOH \<notin> set (zero_pad w k)"
  using to_string_chars [of SOH n] zero_pad_digits [of w k] digit_not_special(5)
  by (auto simp: SOH_def is_digit_def)

lemma fix_parse_encode:
  assumes "SOH \<notin> set bs" "SOH \<notin> set mt" "\<forall>f \<in> set body. SOH \<notin> set (snd f)"
  shows "fix_parse (fix_encode bs mt body) = (True, enc_fields bs mt body)"
proof -
  have "\<forall>f \<in> set (enc_fields bs mt body). SOH \<notin> set (snd f)"
    using assms SOH_not_in_numbers by (auto simp: enc_fields_def enc_head_def enc_body_def)
  from parse_loop_fields [OF this, of "[]" "[]"] show ?thesis
    by (simp add: fix_parse_def fix_encode_fields) (simp add: enc_fields_def)
qed

section \<open>Checksums\<close>

lemma checksum_sum: "checksum s = (\<Sum>c\<leftarrow>s. of_char c) mod 256"
proof -
  have "fold (\<lambda>c sum. sum + of_nat (of_char c)) s a = a + of_nat (\<Sum>c\<leftarrow>s. of_char c)" for a :: u32
    by (induction s arbitrary: a) (simp_all add: add.assoc)
  then show ?thesis
    by (simp add: checksum_def unat_mod unat_of_nat take_bit_eq_mod mod_mod_cancel)
qed

lemma int_sum_list: "int (sum_list xs) = sum_list (map int xs)"
  by (induction xs) simp_all

lemma checksum_less: "checksum s < 256"
  by (simp add: checksum_sum)

lemma mod_add_cancel:
  assumes "(x + k) mod 256 = (y + k) mod (256 :: nat)" "x < 256" "y < 256"
  shows "x = y"
proof -
  have "(int x + int k) mod 256 = (int y + int k) mod 256"
    using arg_cong [OF assms(1), of int] by (simp add: of_nat_mod)
  then have "256 dvd int x - int y" by (simp add: mod_eq_dvd_iff)
  then obtain q where q: "int x - int y = 256 * q" by (elim dvdE)
  with assms(2,3) have "- 1 < q" "q < 1" by linarith+
  with q show ?thesis by simp
qed

lemma checksum_update:
  assumes "i < length s" and "c \<noteq> s ! i"
  shows "checksum (s[i := c]) \<noteq> checksum s"
proof
  let ?a = "\<Sum>x\<leftarrow>take i s. of_char x :: nat" and ?z = "\<Sum>x\<leftarrow>drop (Suc i) s. of_char x :: nat"
  assume "checksum (s[i := c]) = checksum s"
  moreover have "s = take i s @ s ! i # drop (Suc i) s" using assms(1) by (simp add: id_take_nth_drop)
  moreover have "s[i := c] = take i s @ c # drop (Suc i) s" using assms(1) by (simp add: upd_conv_take_nth_drop)
  ultimately have "(?a + (of_char c + ?z)) mod 256 = (?a + (of_char (s ! i) + ?z)) mod 256"
    unfolding checksum_sum by (metis sum_list.append sum_list.Cons map_append list.simps(9))
  then have "(of_char c + (?a + ?z)) mod 256 = (of_char (s ! i) + (?a + ?z)) mod 256"
    by (simp only: add.left_commute)
  then have "of_char c = (of_char (s ! i) :: nat)"
    by (rule mod_add_cancel) (rule nat_of_char_less_256)+
  then show False using assms(2) by simp
qed

lemma valid_checksum_trailer:
  assumes "ck < 1000"
  shows "valid_checksum (pre @ [SOH] @ ''10='' @ zero_pad 3 ck @ [SOH]) \<longleftrightarrow> ck = checksum (pre @ [SOH])"
proof -
  have "SOH \<notin> set (''10='' @ butlast (zero_pad 3 ck @ [SOH]))"
    using SOH_not_in_numbers(2) [of 3 ck] by (simp add: SOH_def)
  from rfind_last [OF this, of pre] have "rfind (SOH # ''10='') (pre @ [SOH] @ ''10='' @ zero_pad 3 ck @ [SOH]) = Some (length pre)"
    by simp
  moreover have "length (zero_pad 3 ck) = 3" using assms by (intro length_zero_pad) simp_all
  ultimately show ?thesis by (simp add: valid_checksum_def)
qed

text \<open>Every field ends with the separator, so the trailer follows one.\<close>

lemma fix_encode_trailer:
  obtains pre where "fields_text (enc_head bs mt body) = pre @ [SOH]"
    and "fix_encode bs mt body = pre @ [SOH] @ ''10='' @ zero_pad 3 (checksum (pre @ [SOH])) @ [SOH]"
proof -
  let ?h = "fields_text (enc_head bs mt body)"
  have tail: "fs \<noteq> [] \<Longrightarrow> fields_text fs = butlast (fields_text fs) @ [SOH]" for fs
    by (induction fs rule: rev_induct) (simp_all add: field_def butlast_append)
  have "?h = butlast ?h @ [SOH]" by (rule tail) (simp add: enc_head_def)
  then obtain pre where pre: "?h = pre @ [SOH]" by blast
  have "fix_encode bs mt body = ?h @ ''10='' @ zero_pad 3 (checksum ?h) @ [SOH]"
    by (simp add: fix_encode_fields enc_fields_def field_tags)
  then show ?thesis by (intro that [OF pre]) (simp add: pre)
qed

lemma trailer_length: "ck < 256 \<Longrightarrow> length (''10='' @ zero_pad 3 ck @ [SOH]) = 7"
  by (simp add: length_zero_pad)

lemma print_fixed_chars: "c \<in> set (print_fixed n x) \<Longrightarrow> is_digit c \<or> c = CHR ''.'' \<or> c = CHR ''-''"
  using dec_digits zero_pad_digits by (auto simp: print_fixed_def Let_def split: if_splits)

lemma SOH_not_in_price [simp]: "SOH \<notin> set (price_str px)"
  using print_fixed_chars [of SOH 4 px] digit_not_special(5) [of SOH]
  by (auto simp: price_str_def SOH_def dest: in_set_takeD)

lemma SOH_not_in_codes [simp]:
  "side_char sd \<noteq> SOH" "ord_type_char ot \<noteq> SOH" "exec_type_char et \<noteq> SOH" "ord_status_char os \<noteq> SOH"
  by (cases sd; cases ot; cases et; cases os; simp add: SOH_def)+

lemmas fix_set_defs = set_str_def set_int_def set_chr_def

section \<open>Properties\<close>

text \<open>C23. FIX round trip: as long as no value contains the separator, parsing an encoded message
  succeeds and gives the BeginString, the BodyLength, the message type, the body's fields in order
  and the CheckSum; BodyLength is the number of characters from the message type field to the last
  body field, and CheckSum the sum of all characters before it modulo 256, in three digits.\<close>

theorem fix_roundtrip:
  assumes "SOH \<notin> set begin_string" "SOH \<notin> set msg_type" "\<forall>f \<in> set body. SOH \<notin> set (snd f)"
  shows "\<exists>len cks.
    fix_parse (fix_encode begin_string msg_type body) =
      (True, [(BeginString, begin_string), (BodyLength, len), (MsgTypeTag, msg_type)] @ body @ [(CheckSum, cks)]) \<and>
    atoi len = int (length (fields_text ((MsgTypeTag, msg_type) # body))) \<and> length cks = 3 \<and>
    atoi cks = (\<Sum>c\<leftarrow>fields_text ([(BeginString, begin_string), (BodyLength, len), (MsgTypeTag, msg_type)] @ body).
                  int (of_char c)) mod 256"
proof -
  let ?len = "to_string (int (length (fields_text ((MsgTypeTag, msg_type) # body))))"
  let ?h = "fields_text ([(BeginString, begin_string), (BodyLength, ?len), (MsgTypeTag, msg_type)] @ body)"
  have fs: "enc_fields begin_string msg_type body =
      [(BeginString, begin_string), (BodyLength, ?len), (MsgTypeTag, msg_type)] @ body @
      [(CheckSum, zero_pad 3 (checksum ?h))]"
    by (simp only: enc_fields_def enc_head_def enc_body_def append_assoc append_Cons append_Nil)
  have "length (zero_pad 3 (checksum ?h)) = 3" using checksum_less [of ?h] by (intro length_zero_pad) simp_all
  moreover have "atoi (zero_pad 3 (checksum ?h)) = (\<Sum>c\<leftarrow>?h. int (of_char c)) mod 256"
    unfolding atoi_zero_pad checksum_sum by (simp only: of_nat_mod int_sum_list map_map o_def) simp
  ultimately show ?thesis
    using fix_parse_encode [OF assms] unfolding fs
    by (intro exI [of _ ?len] exI [of _ "zero_pad 3 (checksum ?h)"]) (simp only: atoi_to_string simp_thms)
qed

theorem fix_roundtrip_witness:
  "fst (fix_parse (fix_encode ''FIX.4.4'' ''D'' [(55, ''AAPL'')])) = True"
  using fix_roundtrip [of "''FIX.4.4''" "''D''" "[(55, ''AAPL'')]"] by (auto simp: SOH_def)

text \<open>Every message the encoder produces passes the checksum validation, whatever its fields
  contain, even text that looks like a trailer.\<close>

theorem fix_encode_valid: "valid_checksum (fix_encode begin_string msg_type body)"
proof (rule fix_encode_trailer [of begin_string msg_type body])
  fix pre
  assume "fix_encode begin_string msg_type body = pre @ [SOH] @ ''10='' @ zero_pad 3 (checksum (pre @ [SOH])) @ [SOH]"
  with checksum_less [of "pre @ [SOH]"] valid_checksum_trailer [of "checksum (pre @ [SOH])" pre]
  show ?thesis by simp
qed



text \<open>Order entry: a NewOrderSingle built from values without separators parses to a message of
  type \<open>D\<close> with the side, quantity, order type and symbol it was built from, which has a price
  exactly when the order is a limit order, and then the four-decimal one.\<close>

theorem new_order_single_fields:
  assumes "SOH \<notin> set sender" "SOH \<notin> set target" "SOH \<notin> set clordid" "SOH \<notin> set symbol"
    and "fix_parse (new_order_single sender target seq clordid symbol side qty type price) = (ok, m)"
  shows "ok \<and> fix_get m MsgTypeTag = Some ''D'' \<and> fix_get m ClOrdID = Some clordid \<and>
    fix_get m SymbolTag = Some symbol \<and> fix_get m SideTag = Some [side_char side] \<and>
    map_option atoi (fix_get m OrderQty) = Some qty \<and> map_option atoi (fix_get m MsgSeqNum) = Some seq \<and>
    fix_get m OrdTypeTag = Some [ord_type_char type] \<and>
    fix_get m PriceTag = (if type = Limit then Some (price_str price) else None)"
proof -
  obtain body where body: "new_order_single sender target seq clordid symbol side qty type price =
        fix_encode ''FIX.4.4'' ''D'' body"
      "body = [(SenderCompID, sender), (TargetCompID, target), (MsgSeqNum, to_string seq), (ClOrdID, clordid),
        (SymbolTag, symbol), (SideTag, [side_char side]), (OrderQty, to_string qty),
        (OrdTypeTag, [ord_type_char type])] @ (if type = Limit then [(PriceTag, price_str price)] else [])"
    by (simp add: new_order_single_def fix_set_defs Let_def)
  have "\<forall>f \<in> set body. SOH \<notin> set (snd f)"
    using assms(1-4) SOH_not_in_numbers(1) SOH_not_in_codes [symmetric] by (auto simp: body(2))
  from fix_parse_encode [OF _ _ this, of "''FIX.4.4''" "''D''"] assms(5)
  have "ok" "m = enc_fields ''FIX.4.4'' ''D'' body" by (auto simp: body(1) SOH_def)
  then show ?thesis by (simp add: enc_fields_def enc_head_def enc_body_def body(2) tag_defs)
qed

theorem new_order_single_fields_witness:
  "fix_get (snd (fix_parse (new_order_single ''HFTOB'' ''EXCH'' 1 ''CLORD-1'' ''AAPL'' FIX_Buy 100 Limit 150.25)))
     SymbolTag = Some ''AAPL''"
  using new_order_single_fields [of "''HFTOB''" "''EXCH''" "''CLORD-1''" "''AAPL''" 1 FIX_Buy 100 Limit
      "150.25", OF _ _ _ _ prod.collapse [symmetric]]
  by (simp add: SOH_def)

end
