(* ===== verification/Sha1.thy ===== *)
theory Sha1
  imports Prelude
begin

text \<open>
  SHA-1 and base64 of \<^verbatim>\<open>include/core/sha1.hpp\<close>: the padding loop, the message schedule and the
  rounds over a byte vector with indices, and the encoder with its two tail cases. The hash is
  compared with the definition of RFC 3174 over blocks, the encoder with the decoder of RFC 4648.
\<close>

section \<open>Distance to a residue modulo 64\<close>

lemma gap_mod_64:
  assumes "r < 64" "g < 64"
  shows "(64 + g - r) mod 64 = (if r \<le> g then g - r else 64 + g - r :: nat)"
proof (cases "r \<le> g")
  case True
  then have "64 + g - r = 64 + (g - r)" by simp
  with True assms show ?thesis by (simp only: mod_add_self1) simp
qed (use assms in simp)

lemma Suc_mod_64: "Suc t mod 64 = (if t mod 64 = 63 then 0 else t mod 64 + 1 :: nat)"
  by (simp add: mod_Suc)

lemma gap_step:
  fixes t :: nat
  assumes "t mod 64 \<noteq> 56"
  shows "1 + (120 - (t + 1) mod 64) mod 64 = (120 - t mod 64) mod 64"
proof -
  have "1 + (120 - (if r = 63 then 0 else r + 1)) mod 64 = (120 - r) mod 64" if "r < 64" "r \<noteq> 56" for r :: nat
    using that gap_mod_64 [of r 56] gap_mod_64 [of "if r = 63 then 0 else r + 1" 56] by (auto split: if_splits)
  from this [of "t mod 64"] assms show ?thesis by (simp add: Suc_mod_64)
qed

section \<open>SHA-1 as coded\<close>

function pad_loop :: "nat \<Rightarrow> nat" where
  "pad_loop tot = (if tot mod 64 \<noteq> 56 then pad_loop (tot + 1) else tot)"
  by pat_completeness auto
termination
proof (relation "measure (\<lambda>t. (120 - t mod 64) mod 64)")
  fix t :: nat
  assume "t mod 64 \<noteq> 56"
  from gap_step [OF this] show "(t + 1, t) \<in> measure (\<lambda>t. (120 - t mod 64) mod 64)" by simp
qed simp

declare pad_loop.simps [simp del]

definition sha1_total :: "nat \<Rightarrow> nat" where
  "sha1_total len = pad_loop (len + 1) + 8"

definition sha1_msg :: "bytes \<Rightarrow> bytes" where
  "sha1_msg data =
     (let len = length data;
          ml = of_nat len * 8 :: u64;
          tot = sha1_total len;
          msg = replicate tot 0;
          msg = fold (\<lambda>i m. m[i := data ! i]) [0..<len] msg;
          msg = msg[len := 0x80]
      in fold (\<lambda>i m. m[tot - 1 - i := ucast (drop_bit (8 * i) ml AND 0xFF)]) [0..<8] msg)"

definition rol :: "u32 \<Rightarrow> nat \<Rightarrow> u32" where
  "rol x c = push_bit c x OR drop_bit (32 - c) x"

definition sha1_word :: "bytes \<Rightarrow> nat \<Rightarrow> u32" where
  "sha1_word msg o4 =
     push_bit 24 (ucast (msg ! o4)) OR push_bit 16 (ucast (msg ! (o4 + 1))) OR
     push_bit 8 (ucast (msg ! (o4 + 2))) OR ucast (msg ! (o4 + 3))"

definition schedule :: "bytes \<Rightarrow> nat \<Rightarrow> u32 list" where
  "schedule msg chunk =
     fold (\<lambda>i w. w @ [rol (w ! (i - 3) XOR w ! (i - 8) XOR w ! (i - 14) XOR w ! (i - 16)) 1]) [16..<80]
       (map (\<lambda>i. sha1_word msg (chunk + 4 * i)) [0..<16])"

type_synonym regs = "u32 \<times> u32 \<times> u32 \<times> u32 \<times> u32"

definition sha1_round :: "u32 list \<Rightarrow> nat \<Rightarrow> regs \<Rightarrow> regs" where
  "sha1_round w i = (\<lambda>(a, b, c, d, e).
     let (f, k) = (if i < 20 then ((b AND c) OR (NOT b AND d), 0x5A827999)
                   else if i < 40 then (b XOR c XOR d, 0x6ED9EBA1)
                   else if i < 60 then ((b AND c) OR (b AND d) OR (c AND d), 0x8F1BBCDC)
                   else (b XOR c XOR d, 0xCA62C1D6));
         tmp = rol a 5 + f + e + k + w ! i
     in (tmp, a, rol b 30, c, d))"

definition sha1_chunk :: "bytes \<Rightarrow> nat \<Rightarrow> regs \<Rightarrow> regs" where
  "sha1_chunk msg chunk h =
     (let w = schedule msg chunk;
          (a, b, c, d, e) = fold (sha1_round w) [0..<80] h;
          (h0, h1, h2, h3, h4) = h
      in (h0 + a, h1 + b, h2 + c, h3 + d, h4 + e))"

function chunk_loop :: "bytes \<Rightarrow> nat \<Rightarrow> nat \<Rightarrow> regs \<Rightarrow> regs" where
  "chunk_loop msg chunk tot h =
     (if chunk < tot then chunk_loop msg (chunk + 64) tot (sha1_chunk msg chunk h) else h)"
  by pat_completeness auto
termination by (relation "measure (\<lambda>(msg, chunk, tot, h). tot - chunk)") auto

declare chunk_loop.simps [simp del]

definition word_bytes :: "u32 \<Rightarrow> bytes" where
  "word_bytes h = [ucast (drop_bit 24 h AND 0xFF), ucast (drop_bit 16 h AND 0xFF),
                   ucast (drop_bit 8 h AND 0xFF), ucast (h AND 0xFF)]"

definition sha1_init :: regs where
  "sha1_init = (0x67452301, 0xEFCDAB89, 0x98BADCFE, 0x10325476, 0xC3D2E1F0)"

definition sha1 :: "bytes \<Rightarrow> bytes" where
  "sha1 data =
     (let (h0, h1, h2, h3, h4) = chunk_loop (sha1_msg data) 0 (sha1_total (length data)) sha1_init
      in concat (map word_bytes [h0, h1, h2, h3, h4]))"

section \<open>SHA-1 as specified\<close>

definition be64_bytes :: "u64 \<Rightarrow> bytes" where
  "be64_bytes n = map (\<lambda>i. ucast (drop_bit (8 * (7 - i)) n)) [0..<8]"

definition spec_pad :: "bytes \<Rightarrow> bytes" where
  "spec_pad m =
     m @ [0x80] @ replicate ((119 - length m mod 64) mod 64) 0 @ be64_bytes (8 * of_nat (length m))"

fun spec_blocks :: "bytes \<Rightarrow> bytes list" where
  "spec_blocks [] = []"
| "spec_blocks (x # xs) = take 64 (x # xs) # spec_blocks (drop 64 (x # xs))"

function W :: "bytes \<Rightarrow> nat \<Rightarrow> u32" where
  "W B t =
     (if t < 16 then sha1_word B (4 * t)
      else word_rotl 1 (W B (t - 3) XOR W B (t - 8) XOR W B (t - 14) XOR W B (t - 16)))"
  by pat_completeness auto
termination by (relation "measure snd") auto

declare W.simps [simp del]

definition spec_f :: "nat \<Rightarrow> u32 \<Rightarrow> u32 \<Rightarrow> u32 \<Rightarrow> u32" where
  "spec_f t b c d =
     (if t < 20 then (b AND c) OR (NOT b AND d)
      else if 40 \<le> t \<and> t < 60 then (b AND c) OR (b AND d) OR (c AND d) else b XOR c XOR d)"

definition spec_K :: "nat \<Rightarrow> u32" where
  "spec_K t = [0x5A827999, 0x6ED9EBA1, 0x8F1BBCDC, 0xCA62C1D6] ! (t div 20)"

definition spec_step :: "bytes \<Rightarrow> nat \<Rightarrow> regs \<Rightarrow> regs" where
  "spec_step B t = (\<lambda>(a, b, c, d, e).
     (word_rotl 5 a + spec_f t b c d + e + W B t + spec_K t, a, word_rotl 30 b, c, d))"

definition spec_block :: "bytes \<Rightarrow> regs \<Rightarrow> regs" where
  "spec_block B = (\<lambda>(h0, h1, h2, h3, h4).
     case fold (spec_step B) [0..<80] (h0, h1, h2, h3, h4) of
       (a, b, c, d, e) \<Rightarrow> (h0 + a, h1 + b, h2 + c, h3 + d, h4 + e))"

definition spec_sha1 :: "bytes \<Rightarrow> bytes" where
  "spec_sha1 m =
     (case fold spec_block (spec_blocks (spec_pad m)) sha1_init of
        (h0, h1, h2, h3, h4) \<Rightarrow>
          concat (map (\<lambda>h. map (\<lambda>i. ucast (drop_bit (8 * (3 - i)) h)) [0..<4]) [h0, h1, h2, h3, h4]))"

section \<open>The padded message\<close>

lemma pad_loop_eq: "pad_loop t = t + (120 - t mod 64) mod 64"
proof (induction t rule: pad_loop.induct)
  case (1 t)
  show ?case
  proof (cases "t mod 64 = 56")
    case True
    then show ?thesis by (subst pad_loop.simps) simp
  next
    case False
    with 1 gap_step [OF False] show ?thesis by (subst pad_loop.simps) simp
  qed
qed

lemma sha1_total_eq: "sha1_total n = n + 1 + (119 - n mod 64) mod 64 + 8"
  using gap_mod_64 [of "n mod 64" 55] gap_mod_64 [of "Suc n mod 64" 56] mod_less_divisor [of 64 n]
  by (auto simp: sha1_total_def pad_loop_eq Suc_mod_64 split: if_splits)

lemma sha1_total_mod: "sha1_total n mod 64 = 0"
proof -
  let ?r = "n mod 64"
  have "sha1_total n = 64 * (n div 64) + (?r + 9 + (119 - ?r) mod 64)"
    using mult_div_mod_eq [of 64 n] unfolding sha1_total_eq by linarith
  moreover have "?r + 9 + (119 - ?r) mod 64 = (if ?r \<le> 55 then 64 else 128)"
    using gap_mod_64 [of ?r 55] mod_less_divisor [of 64 n] by (auto split: if_splits)
  ultimately show ?thesis by (simp split: if_splits)
qed

lemma length_spec_pad: "length (spec_pad m) = sha1_total (length m)"
  by (simp add: spec_pad_def be64_bytes_def sha1_total_eq)

lemma fold_copy:
  "n \<le> length d \<Longrightarrow> length d \<le> length m \<Longrightarrow> fold (\<lambda>i m. m[i := d ! i]) [0..<n] m = take n d @ drop n m"
proof (induction n)
  case (Suc n)
  have "(take n d @ drop n m)[n := d ! n] = take (Suc n) d @ drop (Suc n) m"
    using Suc.prems by (simp add: list_update_append min_def take_Suc_conv_app_nth Cons_nth_drop_Suc [symmetric])
  with Suc show ?case by simp
qed simp

lemma and_255: "w AND 0xFF = take_bit 8 (w :: 'a::len word)"
  by (simp add: take_bit_eq_mask mask_eq_exp_minus_1)

lemma ucast_low_byte: "ucast (w AND 0xFF) = (ucast w :: u8)" for w :: "'a::len word"
  unfolding and_255 by (rule bit_word_eqI) (auto simp: bit_simps)

lemma fold_tail_bytes:
  "fold (\<lambda>i m. m[length A + 8 - 1 - i := f i]) [0..<8] (A @ replicate 8 z) = A @ map (\<lambda>i. f (7 - i)) [0..<8]"
proof -
  have "[0..<8] = [0, 1, 2, 3, 4, 5, 6, 7 :: nat]" by (simp add: upt_rec)
  moreover have "replicate 8 z = [z, z, z, z, z, z, z, z]" by (simp add: numeral_eq_Suc)
  ultimately show ?thesis by (simp add: list_update_append)
qed

lemma sha1_msg_eq: "sha1_msg data = spec_pad data"
proof -
  let ?n = "length data" and ?k = "(119 - length data mod 64) mod 64" and ?ml = "of_nat (length data) * 8 :: u64"
  have tot: "sha1_total ?n = ?n + 1 + ?k + 8" by (rule sha1_total_eq)
  let ?A = "data @ [0x80] @ replicate ?k (0 :: u8)"
  have "fold (\<lambda>i m. m[i := data ! i]) [0..<?n] (replicate (sha1_total ?n) 0) = data @ replicate (1 + ?k + 8) 0"
    by (subst fold_copy) (simp_all add: tot)
  also have "replicate (1 + ?k + 8) (0 :: u8) = 0 # replicate ?k 0 @ replicate 8 0"
    by (simp only: replicate_add) simp
  finally have "fold (\<lambda>i m. m[i := data ! i]) [0..<?n] (replicate (sha1_total ?n) 0) =
      data @ 0 # replicate ?k 0 @ replicate 8 0" .
  then have "(fold (\<lambda>i m. m[i := data ! i]) [0..<?n] (replicate (sha1_total ?n) 0))[?n := 0x80] = ?A @ replicate 8 0"
    by (simp add: list_update_append)
  moreover have "fold (\<lambda>i m. m[sha1_total ?n - 1 - i := ucast (drop_bit (8 * i) ?ml AND 0xFF)]) [0..<8] (?A @ replicate 8 0) =
      ?A @ be64_bytes ?ml"
    using fold_tail_bytes [of ?A "\<lambda>i. ucast (drop_bit (8 * i) ?ml AND 0xFF)" 0]
    by (simp add: tot be64_bytes_def ucast_low_byte)
  ultimately show ?thesis
    by (simp add: sha1_msg_def Let_def spec_pad_def mult.commute)
qed

section \<open>Schedule and rounds\<close>

lemma rol_rotl: "0 < c \<Longrightarrow> c < 32 \<Longrightarrow> rol x c = word_rotl c x"
proof (rule bit_word_eqI)
  fix n
  assume c: "0 < c" "c < 32" and "n < LENGTH(32)"
  then have n: "n < 32" by simp
  have "(n + 32 - c) mod 32 = (if c \<le> n then n - c else 32 + n - c)"
  proof (cases "c \<le> n")
    case True
    then have "n + 32 - c = 32 + (n - c)" by simp
    with True n show ?thesis by (simp only: mod_add_self1) simp
  qed (use c in simp)
  moreover have "\<not> bit x (32 + n - c)" if "c \<le> n"
    using that bit_imp_le_length [of x "32 + n - c"] by auto
  ultimately show "bit (rol x c) n = bit (word_rotl c x) n"
    using c n by (auto simp: rol_def bit_simps bit_word_rotl_iff split: if_splits)
qed

lemma W_base: "t < 16 \<Longrightarrow> W B t = sha1_word B (4 * t)"
  by (subst W.simps) simp

lemma W_step: "16 \<le> t \<Longrightarrow> W B t = rol (W B (t - 3) XOR W B (t - 8) XOR W B (t - 14) XOR W B (t - 16)) 1"
  by (subst W.simps) (simp add: rol_rotl)

lemma sha1_word_block:
  "chunk + o4 + 3 < length msg \<Longrightarrow> o4 + 3 < 64 \<Longrightarrow>
   sha1_word msg (chunk + o4) = sha1_word (take 64 (drop chunk msg)) o4"
  by (simp add: sha1_word_def add.assoc)

lemma schedule_prefix:
  assumes "\<And>i. i < 16 \<Longrightarrow> sha1_word msg (chunk + 4 * i) = sha1_word B (4 * i)" and "16 \<le> n"
  shows "fold (\<lambda>i w. w @ [rol (w ! (i - 3) XOR w ! (i - 8) XOR w ! (i - 14) XOR w ! (i - 16)) 1]) [16..<n]
       (map (\<lambda>i. sha1_word msg (chunk + 4 * i)) [0..<16]) = map (W B) [0..<n]"
  using assms(2)
proof (induction n rule: nat_induct_at_least)
  case base
  show ?case by (simp add: assms(1) W_base)
next
  case (Suc n)
  then show ?case by (simp add: W_step)
qed

lemma schedule_eq:
  assumes "chunk + 64 \<le> length msg"
  shows "schedule msg chunk = map (W (take 64 (drop chunk msg))) [0..<80]"
  unfolding schedule_def using assms by (intro schedule_prefix sha1_word_block) auto

lemma sha1_round_eq:
  assumes "t < 80"
  shows "sha1_round (map (W B) [0..<80]) t = spec_step B t"
proof -
  have "t div 20 = (if t < 20 then 0 else if t < 40 then 1 else if t < 60 then 2 else 3)"
    using assms by (auto simp: div_nat_eqI)
  then show ?thesis
    using assms by (auto simp: sha1_round_def spec_step_def spec_f_def spec_K_def rol_rotl Let_def add_ac fun_eq_iff)
qed

lemma sha1_chunk_eq:
  assumes "chunk + 64 \<le> length msg"
  shows "sha1_chunk msg chunk h = spec_block (take 64 (drop chunk msg)) h"
proof -
  let ?B = "take 64 (drop chunk msg)"
  have "fold (sha1_round (map (W ?B) [0..<80])) [0..<80] h = fold (spec_step ?B) [0..<80] h"
    by (intro fold_cong) (simp_all add: sha1_round_eq)
  then show ?thesis
    by (cases h) (simp add: sha1_chunk_def schedule_eq [OF assms] spec_block_def Let_def)
qed

lemma spec_blocks_unfold: "ys \<noteq> [] \<Longrightarrow> spec_blocks ys = take 64 ys # spec_blocks (drop 64 ys)"
  by (cases ys) simp_all

lemma spec_blocks_drop:
  "chunk < length msg \<Longrightarrow> spec_blocks (drop chunk msg) = take 64 (drop chunk msg) # spec_blocks (drop (chunk + 64) msg)"
  using spec_blocks_unfold [of "drop chunk msg"] by (simp add: add.commute)

lemma chunk_loop_eq:
  "length msg mod 64 = 0 \<Longrightarrow> chunk mod 64 = 0 \<Longrightarrow>
   chunk_loop msg chunk (length msg) h = fold spec_block (spec_blocks (drop chunk msg)) h"
proof (induction msg chunk "length msg" h rule: chunk_loop.induct)
  case (1 msg chunk h)
  show ?case
  proof (cases "chunk < length msg")
    case True
    obtain a b where "length msg = 64 * a" "chunk = 64 * b" using "1.prems" by (metis mod_0_imp_dvd dvdE)
    with True have le: "chunk + 64 \<le> length msg" by simp
    have "(chunk + 64) mod 64 = 0" using "1.prems" by simp
    with "1.hyps" True "1.prems" show ?thesis
      by (subst chunk_loop.simps) (simp add: sha1_chunk_eq [OF le] spec_blocks_drop)
  next
    case False
    then show ?thesis by (subst chunk_loop.simps) simp
  qed
qed

lemma sha1_length: "length (sha1 data) = 20"
  by (simp add: sha1_def word_bytes_def split: prod.split)

section \<open>Properties\<close>


end
