(* ===== verification/Base64.thy ===== *)
theory Base64
  imports Sha1
begin

text \<open>
  The base64 encoder of \<^verbatim>\<open>include/core/sha1.hpp\<close>: the loop over groups of three bytes and the two
  padded tails. The decoder of RFC 4648 gives back the encoded bytes.
\<close>

section \<open>The encoder\<close>

definition b64_alphabet :: string where
  "b64_alphabet = ''ABCDEFGHIJKLMNOPQRSTUVWXYZabcdefghijklmnopqrstuvwxyz0123456789+/''"

definition b64_char :: "u32 \<Rightarrow> char" where
  "b64_char n = b64_alphabet ! unat (n AND 63)"

function b64_loop :: "bytes \<Rightarrow> nat \<Rightarrow> string \<Rightarrow> nat \<times> string" where
  "b64_loop data i out =
     (if i + 3 \<le> length data
      then let n = push_bit 16 (ucast (data ! i)) OR push_bit 8 (ucast (data ! (i + 1))) OR ucast (data ! (i + 2))
           in b64_loop data (i + 3)
                (out @ [b64_char (drop_bit 18 n), b64_char (drop_bit 12 n), b64_char (drop_bit 6 n), b64_char n])
      else (i, out))"
  by pat_completeness auto
termination by (relation "measure (\<lambda>(data, i, out). length data - i)") auto

declare b64_loop.simps [simp del]

definition base64 :: "bytes \<Rightarrow> string" where
  "base64 data =
     (let (i, out) = b64_loop data 0 []; rem = length data - i
      in if rem = 1
         then let n = push_bit 16 (ucast (data ! i))
              in out @ [b64_char (drop_bit 18 n), b64_char (drop_bit 12 n), CHR ''='', CHR ''='']
         else if rem = 2
         then let n = push_bit 16 (ucast (data ! i)) OR push_bit 8 (ucast (data ! (i + 1)))
              in out @ [b64_char (drop_bit 18 n), b64_char (drop_bit 12 n), b64_char (drop_bit 6 n), CHR ''='']
         else out)"

section \<open>The decoder\<close>

definition b64_val :: "char \<Rightarrow> u32" where
  "b64_val c = of_nat (length (takeWhile (\<lambda>x. x \<noteq> c) b64_alphabet))"

definition b64_join :: "char \<Rightarrow> char \<Rightarrow> char \<Rightarrow> char \<Rightarrow> u32" where
  "b64_join a b c d = push_bit 18 (b64_val a) OR push_bit 12 (b64_val b) OR push_bit 6 (b64_val c) OR b64_val d"

fun unbase64 :: "string \<Rightarrow> bytes option" where
  "unbase64 [] = Some []"
| "unbase64 (a # b # c # d # rest) =
     (if c = CHR ''='' then (if d = CHR ''='' \<and> rest = [] then Some [ucast (drop_bit 16 (b64_join a b CHR ''A'' CHR ''A''))] else None)
      else if d = CHR ''='' then
        (if rest = [] then let n = b64_join a b c CHR ''A'' in Some [ucast (drop_bit 16 n), ucast (drop_bit 8 n)] else None)
      else (case unbase64 rest of
              None \<Rightarrow> None
            | Some bs \<Rightarrow> let n = b64_join a b c d in Some (ucast (drop_bit 16 n) # ucast (drop_bit 8 n) # ucast n # bs)))"
| "unbase64 s = None"

section \<open>Round trip\<close>

lemma takeWhile_index: "distinct xs \<Longrightarrow> k < length xs \<Longrightarrow> length (takeWhile (\<lambda>x. x \<noteq> xs ! k) xs) = k"
proof (induction xs arbitrary: k)
  case (Cons x xs)
  then show ?case by (cases k) auto
qed simp

lemma and_63: "n AND 63 = take_bit 6 (n :: u32)"
  by (simp add: take_bit_eq_mask mask_eq_exp_minus_1)

lemma b64_index_less: "unat (n AND 63 :: u32) < 64"
  using take_bit_nat_less_exp [of 6 "unat n"] by (simp add: and_63 unsigned_take_bit_eq)

lemma length_alphabet: "length b64_alphabet = 64" and distinct_alphabet: "distinct b64_alphabet"
  and eq_not_in_alphabet: "CHR ''='' \<notin> set b64_alphabet"
  by (simp_all add: b64_alphabet_def)

lemma b64_val_char: "b64_val (b64_char n) = n AND 63"
proof -
  have "unat (n AND 63) < length b64_alphabet" using b64_index_less [of n] by (simp add: length_alphabet)
  then show ?thesis
    using takeWhile_index [OF distinct_alphabet, of "unat (n AND 63)"] by (simp add: b64_val_def b64_char_def)
qed

lemma b64_char_not_eq [simp]: "b64_char n \<noteq> CHR ''=''"
proof -
  have "b64_char n \<in> set b64_alphabet"
    unfolding b64_char_def by (rule nth_mem) (simp add: length_alphabet b64_index_less)
  then show ?thesis using eq_not_in_alphabet by auto
qed

lemma b64_val_A [simp]: "b64_val CHR ''A'' = 0"
  by (simp add: b64_val_def b64_alphabet_def)

lemma join_chars:
  assumes "take_bit 24 n = n"
  shows "b64_join (b64_char (drop_bit 18 n)) (b64_char (drop_bit 12 n)) (b64_char (drop_bit 6 n)) (b64_char n) = n"
proof (rule bit_word_eqI)
  fix i assume "i < LENGTH(32)"
  have "bit n i \<Longrightarrow> i < 24" using assms by (metis bit_take_bit_iff)
  then show "bit (b64_join (b64_char (drop_bit 18 n)) (b64_char (drop_bit 12 n)) (b64_char (drop_bit 6 n)) (b64_char n)) i = bit n i"
    by (cases "6 \<le> i"; cases "12 \<le> i"; cases "18 \<le> i")
      (auto simp: b64_join_def b64_val_char and_63 bit_simps)
qed

text \<open>The encoder by structural recursion on the bytes.\<close>

definition pack3 :: "u8 \<Rightarrow> u8 \<Rightarrow> u8 \<Rightarrow> u32" where
  "pack3 x y z = push_bit 16 (ucast x) OR push_bit 8 (ucast y) OR ucast z"

fun enc64 :: "bytes \<Rightarrow> string" where
  "enc64 (x # y # z # bs) =
     (let n = pack3 x y z
      in [b64_char (drop_bit 18 n), b64_char (drop_bit 12 n), b64_char (drop_bit 6 n), b64_char n] @ enc64 bs)"
| "enc64 [x, y] = (let n = pack3 x y 0 in [b64_char (drop_bit 18 n), b64_char (drop_bit 12 n), b64_char (drop_bit 6 n), CHR ''=''])"
| "enc64 [x] = (let n = pack3 x 0 0 in [b64_char (drop_bit 18 n), b64_char (drop_bit 12 n), CHR ''='', CHR ''=''])"
| "enc64 [] = []"

lemma drop_three: "i + 3 \<le> length d \<Longrightarrow> drop i d = d ! i # d ! (i + 1) # d ! (i + 2) # drop (i + 3) d"
  by (simp add: Cons_nth_drop_Suc numeral_eq_Suc)

definition b64_tail :: "bytes \<Rightarrow> nat \<Rightarrow> string" where
  "b64_tail data i =
     (if length data - i = 1
      then let n = push_bit 16 (ucast (data ! i))
           in [b64_char (drop_bit 18 n), b64_char (drop_bit 12 n), CHR ''='', CHR ''='']
      else if length data - i = 2
      then let n = push_bit 16 (ucast (data ! i)) OR push_bit 8 (ucast (data ! (i + 1)))
           in [b64_char (drop_bit 18 n), b64_char (drop_bit 12 n), b64_char (drop_bit 6 n), CHR ''='']
      else [])"

lemma base64_tail: "base64 data = (case b64_loop data 0 [] of (i, out) \<Rightarrow> out @ b64_tail data i)"
  by (simp add: base64_def b64_tail_def Let_def split: prod.split)

lemma b64_tail_eq:
  assumes "\<not> i + 3 \<le> length data" and "i \<le> length data"
  shows "b64_tail data i = enc64 (drop i data)"
proof -
  consider "length data = i" | "length data = i + 1" | "length data = i + 2" using assms by linarith
  then show ?thesis
  proof cases
    case 2
    then have "drop i data = [data ! i]" by (simp flip: Cons_nth_drop_Suc)
    with 2 show ?thesis by (simp add: b64_tail_def pack3_def)
  next
    case 3
    then have "drop i data = [data ! i, data ! (i + 1)]" by (simp flip: Cons_nth_drop_Suc)
    with 3 show ?thesis by (simp add: b64_tail_def pack3_def)
  qed (simp add: b64_tail_def)
qed

lemma b64_loop_eq:
  "i \<le> length data \<Longrightarrow>
   (case b64_loop data i out of (i', out') \<Rightarrow> out' @ b64_tail data i') = out @ enc64 (drop i data)"
proof (induction data i out rule: b64_loop.induct)
  case (1 data i out)
  show ?case
  proof (cases "i + 3 \<le> length data")
    case True
    with "1.IH" [OF True refl] show ?thesis
      by (subst b64_loop.simps) (simp add: drop_three [OF True] pack3_def Let_def)
  next
    case False
    with "1.prems" show ?thesis by (subst b64_loop.simps) (simp add: b64_tail_eq)
  qed
qed

lemma base64_enc64: "base64 data = enc64 data"
  using b64_loop_eq [of 0 data "[]"] by (simp add: base64_tail)

lemma pack3_bits:
  "take_bit 24 (pack3 x y z) = pack3 x y z"
  "ucast (drop_bit 16 (pack3 x y z)) = x" "ucast (drop_bit 8 (pack3 x y z)) = y" "ucast (pack3 x y z) = z"
proof -
  have lt: "\<not> bit (w :: u8) k" if "8 \<le> k" for w k using that bit_imp_le_length [of w k] by auto
  show "take_bit 24 (pack3 x y z) = pack3 x y z"
    by (rule bit_word_eqI) (auto simp: pack3_def bit_simps lt)
  show "ucast (drop_bit 16 (pack3 x y z)) = x" "ucast (drop_bit 8 (pack3 x y z)) = y" "ucast (pack3 x y z) = z"
    by (rule bit_word_eqI; auto simp: pack3_def bit_simps lt)+
qed

text \<open>The padded tails carry zero bits where the padding stands.\<close>

lemma join_pack3:
  "b64_join (b64_char (drop_bit 18 (pack3 x y z))) (b64_char (drop_bit 12 (pack3 x y z)))
     (b64_char (drop_bit 6 (pack3 x y z))) (b64_char (pack3 x y z)) = pack3 x y z"
  by (rule join_chars) (rule pack3_bits)

lemma join_pack2:
  "b64_join (b64_char (drop_bit 18 (pack3 x y 0))) (b64_char (drop_bit 12 (pack3 x y 0)))
     (b64_char (drop_bit 6 (pack3 x y 0))) CHR ''A'' = pack3 x y 0"
proof -
  have "b64_val (b64_char (pack3 x y 0)) = 0"
    by (rule bit_word_eqI) (auto simp: b64_val_char and_63 pack3_def bit_simps)
  then show ?thesis using join_pack3 [of x y 0] by (simp add: b64_join_def)
qed

lemma join_pack1:
  "b64_join (b64_char (drop_bit 18 (pack3 x 0 0))) (b64_char (drop_bit 12 (pack3 x 0 0))) CHR ''A'' CHR ''A'' = pack3 x 0 0"
proof -
  have "b64_val (b64_char (drop_bit 6 (pack3 x 0 0))) = 0"
    by (rule bit_word_eqI) (auto simp: b64_val_char and_63 pack3_def bit_simps)
  then show ?thesis using join_pack2 [of x 0] by (simp add: b64_join_def)
qed

lemma unbase64_enc64: "unbase64 (enc64 bs) = Some bs"
  by (induction bs rule: enc64.induct) (simp_all add: Let_def join_pack3 join_pack2 join_pack1 pack3_bits)

lemma length_enc64: "length (enc64 bs) = (length bs + 2) div 3 * 4"
proof (induction bs rule: enc64.induct)
  case (1 x y z bs)
  have "(length (x # y # z # bs) + 2) div 3 = (length bs + 2) div 3 + 1"
    using div_add_self2 [of 3 "length bs + 2"] by (simp add: add.commute)
  with 1 show ?case unfolding Let_def enc64.simps by (simp only: length_append list.size) simp
qed (simp_all add: Let_def)

section \<open>Properties\<close>

text \<open>Base64 round trip: for every byte string the encoder's output, four characters for each
  three bytes begun, is decoded by the RFC 4648 decoder to the same bytes.\<close>

theorem base64_roundtrip:
  "unbase64 (base64 bs) = Some bs \<and> length (base64 bs) = (length bs + 2) div 3 * 4"
  by (simp add: base64_enc64 unbase64_enc64 length_enc64)

end
