(* ===== verification/Line_Socket.thy ===== *)
theory Line_Socket
  imports Text_Numbers
begin

text \<open>
  The buffered connection \<^verbatim>\<open>LineSocket\<close> of \<^verbatim>\<open>include/mt5/tcp.hpp\<close>. The operating system's side of a
  connection is part of the state: what \<^verbatim>\<open>recv\<close> will deliver, as chunks of bytes and timeouts
  (after them the peer has closed), and how many bytes each \<^verbatim>\<open>send\<close> will accept. Lines and
  fixed-size reads depend on the bytes only, not on how they arrive in chunks.
\<close>

section \<open>The connection\<close>

datatype rx = Data string | Timeout

record line_socket =
  ls_timed_out :: bool
  ls_buf :: string
  ls_rx :: "rx list"
  ls_tx :: "nat list"
  ls_sent :: string

datatype recvd = Got string | Would_block | Closed

text \<open>\<open>::recv(fd, p, n, 0)\<close> with \<open>n > 0\<close>: up to \<open>n\<close> bytes of the next chunk.\<close>

fun os_recv :: "nat \<Rightarrow> rx list \<Rightarrow> recvd \<times> rx list" where
  "os_recv n [] = (Closed, [])"
| "os_recv n (Timeout # es) = (Would_block, es)"
| "os_recv n (Data d # es) =
     (if d = [] then os_recv n es
      else (Got (take n d), (if drop n d = [] then es else Data (drop n d) # es)))"

fun rx_size :: "rx list \<Rightarrow> nat" where
  "rx_size [] = 0"
| "rx_size (Timeout # es) = Suc (rx_size es)"
| "rx_size (Data d # es) = Suc (length d + rx_size es)"

lemma os_recv_Got:
  "os_recv n es = (Got d, es') \<Longrightarrow> 0 < n \<Longrightarrow> d \<noteq> [] \<and> length d \<le> n \<and> rx_size es' < rx_size es"
  by (induction n es rule: os_recv.induct) (auto split: if_splits)

function recv_line_loop :: "line_socket \<Rightarrow> (string option) \<times> line_socket" where
  "recv_line_loop s =
     (case str_find CHR 0x0A (ls_buf s) 0 of
        Some nl \<Rightarrow> (Some (take nl (ls_buf s)), s\<lparr>ls_buf := drop (nl + 1) (ls_buf s)\<rparr>)
      | None \<Rightarrow>
          (case os_recv 4096 (ls_rx s) of
             (Got d, es) \<Rightarrow> recv_line_loop (s\<lparr>ls_buf := ls_buf s @ d, ls_rx := es\<rparr>)
           | (Would_block, es) \<Rightarrow> (None, s\<lparr>ls_timed_out := True, ls_rx := es\<rparr>)
           | (Closed, es) \<Rightarrow>
               if ls_buf s \<noteq> [] then (Some (ls_buf s), s\<lparr>ls_buf := [], ls_rx := es\<rparr>)
               else (None, s\<lparr>ls_rx := es\<rparr>)))"
  by pat_completeness auto
termination
  by (relation "measure (\<lambda>s. rx_size (ls_rx s))") (auto dest!: sym [of "(Got _, _)"] os_recv_Got)

declare recv_line_loop.simps [simp del]

text \<open>\<open>None\<close> is the result \<open>false\<close>, which leaves \<open>out\<close> alone.\<close>

definition recv_line :: "line_socket \<Rightarrow> (string option) \<times> line_socket" where
  "recv_line s = recv_line_loop (s\<lparr>ls_timed_out := False\<rparr>)"

function recv_exact_loop :: "nat \<Rightarrow> string \<Rightarrow> line_socket \<Rightarrow> (string option) \<times> line_socket" where
  "recv_exact_loop n got s =
     (if length got < n
      then (case os_recv (n - length got) (ls_rx s) of
              (Got d, es) \<Rightarrow> recv_exact_loop n (got @ d) (s\<lparr>ls_rx := es\<rparr>)
            | (Would_block, es) \<Rightarrow> (None, s\<lparr>ls_rx := es\<rparr>)
            | (Closed, es) \<Rightarrow> (None, s\<lparr>ls_rx := es\<rparr>))
      else (Some got, s))"
  by pat_completeness auto
termination
  by (relation "measure (\<lambda>(n, got, s). rx_size (ls_rx s))") (auto dest!: sym [of "(Got _, _)"] os_recv_Got)

declare recv_exact_loop.simps [simp del]

definition recv_exact :: "nat \<Rightarrow> line_socket \<Rightarrow> (string option) \<times> line_socket" where
  "recv_exact n s =
     (if ls_buf s \<noteq> []
      then let k = (if n < length (ls_buf s) then n else length (ls_buf s))
           in recv_exact_loop n (take k (ls_buf s)) (s\<lparr>ls_buf := drop k (ls_buf s)\<rparr>)
      else recv_exact_loop n [] s)"

text \<open>One \<open>::send\<close> per entry of \<open>ls_tx\<close>, which says how many bytes it takes at most; 0, or no entry
  left, is a failing call.\<close>

fun send_loop :: "string \<Rightarrow> nat list \<Rightarrow> string \<Rightarrow> bool \<times> nat list \<times> string" where
  "send_loop [] tx sent = (True, tx, sent)"
| "send_loop (c # cs) [] sent = (False, [], sent)"
| "send_loop (c # cs) (k # ks) sent =
     (if k = 0 then (False, ks, sent)
      else send_loop (drop k (c # cs)) ks (sent @ take k (c # cs)))"

definition send_all :: "string \<Rightarrow> line_socket \<Rightarrow> bool \<times> line_socket" where
  "send_all d s = (let (ok, tx, sent) = send_loop d (ls_tx s) (ls_sent s)
                   in (ok, s\<lparr>ls_tx := tx, ls_sent := sent\<rparr>))"

definition send_line :: "string \<Rightarrow> line_socket \<Rightarrow> bool \<times> line_socket" where
  "send_line d s = (let (ok, tx, sent) = send_loop d (ls_tx s) (ls_sent s)
                    in (ok, s\<lparr>ls_tx := tx, ls_sent := sent\<rparr>))"

section \<open>Bytes, not chunks\<close>

fun data_of :: "rx list \<Rightarrow> string" where
  "data_of [] = []"
| "data_of (Timeout # es) = data_of es"
| "data_of (Data d # es) = d @ data_of es"

text \<open>The bytes that have been received or will be, before anything is consumed.\<close>

definition pending :: "line_socket \<Rightarrow> string" where
  "pending s = ls_buf s @ data_of (ls_rx s)"

definition no_timeouts :: "line_socket \<Rightarrow> bool" where
  "no_timeouts s \<longleftrightarrow> Timeout \<notin> set (ls_rx s)"

lemma os_recv_cases:
  assumes "0 < n"
  shows "case os_recv n es of
      (Got d, es') \<Rightarrow> data_of es = d @ data_of es' \<and> (Timeout \<notin> set es \<longrightarrow> Timeout \<notin> set es')
    | (Would_block, es') \<Rightarrow> data_of es = data_of es' \<and> Timeout \<in> set es
    | (Closed, es') \<Rightarrow> es' = [] \<and> data_of es = [] \<and> Timeout \<notin> set es"
  using assms by (induction n es rule: os_recv.induct) (auto split: prod.splits recvd.splits)

text \<open>What the next line is, read off the pending bytes.\<close>

definition next_line :: "string \<Rightarrow> string option \<times> string" where
  "next_line p =
     (if CHR 0x0A \<in> set p
      then (Some (takeWhile (\<lambda>c. c \<noteq> CHR 0x0A) p), tl (dropWhile (\<lambda>c. c \<noteq> CHR 0x0A) p))
      else (if p = [] then None else Some p, []))"

lemma split_first:
  "c \<notin> set u \<Longrightarrow> takeWhile (\<lambda>x. x \<noteq> c) (u @ c # r) = u"
  "c \<notin> set u \<Longrightarrow> dropWhile (\<lambda>x. x \<noteq> c) (u @ c # r) = c # r"
  by (induction u) auto

lemma str_find_first:
  "str_find c s 0 = (if c \<in> set s then Some (length (takeWhile (\<lambda>x. x \<noteq> c) s)) else None)"
proof (cases "c \<in> set s")
  case True
  then obtain u r where s: "s = u @ c # r" "c \<notin> set u" by (auto dest: split_list_first)
  with str_find_at [of c u "[]" r] show ?thesis by (simp add: split_first)
qed (simp add: str_find_None)

lemma next_line_prefix:
  assumes "CHR 0x0A \<in> set b"
  defines "nl \<equiv> length (takeWhile (\<lambda>c. c \<noteq> CHR 0x0A) b)"
  shows "next_line (b @ r) = (Some (take nl b), drop (nl + 1) b @ r)"
proof -
  obtain u v where b: "b = u @ CHR 0x0A # v" "CHR 0x0A \<notin> set u" using assms(1) by (auto dest: split_list_first)
  then show ?thesis by (simp add: next_line_def nl_def split_first)
qed

lemma recv_line_loop_next:
  assumes "no_timeouts s"
  shows "fst (recv_line_loop s) = fst (next_line (pending s)) \<and>
         pending (snd (recv_line_loop s)) = snd (next_line (pending s)) \<and>
         no_timeouts (snd (recv_line_loop s))"
  using assms
proof (induction s rule: recv_line_loop.induct)
  case (1 s)
  show ?case
  proof (cases "CHR 0x0A \<in> set (ls_buf s)")
    case True
    then show ?thesis
      using next_line_prefix [OF True, of "data_of (ls_rx s)"] "1.prems"
      by (subst (1 2 3) recv_line_loop.simps) (simp add: str_find_first pending_def no_timeouts_def)
  next
    case False
    note no = str_find_first [of "CHR 0x0A" "ls_buf s"] False
    obtain r es where r: "os_recv 4096 (ls_rx s) = (r, es)" by (cases "os_recv 4096 (ls_rx s)")
    note cs = os_recv_cases [of 4096 "ls_rx s", unfolded r]
    show ?thesis
    proof (cases r)
      case (Got d)
      let ?s = "s\<lparr>ls_buf := ls_buf s @ d, ls_rx := es\<rparr>"
      have eq: "recv_line_loop s = recv_line_loop ?s"
        using no r Got by (subst recv_line_loop.simps) simp
      have "pending ?s = pending s" "no_timeouts ?s"
        using cs Got "1.prems" by (auto simp: pending_def no_timeouts_def)
      with "1.IH" [of r es d] no r Got show ?thesis unfolding eq by simp
    next
      case Would_block
      with cs "1.prems" show ?thesis by (simp add: no_timeouts_def)
    next
      case Closed
      then show ?thesis
        using cs no r by (subst (1 2 3) recv_line_loop.simps)
          (auto simp: pending_def next_line_def no_timeouts_def)
    qed
  qed
qed

lemma recv_exact_loop_pending:
  assumes "no_timeouts s" and "ls_buf s = [] \<or> n \<le> length got" and "n \<le> length got + length (pending s)"
    and "length got \<le> n"
  shows "fst (recv_exact_loop n got s) = Some (got @ take (n - length got) (pending s)) \<and>
         pending (snd (recv_exact_loop n got s)) = drop (n - length got) (pending s) \<and>
         no_timeouts (snd (recv_exact_loop n got s))"
  using assms
proof (induction n got s rule: recv_exact_loop.induct)
  case (1 n got s)
  show ?case
  proof (cases "length got < n")
    case True
    obtain r es where r: "os_recv (n - length got) (ls_rx s) = (r, es)" by (cases "os_recv (n - length got) (ls_rx s)")
    note cs = os_recv_cases [of "n - length got" "ls_rx s", unfolded r]
    show ?thesis
    proof (cases r)
      case (Got d)
      let ?s = "s\<lparr>ls_rx := es\<rparr>"
      have eq: "recv_exact_loop n got s = recv_exact_loop n (got @ d) ?s"
        using True r Got by (subst recv_exact_loop.simps) simp
      have d: "length d \<le> n - length got" "d \<noteq> []" using os_recv_Got r Got True by fastforce+
      have p: "pending s = d @ pending ?s" "no_timeouts ?s"
        using cs Got "1.prems" True by (auto simp: pending_def no_timeouts_def)
      have "fst (recv_exact_loop n (got @ d) ?s) = Some ((got @ d) @ take (n - length (got @ d)) (pending ?s)) \<and>
          pending (snd (recv_exact_loop n (got @ d) ?s)) = drop (n - length (got @ d)) (pending ?s) \<and>
          no_timeouts (snd (recv_exact_loop n (got @ d) ?s))"
        using "1.prems" True d p by (intro "1.IH" [OF True r [symmetric] Got]) auto
      with d show ?thesis unfolding eq p(1) by simp
    next
      case Would_block
      with cs "1.prems" True show ?thesis by (simp add: no_timeouts_def)
    next
      case Closed
      with cs "1.prems" True show ?thesis by (auto simp: pending_def)
    qed
  next
    case False
    with "1.prems" show ?thesis by (subst (1 2 3) recv_exact_loop.simps) auto
  qed
qed

lemma recv_exact_pending:
  assumes "no_timeouts s" and "n \<le> length (pending s)"
  shows "fst (recv_exact n s) = Some (take n (pending s)) \<and>
         pending (snd (recv_exact n s)) = drop n (pending s) \<and> no_timeouts (snd (recv_exact n s))"
proof (cases "ls_buf s = []")
  case True
  with recv_exact_loop_pending [of s n "[]"] assms show ?thesis by (simp add: recv_exact_def)
next
  case False
  let ?k = "if n < length (ls_buf s) then n else length (ls_buf s)"
  let ?s = "s\<lparr>ls_buf := drop ?k (ls_buf s)\<rparr>"
  have "recv_exact n s = recv_exact_loop n (take ?k (ls_buf s)) ?s"
    using False by (simp add: recv_exact_def Let_def)
  with recv_exact_loop_pending [of ?s n "take ?k (ls_buf s)"] assms show ?thesis
    by (auto simp: pending_def no_timeouts_def split: if_splits)
qed

lemma send_loop_prefix:
  "case send_loop d tx sent of (ok, tx', sent') \<Rightarrow>
     \<exists>k. sent' = sent @ take k d \<and> (ok \<longrightarrow> sent' = sent @ d)"
proof (induction d tx sent rule: send_loop.induct)
  case (3 c cs k ks sent)
  then show ?case
    by (cases "k = 0")
      (auto split: prod.splits simp del: take_Cons' take_Cons_numeral drop_Cons' intro: exI [of _ 0]
        exI [of _ "k + _"] simp: take_add [symmetric])
qed auto

text \<open>A timeout consumes nothing: the partial line stays where the next call finds it.\<close>

lemma recv_line_loop_timeout:
  "\<not> ls_timed_out s \<Longrightarrow> ls_timed_out (snd (recv_line_loop s)) \<Longrightarrow>
   fst (recv_line_loop s) = None \<and> pending (snd (recv_line_loop s)) = pending s"
proof (induction s rule: recv_line_loop.induct)
  case (1 s)
  obtain r es where r: "os_recv 4096 (ls_rx s) = (r, es)" by (cases "os_recv 4096 (ls_rx s)")
  note cs = os_recv_cases [of 4096 "ls_rx s", unfolded r]
  show ?case
  proof (cases "str_find CHR 0x0A (ls_buf s) 0")
    case (Some nl)
    with "1.prems" show ?thesis by (subst (asm) recv_line_loop.simps) simp
  next
    case None
    show ?thesis
    proof (cases r)
      case (Got d)
      let ?s = "s\<lparr>ls_buf := ls_buf s @ d, ls_rx := es\<rparr>"
      have eq: "recv_line_loop s = recv_line_loop ?s"
        using None r Got by (subst recv_line_loop.simps) simp
      have "pending ?s = pending s" using cs Got by (auto simp: pending_def)
      with "1.IH" [of r es d] None r Got "1.prems" show ?thesis unfolding eq by simp
    next
      case Would_block
      with cs None r show ?thesis by (subst (1 2) recv_line_loop.simps) (simp add: pending_def)
    next
      case Closed
      with None r "1.prems" show ?thesis by (subst (asm) recv_line_loop.simps) (simp split: if_splits)
    qed
  qed
qed

lemma next_line_line: "CHR 0x0A \<notin> set l \<Longrightarrow> next_line (l @ CHR 0x0A # rest) = (Some l, rest)"
  by (simp add: next_line_def split_first)

text \<open>Every line received is at least one byte less to receive.\<close>

lemma recv_line_loop_consumes:
  "recv_line_loop s = (Some l, s') \<Longrightarrow> length (pending s') < length (pending s)"
proof (induction s rule: recv_line_loop.induct)
  case (1 s)
  obtain r es where r: "os_recv 4096 (ls_rx s) = (r, es)" by (cases "os_recv 4096 (ls_rx s)")
  note cs = os_recv_cases [of 4096 "ls_rx s", unfolded r]
  show ?case
  proof (cases "str_find CHR 0x0A (ls_buf s) 0")
    case (Some nl)
    then have "nl < length (ls_buf s)" by (auto dest: str_find_Some)
    moreover have "s' = s\<lparr>ls_buf := drop (nl + 1) (ls_buf s)\<rparr>"
      using "1.prems" Some by (subst (asm) recv_line_loop.simps) simp
    ultimately show ?thesis by (simp add: pending_def)
  next
    case None
    show ?thesis
    proof (cases r)
      case (Got d)
      let ?s = "s\<lparr>ls_buf := ls_buf s @ d, ls_rx := es\<rparr>"
      have "recv_line_loop ?s = (Some l, s')"
        using "1.prems" None r Got by (subst (asm) recv_line_loop.simps) simp
      with "1.IH" [of r es d] None r Got cs show ?thesis by (simp add: pending_def)
    next
      case Would_block
      with "1.prems" None r show ?thesis by (subst (asm) recv_line_loop.simps) simp
    next
      case Closed
      with "1.prems" None r cs show ?thesis
        by (subst (asm) recv_line_loop.simps) (auto simp: pending_def split: if_splits)
    qed
  qed
qed

lemma recv_line_consumes: "recv_line s = (Some l, s') \<Longrightarrow> length (pending s') < length (pending s)"
  using recv_line_loop_consumes [of "s\<lparr>ls_timed_out := False\<rparr>" l s'] by (simp add: recv_line_def pending_def)

lemma send_all_result:
  "send_all d s = (ok, s') \<Longrightarrow> pending s' = pending s \<and> (no_timeouts s \<longrightarrow> no_timeouts s') \<and>
     (ok \<longrightarrow> ls_sent s' = ls_sent s @ d)"
  using send_loop_prefix [where d = d and tx = "ls_tx s" and sent = "ls_sent s"]
  by (auto simp: send_all_def pending_def no_timeouts_def split: prod.splits)

lemma send_line_all: "send_line = send_all"
  by (intro ext) (simp add: send_line_def send_all_def)

text \<open>A timeout uses up one entry, a line none.\<close>

definition timeouts :: "line_socket \<Rightarrow> nat" where
  "timeouts s = length (filter (\<lambda>e. e = Timeout) (ls_rx s))"

lemma os_recv_timeouts:
  "os_recv n es = (r, es') \<Longrightarrow> length (filter (\<lambda>e. e = Timeout) es) =
     length (filter (\<lambda>e. e = Timeout) es') + (if r = Would_block then 1 else 0)"
  by (induction n es arbitrary: es' rule: os_recv.induct) (auto split: if_splits)

lemma recv_line_loop_timeouts:
  "\<not> ls_timed_out s \<Longrightarrow> timeouts s = timeouts (snd (recv_line_loop s)) + (if ls_timed_out (snd (recv_line_loop s)) then 1 else 0)"
proof (induction s rule: recv_line_loop.induct)
  case (1 s)
  obtain r es where r: "os_recv 4096 (ls_rx s) = (r, es)" by (cases "os_recv 4096 (ls_rx s)")
  note ct = os_recv_timeouts [OF r]
  show ?case
  proof (cases "str_find CHR 0x0A (ls_buf s) 0")
    case (Some nl)
    with "1.prems" show ?thesis by (subst (1 2) recv_line_loop.simps) (simp add: timeouts_def)
  next
    case None
    show ?thesis
    proof (cases r)
      case (Got d)
      let ?s = "s\<lparr>ls_buf := ls_buf s @ d, ls_rx := es\<rparr>"
      have eq: "recv_line_loop s = recv_line_loop ?s"
        using None r Got by (subst recv_line_loop.simps) simp
      have "timeouts ?s = timeouts s" using ct Got by (simp add: timeouts_def)
      with "1.IH" [of r es d] None r Got "1.prems" show ?thesis unfolding eq by simp
    qed (use None r ct "1.prems" in \<open>subst (1 2) recv_line_loop.simps, simp add: timeouts_def\<close>)+
  qed
qed

lemma recv_line_timeouts:
  "recv_line s = (r, s') \<Longrightarrow> timeouts s = timeouts s' + (if ls_timed_out s' then 1 else 0)"
  using recv_line_loop_timeouts [of "s\<lparr>ls_timed_out := False\<rparr>"] by (simp add: recv_line_def timeouts_def)

lemma recv_line_idle:
  "recv_line s = (r, s') \<Longrightarrow> ls_timed_out s' \<Longrightarrow> r = None \<and> pending s' = pending s"
  using recv_line_loop_timeout [of "s\<lparr>ls_timed_out := False\<rparr>"] by (simp add: recv_line_def pending_def)

lemma recv_line_next:
  "no_timeouts s \<Longrightarrow> recv_line s = (r, s') \<Longrightarrow> (r, pending s') = next_line (pending s) \<and> no_timeouts s'"
  using recv_line_loop_next [of "s\<lparr>ls_timed_out := False\<rparr>"]
  by (auto simp: recv_line_def pending_def no_timeouts_def prod_eq_iff)

lemma recv_line_keeps_tx: "recv_line s = (r, s') \<Longrightarrow> ls_tx s' = ls_tx s \<and> ls_sent s' = ls_sent s"
proof -
  have "ls_tx (snd (recv_line_loop s)) = ls_tx s \<and> ls_sent (snd (recv_line_loop s)) = ls_sent s" for s
  proof (induction s rule: recv_line_loop.induct)
    case (1 s)
    obtain r es where r: "os_recv 4096 (ls_rx s) = (r, es)" by (cases "os_recv 4096 (ls_rx s)")
    with 1 show ?case by (subst (1 2) recv_line_loop.simps) (auto split: option.splits recvd.splits)
  qed
  from this [of "s\<lparr>ls_timed_out := False\<rparr>"] show "recv_line s = (r, s') \<Longrightarrow> ?thesis" by (simp add: recv_line_def)
qed

section \<open>Properties\<close>

text \<open>C25. Line framing: whatever chunks the bytes arrive in, \<^verbatim>\<open>recv_line\<close> returns the bytes up to the
  next newline and consumes exactly them and the newline; at the end of the stream it returns the
  last unterminated line, and after that nothing. A timeout returns nothing and loses nothing.\<close>

theorem recv_line_framing:
  assumes "recv_line s = (r, s')"
  shows "(no_timeouts s \<longrightarrow> (r, pending s') = next_line (pending s) \<and> no_timeouts s') \<and>
         (ls_timed_out s' \<longrightarrow> r = None \<and> pending s' = pending s)"
proof -
  let ?s = "s\<lparr>ls_timed_out := False\<rparr>"
  have eq: "recv_line_loop ?s = (r, s')" using assms by (simp add: recv_line_def)
  have s: "pending ?s = pending s" "no_timeouts ?s = no_timeouts s" by (simp_all add: pending_def no_timeouts_def)
  show ?thesis
    using recv_line_loop_next [of ?s] recv_line_loop_timeout [of ?s] by (auto simp: eq s prod_eq_iff)
qed

theorem recv_line_framing_witness:
  "fst (recv_line \<lparr>ls_timed_out = False, ls_buf = ''a'', ls_rx = [Data ''b'', Data [CHR 0x0A, CHR ''c'']],
                   ls_tx = [], ls_sent = []\<rparr>) = Some ''ab''"
  using recv_line_framing [OF prod.collapse [symmetric], of "\<lparr>ls_timed_out = False, ls_buf = ''a'',
      ls_rx = [Data ''b'', Data [CHR 0x0A, CHR ''c'']], ls_tx = [], ls_sent = []\<rparr>"]
  by (simp add: no_timeouts_def pending_def next_line_def)

end
