(* ===== verification/Web_Socket.thy ===== *)
theory Web_Socket
  imports Base64 Line_Socket Wire_Encoding
begin

text \<open>
  The WebSocket layer of \<^verbatim>\<open>include/feed/websocket.hpp\<close> over \<^verbatim>\<open>LineSocket\<close>: the accept key, the
  server's and the client's side of the HTTP upgrade, text frames and the frame reader with its
  three length encodings and unmasking.
\<close>

section \<open>Accept key\<close>

definition ws_guid :: string where
  "ws_guid = ''258EAFA5-E914-47DA-95CA-C5AB0DC85B11''"

definition accept_key :: "string \<Rightarrow> string" where
  "accept_key client_key = base64 (sha1 (map char_byte (client_key @ ws_guid)))"

section \<open>Header lines\<close>

definition tolower :: "char \<Rightarrow> char" where
  "tolower c = (let n = of_char c :: nat in if 65 \<le> n \<and> n \<le> 90 then char_of (n + 32) else c)"

definition strip_cr :: "string \<Rightarrow> string" where
  "strip_cr line = (if line \<noteq> [] \<and> last line = CHR 0x0D then butlast line else line)"

definition is_ws :: "char \<Rightarrow> bool" where
  "is_ws c \<longleftrightarrow> c = CHR '' '' \<or> c = CHR 0x09"

definition find_first_not_ws :: "string \<Rightarrow> nat option" where
  "find_first_not_ws v = (if list_all is_ws v then None else Some (length (takeWhile is_ws v)))"

definition find_last_not_ws :: "string \<Rightarrow> nat option" where
  "find_last_not_ws v =
     (if list_all is_ws v then None else Some (length v - 1 - length (takeWhile is_ws (rev v))))"

text \<open>
  A header line that starts with \<open>h\<close> (in any case) sets the value to the trimmed text behind its
  first colon, unless that is blank.
\<close>

definition header_value :: "string \<Rightarrow> string \<Rightarrow> string \<Rightarrow> string" where
  "header_value h line old =
     (if length h \<le> length line \<and> map tolower (take (length h) line) = h
      then let v = drop (case str_find CHR '':'' line 0 of Some p \<Rightarrow> p + 1 | None \<Rightarrow> 0) line
           in case (find_first_not_ws v, find_last_not_ws v) of
                (Some a, Some b) \<Rightarrow> take (b - a + 1) (drop a v)
              | _ \<Rightarrow> old
      else old)"

section \<open>The upgrade\<close>

function headers_loop :: "string \<Rightarrow> line_socket \<Rightarrow> string option \<times> line_socket" where
  "headers_loop key s =
     (case recv_line s of
        (None, s') \<Rightarrow> (None, s')
      | (Some line, s') \<Rightarrow>
          (let line = strip_cr line
           in if line = [] then (Some key, s')
              else headers_loop (header_value ''sec-websocket-key:'' line key) s'))"
  by pat_completeness auto
termination
  by (relation "measure (\<lambda>(key, s). length (pending s))") (auto dest!: sym [of "(Some _, _)"] recv_line_consumes)

declare headers_loop.simps [simp del]

definition crlf :: string where "crlf = [CHR 0x0D, CHR 0x0A]"

definition ws_response :: "string \<Rightarrow> string" where
  "ws_response key =
     ''HTTP/1.1 101 Switching Protocols'' @ crlf @ ''Upgrade: websocket'' @ crlf @
     ''Connection: Upgrade'' @ crlf @ ''Sec-WebSocket-Accept: '' @ accept_key key @ crlf @ crlf"

definition ws_handshake :: "line_socket \<Rightarrow> bool \<times> line_socket" where
  "ws_handshake s =
     (case headers_loop [] s of
        (None, s') \<Rightarrow> (False, s')
      | (Some key, s') \<Rightarrow> if key = [] then (False, s') else send_all (ws_response key) s')"

definition contains :: "string \<Rightarrow> string \<Rightarrow> bool" where
  "contains pat s = list_ex (\<lambda>i. take (length pat) (drop i s) = pat) [0..<Suc (length s)]"

function client_headers :: "bool \<Rightarrow> string \<Rightarrow> line_socket \<Rightarrow> (bool \<times> string) option \<times> line_socket" where
  "client_headers ok accept s =
     (case recv_line s of
        (None, s') \<Rightarrow> (None, s')
      | (Some line, s') \<Rightarrow>
          (let line = strip_cr line
           in if line = [] then (Some (ok, accept), s')
              else client_headers (if contains ''101'' line then True else ok)
                     (header_value ''sec-websocket-accept:'' line accept) s'))"
  by pat_completeness auto
termination
  by (relation "measure (\<lambda>(ok, accept, s). length (pending s))") (auto dest!: sym [of "(Some _, _)"] recv_line_consumes)

declare client_headers.simps [simp del]

definition ws_key :: string where "ws_key = ''dGhlIHNhbXBsZSBub25jZQ==''"

definition ws_request :: "string \<Rightarrow> string" where
  "ws_request path =
     ''GET '' @ path @ '' HTTP/1.1'' @ crlf @ ''Host: localhost'' @ crlf @ ''Upgrade: websocket'' @ crlf @
     ''Connection: Upgrade'' @ crlf @ ''Sec-WebSocket-Key: '' @ ws_key @ crlf @
     ''Sec-WebSocket-Version: 13'' @ crlf @ crlf"

text \<open>The client writes its request, then reads the response.\<close>

definition client_open :: "string \<Rightarrow> line_socket \<Rightarrow> bool \<times> line_socket" where
  "client_open path s =
     (let (sent, s) = send_all (ws_request path) s
      in if \<not> sent then (False, s)
         else case client_headers False [] s of
                (None, s') \<Rightarrow> (False, s')
              | (Some (ok, accept), s') \<Rightarrow> (ok \<and> accept = accept_key ws_key, s'))"

section \<open>Frames\<close>

definition frame_text :: "string \<Rightarrow> string" where
  "frame_text payload =
     (let n = length payload;
          f = [CHR 0x81];
          f = (if n < 126 then f @ [char_of n]
               else if n \<le> 0xFFFF then f @ [char_of (126 :: nat), char_of (n div 2 ^ 8 mod 256), char_of (n mod 256)]
               else f @ [char_of (127 :: nat)] @
                    map (\<lambda>i. byte_char (ucast (drop_bit (8 * i) (of_nat n :: u64) AND 0xFF))) (rev [0..<8]))
      in f @ payload)"

definition send_text :: "string \<Rightarrow> line_socket \<Rightarrow> bool \<times> line_socket" where
  "send_text payload s = send_all (frame_text payload) s"

text \<open>A frame read, a failure reported as \<open>false\<close>, or the exception of a payload longer than the
  string class can hold, \<open>mem\<close> characters.\<close>

datatype ws_read = WS_frame string u8 | WS_false | WS_length_error

definition unmask :: "u8 list \<Rightarrow> string \<Rightarrow> string" where
  "unmask mk p = map (\<lambda>i. byte_char (char_byte (p ! i) XOR mk ! (i mod 4))) [0..<length p]"

definition read_len :: "u8 \<Rightarrow> line_socket \<Rightarrow> u64 option \<times> line_socket" where
  "read_len h1 s =
     (let len = h1 AND 0x7F
      in if len = 126
         then case recv_exact 2 s of
                (None, s') \<Rightarrow> (None, s')
              | (Some e, s') \<Rightarrow> (Some (push_bit 8 (ucast (char_byte (e ! 0))) OR ucast (char_byte (e ! 1))), s')
         else if len = 127
         then case recv_exact 8 s of
                (None, s') \<Rightarrow> (None, s')
              | (Some e, s') \<Rightarrow> (Some (fold (\<lambda>c n. push_bit 8 n OR ucast (char_byte c)) e 0), s')
         else (Some (ucast len), s))"

definition read_mask :: "bool \<Rightarrow> line_socket \<Rightarrow> u8 list option \<times> line_socket" where
  "read_mask masked s =
     (if masked
      then case recv_exact 4 s of (None, s') \<Rightarrow> (None, s') | (Some m, s') \<Rightarrow> (Some (map char_byte m), s')
      else (Some [0, 0, 0, 0], s))"

definition read_payload :: "u64 \<Rightarrow> line_socket \<Rightarrow> string option \<times> line_socket" where
  "read_payload len s = (if len \<noteq> 0 then recv_exact (unat len) s else (Some [], s))"

definition read_frame :: "nat \<Rightarrow> line_socket \<Rightarrow> ws_read \<times> line_socket" where
  "read_frame mem s =
     (case recv_exact 2 s of
        (None, s) \<Rightarrow> (WS_false, s)
      | (Some h, s) \<Rightarrow>
          (let opcode = char_byte (h ! 0) AND 0x0F;
               masked = (char_byte (h ! 1) AND 0x80 \<noteq> 0)
           in case read_len (char_byte (h ! 1)) s of
                (None, s) \<Rightarrow> (WS_false, s)
              | (Some len, s) \<Rightarrow>
                  (case read_mask masked s of
                     (None, s) \<Rightarrow> (WS_false, s)
                   | (Some mk, s) \<Rightarrow>
                       if unat len > mem then (WS_length_error, s)
                       else (case read_payload len s of
                               (None, s) \<Rightarrow> (WS_false, s)
                             | (Some p, s) \<Rightarrow>
                                 (WS_frame (if masked then unmask mk p else p) opcode, s)))))"

section \<open>Frames as RFC 6455 lays them out\<close>

definition len_field :: "nat \<Rightarrow> u8 \<times> string" where
  "len_field n =
     (if n < 126 then (of_nat n, [])
      else if n \<le> 0xFFFF then (126, [byte_char (of_nat (n div 256)), byte_char (of_nat n)])
      else (127, map (\<lambda>i. byte_char (ucast (drop_bit (8 * i) (of_nat n :: u64)))) (rev [0..<8])))"

text \<open>Masking, a key byte per character in turn.\<close>

fun ws_mask :: "u8 list \<Rightarrow> string \<Rightarrow> string" where
  "ws_mask mk [] = []"
| "ws_mask mk (c # p) = byte_char (char_byte c XOR hd mk) # ws_mask (rotate1 mk) p"

definition ws_encode :: "u8 \<Rightarrow> u8 list option \<Rightarrow> string \<Rightarrow> string" where
  "ws_encode b0 mk p =
     [byte_char b0, byte_char ((if mk = None then 0 else 0x80) OR fst (len_field (length p)))] @
     snd (len_field (length p)) @
     (case mk of None \<Rightarrow> p | Some m \<Rightarrow> map byte_char m @ ws_mask m p)"

lemma char_byte_byte_char [simp]: "char_byte (byte_char b) = b"
  using byte_char_eq_iff [of b "byte_char b"] by (simp add: char_byte_def)

lemma char_of_byte_char: "char_of n = byte_char (of_nat n)"
proof -
  have "of_char (char_of n :: char) = n mod 256" by simp
  then have "(of_nat (of_char (char_of n)) :: u8) = of_nat n"
    by (simp add: word_of_nat_eq_iff take_bit_eq_mod)
  then show ?thesis using byte_char_eq_iff [of "of_nat n" "char_of n"] by simp
qed

text \<open>The text frame is the unmasked frame with first byte \<open>0x81\<close>.\<close>

lemma frame_text_encode: "frame_text p = ws_encode 0x81 None p"
proof -
  have "CHR 0x81 = byte_char 0x81" by (simp add: byte_char_def char_of_def bit_iff_odd)
  then show ?thesis
    by (simp add: frame_text_def ws_encode_def len_field_def char_of_byte_char ucast_low_byte Let_def
        word_of_nat_eq_iff take_bit_eq_mod)
qed

section \<open>Reading a frame\<close>

lemma recv_exact_prefix:
  assumes "no_timeouts s" and "pending s = h @ rest" and "length h = n"
  obtains s' where "recv_exact n s = (Some h, s')" "pending s' = rest" "no_timeouts s'"
  using recv_exact_pending [of s n] assms by (intro that [of "snd (recv_exact n s)"]) (auto simp: prod_eq_iff)

lemma read_be_bytes: "fold (\<lambda>c n. push_bit 8 n OR ucast (char_byte c)) e 0 = rd_be (map char_byte e) 0 (length e)"
proof (induction e rule: rev_induct)
  case (snoc c e)
  have "rd_be (map char_byte (e @ [c])) 0 k = rd_be (map char_byte e) 0 k" if "k \<le> length e" for k
    using that by (induction k) (auto simp: nth_append)
  with snoc show ?case by (simp add: nth_append)
qed simp

lemma read_eight:
  "fold (\<lambda>c n. push_bit 8 n OR ucast (char_byte c)) (map (\<lambda>i. byte_char (ucast (drop_bit (8 * i) w))) (rev [0..<8])) 0
     = (w :: u64)"
proof -
  let ?e = "map (\<lambda>i. byte_char (ucast (drop_bit (8 * i) w))) (rev [0..<8])"
  have "rd64 (map char_byte ?e) 0 = w"
    by (rule rd64_at) (auto simp: rev_nth mult.commute)
  then show ?thesis unfolding read_be_bytes by (simp add: rd64_def)
qed

lemma read_two:
  assumes "n \<le> 0xFFFF"
  shows "push_bit 8 (ucast (of_nat (n div 256) :: u8)) OR ucast (of_nat n :: u8) = (of_nat n :: u64)"
proof -
  let ?w = "of_nat n :: u64"
  have n: "unat ?w = n" using assms by (intro unat_of_nat_small) simp
  have "unat (drop_bit 8 ?w) = drop_bit 8 (unat ?w)" by (rule unat_drop_bit_eq)
  then have "unat (drop_bit 8 ?w) = n div 256" unfolding n by (simp add: drop_bit_eq_div)
  then have "(of_nat (n div 256) :: u8) = ucast (drop_bit 8 ?w)" by (metis of_nat_unat)
  moreover have "(of_nat n :: u8) = ucast ?w" using n by (metis of_nat_unat)
  moreover have "unat (take_bit 16 ?w) = unat ?w"
    unfolding unsigned_take_bit_eq n using assms by (intro take_bit_nat_eq_self) simp
  then have "take_bit 16 ?w = ?w" by (simp only: word_unat_eq_iff)
  moreover have "push_bit 8 (ucast (ucast (drop_bit 8 w) :: u8)) OR ucast (ucast w :: u8) = w" (is "?l = w")
    if "take_bit 16 w = w" for w :: u64
  proof (rule bit_word_eqI)
    fix i assume "i < LENGTH(64)"
    have "bit w i \<Longrightarrow> i < 16" using that by (metis bit_take_bit_iff)
    then show "bit ?l i = bit w i" by (auto simp: bit_simps)
  qed
  ultimately show ?thesis by simp
qed

lemma small_byte:
  assumes "l < 128"
  shows "(of_nat l :: u8) AND 0x7F = of_nat l" "(0x80 OR of_nat l :: u8) AND 0x7F = of_nat l"
    "(of_nat l :: u8) AND 0x80 = 0" "(0x80 OR of_nat l :: u8) AND 0x80 \<noteq> 0"
proof -
  let ?w = "of_nat l :: u8"
  have l: "unat ?w = l" using assms by (intro unat_of_nat_small) simp
  have "unat (take_bit 7 ?w) = unat ?w"
    unfolding unsigned_take_bit_eq l using assms by (intro take_bit_nat_eq_self) simp
  then have t: "take_bit 7 ?w = ?w" by (simp only: word_unat_eq_iff)
  have m7: "0x7F = (mask 7 :: u8)" and m8: "0x80 = (2 ^ 7 :: u8)" by (simp_all add: mask_eq_exp_minus_1)
  have b7: "\<not> bit ?w 7" using t by (metis bit_take_bit_iff less_irrefl)
  show "?w AND 0x7F = ?w" unfolding m7 using t by (simp add: take_bit_eq_mask)
  have "(2 ^ 7 OR ?w) AND mask 7 = ?w AND mask 7"
    by (rule bit_word_eqI) (auto simp only: bit_or_iff bit_and_iff bit_mask_iff bit_exp_iff)
  then show "(0x80 OR ?w) AND 0x7F = ?w" unfolding m7 m8 using t by (simp add: take_bit_eq_mask)
  show "?w AND 0x80 = 0" unfolding m8 using b7 by (simp only: and_exp_eq_0_iff_not_bit not_False_eq_True)
  have "bit (2 ^ 7 OR ?w) 7" by (simp add: bit_simps)
  then show "(0x80 OR ?w) AND 0x80 \<noteq> 0" unfolding m8 by (simp only: and_exp_eq_0_iff_not_bit not_True_eq_False simp_thms)
qed

definition len_code :: "nat \<Rightarrow> nat" where
  "len_code n = (if n < 126 then n else if n \<le> 0xFFFF then 126 else 127)"

lemma len_code_less: "len_code n < 128" and len_field_code: "fst (len_field n) = of_nat (len_code n)"
  by (simp_all add: len_code_def len_field_def)

lemma of_nat_u8_eq:
  assumes "a < 256" "b < 256"
  shows "(of_nat a :: u8) = of_nat b \<longleftrightarrow> a = b"
proof -
  have "unat (of_nat a :: u8) = a" "unat (of_nat b :: u8) = b"
    using assms by (intro unat_of_nat_small; simp)+
  then show ?thesis by metis
qed

lemma read_len_field:
  assumes "no_timeouts s" and "pending s = snd (len_field n) @ rest" and "n < 2 ^ 64"
    and "h1 AND 0x7F = of_nat (len_code n)"
  shows "\<exists>s'. read_len h1 s = (Some (of_nat n), s') \<and> pending s' = rest \<and> no_timeouts s'"
proof -
  have c: "(h1 AND 0x7F = 126) = (len_code n = 126)" "(h1 AND 0x7F = 127) = (len_code n = 127)"
    using of_nat_u8_eq [of "len_code n" 126] of_nat_u8_eq [of "len_code n" 127] len_code_less [of n]
    by (simp_all add: assms(4))
  consider "n < 126" | "126 \<le> n" "n \<le> 0xFFFF" | "0xFFFF < n" by linarith
  then show ?thesis
  proof cases
    case 1
    then have "unat (of_nat n :: u8) = n" by (intro unat_of_nat_small) simp
    then have "ucast (of_nat n :: u8) = (of_nat n :: u64)" by (metis of_nat_unat)
    with 1 assms c show ?thesis by (simp add: read_len_def Let_def len_code_def len_field_def)
  next
    case 2
    then have "length (snd (len_field n)) = 2" by (simp add: len_field_def)
    from recv_exact_prefix [OF assms(1,2) this]
    obtain s' where "recv_exact 2 s = (Some (snd (len_field n)), s')" "pending s' = rest" "no_timeouts s'" .
    with 2 c show ?thesis
      by (simp add: read_len_def Let_def len_code_def len_field_def read_two)
  next
    case 3
    then have "length (snd (len_field n)) = 8" by (simp add: len_field_def)
    from recv_exact_prefix [OF assms(1,2) this]
    obtain s' where "recv_exact 8 s = (Some (snd (len_field n)), s')" "pending s' = rest" "no_timeouts s'" .
    with 3 c show ?thesis
      by (simp add: read_len_def Let_def len_code_def len_field_def read_eight del: upt.simps)
  qed
qed

lemma length_unmask [simp]: "length (unmask mk p) = length p"
  by (simp add: unmask_def)

lemma length_ws_mask [simp]: "length (ws_mask mk p) = length p"
  by (induction mk p rule: ws_mask.induct) simp_all

lemma ws_mask_nth:
  "length mk = 4 \<Longrightarrow> i < length p \<Longrightarrow> ws_mask mk p ! i = byte_char (char_byte (p ! i) XOR mk ! (i mod 4))"
proof (induction mk p arbitrary: i rule: ws_mask.induct)
  case (2 mk c p)
  then have "hd mk = mk ! 0" by (intro hd_conv_nth) auto
  with 2 show ?case by (cases i) (auto simp: nth_rotate1 mod_Suc_eq)
qed simp

lemma unmask_ws_mask: "length mk = 4 \<Longrightarrow> unmask mk (ws_mask mk p) = p"
  by (rule nth_equalityI) (simp_all add: unmask_def ws_mask_nth xor.assoc)

lemma read_mask_field:
  assumes "no_timeouts s" and "pending s = map byte_char m @ rest" and "length m = 4"
  shows "\<exists>s'. read_mask True s = (Some m, s') \<and> pending s' = rest \<and> no_timeouts s'"
proof -
  have "length (map byte_char m) = 4" using assms(3) by simp
  from recv_exact_prefix [OF assms(1,2) this]
  obtain s' where "recv_exact 4 s = (Some (map byte_char m), s')" "pending s' = rest" "no_timeouts s'" .
  then show ?thesis by (simp add: read_mask_def o_def)
qed

lemma read_payload_field:
  assumes "no_timeouts s" and "pending s = p @ rest" and "length p < 2 ^ 64"
  shows "\<exists>s'. read_payload (of_nat (length p)) s = (Some p, s') \<and> pending s' = rest \<and> no_timeouts s'"
proof -
  have n: "unat (of_nat (length p) :: u64) = length p" using assms(3) by (intro unat_of_nat_small) simp
  from recv_exact_prefix [OF assms(1,2) refl]
  obtain s' where s': "recv_exact (length p) s = (Some p, s')" "pending s' = rest" "no_timeouts s'" .
  show ?thesis
  proof (cases "p = []")
    case False
    then have "(of_nat (length p) :: u64) \<noteq> 0" using n by (metis length_0_conv unat_0)
    with s' n show ?thesis by (simp add: read_payload_def del: unsigned_of_nat)
  qed (use assms in \<open>simp add: read_payload_def\<close>)
qed

lemma read_frame_encode:
  assumes s: "no_timeouts s" "pending s = ws_encode b0 mk p @ rest"
    and p: "length p < 2 ^ 64" "length p \<le> mem" and mk: "\<And>m. mk = Some m \<Longrightarrow> length m = 4"
  shows "\<exists>s'. read_frame mem s = (WS_frame p (b0 AND 0x0F), s') \<and> pending s' = rest \<and> no_timeouts s'"
proof -
  let ?h1 = "(if mk = None then 0 else 0x80) OR fst (len_field (length p))"
  let ?body = "case mk of None \<Rightarrow> p | Some m \<Rightarrow> map byte_char m @ ws_mask m p"
  have n: "unat (of_nat (length p) :: u64) = length p" using p(1) by (intro unat_of_nat_small) simp
  have "pending s = [byte_char b0, byte_char ?h1] @ snd (len_field (length p)) @ ?body @ rest"
    unfolding s(2) ws_encode_def append_assoc ..
  from recv_exact_prefix [OF s(1) this]
  obtain s1 where s1: "recv_exact 2 s = (Some [byte_char b0, byte_char ?h1], s1)"
      "pending s1 = snd (len_field (length p)) @ ?body @ rest" "no_timeouts s1"
    by (auto simp: numeral_2_eq_2)
  have h1: "?h1 AND 0x7F = of_nat (len_code (length p))" "(?h1 AND 0x80 \<noteq> 0) = (mk \<noteq> None)"
    using small_byte [OF len_code_less, of "length p"] by (simp_all add: len_field_code)
  obtain s2 where s2: "read_len ?h1 s1 = (Some (of_nat (length p)), s2)" "pending s2 = ?body @ rest" "no_timeouts s2"
    using read_len_field [OF s1(3,2) p(1) h1(1)] by blast
  show ?thesis
  proof (cases mk)
    case None
    from read_payload_field [OF s2(3), of p rest] s2(2) None p(1)
    obtain s3 where s3: "read_payload (of_nat (length p)) s2 = (Some p, s3)" "pending s3 = rest" "no_timeouts s3" by auto
    have "read_mask False s2 = (Some [0, 0, 0, 0], s2)" by (simp add: read_mask_def)
    with s1(1) s2(1) s3 h1(2) None p(2) n show ?thesis
      by (simp add: read_frame_def Let_def del: unsigned_of_nat)
  next
    case (Some m)
    from read_mask_field [OF s2(3), of m "ws_mask m p @ rest"] s2(2) Some mk
    obtain s3 where s3: "read_mask True s2 = (Some m, s3)" "pending s3 = ws_mask m p @ rest" "no_timeouts s3" by auto
    from read_payload_field [OF s3(3,2)] p(1)
    obtain s4 where s4: "read_payload (of_nat (length p)) s3 = (Some (ws_mask m p), s4)" "pending s4 = rest" "no_timeouts s4"
      by auto
    from s1(1) s2(1) s3(1) s4 h1(2) Some p(2) n show ?thesis
      using unmask_ws_mask [of m p] mk by (simp add: read_frame_def Let_def del: unsigned_of_nat)
  qed
qed

section \<open>Reading header lines\<close>

definition crlf_text :: "string list \<Rightarrow> string" where
  "crlf_text ls = concat (map (\<lambda>l. l @ crlf) ls)"

definition header_line :: "string \<Rightarrow> bool" where
  "header_line l \<longleftrightarrow> l \<noteq> [] \<and> CHR 0x0A \<notin> set l"

text \<open>Receiving touches neither the bytes sent nor what the kernel will take.\<close>

lemma recv_line_loop_tx: "ls_tx (snd (recv_line_loop s)) = ls_tx s \<and> ls_sent (snd (recv_line_loop s)) = ls_sent s"
proof (induction s rule: recv_line_loop.induct)
  case (1 s)
  then show ?case
    by (subst (1 2) recv_line_loop.simps) (auto split: option.splits prod.splits recvd.splits)
qed

lemma recv_line_tx: "recv_line s = (r, s') \<Longrightarrow> ls_tx s' = ls_tx s \<and> ls_sent s' = ls_sent s"
  using recv_line_loop_tx [of "s\<lparr>ls_timed_out := False\<rparr>"] by (simp add: recv_line_def)

lemma recv_header_line:
  assumes "no_timeouts s" and "pending s = l @ crlf @ rest" and "CHR 0x0A \<notin> set l"
  obtains s' where "recv_line s = (Some (l @ [CHR 0x0D]), s')" "pending s' = rest" "no_timeouts s'"
    "ls_tx s' = ls_tx s" "ls_sent s' = ls_sent s"
proof -
  obtain r s' where r: "recv_line s = (r, s')" by (cases "recv_line s")
  have "next_line (pending s) = (Some (l @ [CHR 0x0D]), rest)"
    using next_line_line [of "l @ [CHR 0x0D]" rest] assms(2,3) by (simp add: crlf_def)
  moreover have "(r, pending s') = next_line (pending s)" "no_timeouts s'"
  proof -
    let ?s = "s\<lparr>ls_timed_out := False\<rparr>"
    have "pending ?s = pending s" "no_timeouts ?s" using assms(1) by (simp_all add: pending_def no_timeouts_def)
    with recv_line_loop_next [of ?s] r show "(r, pending s') = next_line (pending s)" "no_timeouts s'"
      by (simp_all add: recv_line_def prod_eq_iff)
  qed
  ultimately show ?thesis using recv_line_tx [OF r] r by (intro that [of s']) auto
qed

lemma strip_cr_line [simp]: "strip_cr (l @ [CHR 0x0D]) = l"
  by (simp add: strip_cr_def)

lemma headers_loop_lines:
  assumes "no_timeouts s" and "pending s = crlf_text ls @ crlf @ rest" and "\<forall>l \<in> set ls. header_line l"
  shows "\<exists>s'. headers_loop key s = (Some (fold (header_value ''sec-websocket-key:'') ls key), s') \<and>
     pending s' = rest \<and> no_timeouts s' \<and> ls_tx s' = ls_tx s \<and> ls_sent s' = ls_sent s"
  using assms
proof (induction ls arbitrary: key s)
  case Nil
  then have "pending s = [] @ crlf @ rest" by (simp add: crlf_text_def)
  from recv_header_line [OF Nil.prems(1) this]
  obtain s' where "recv_line s = (Some ([] @ [CHR 0x0D]), s')" "pending s' = rest" "no_timeouts s'"
    "ls_tx s' = ls_tx s" "ls_sent s' = ls_sent s" by auto
  then show ?case by (subst headers_loop.simps) (simp add: strip_cr_def)
next
  case (Cons l ls)
  then have "pending s = l @ crlf @ crlf_text ls @ crlf @ rest" by (simp add: crlf_text_def)
  from recv_header_line [OF Cons.prems(1) this] Cons.prems(3)
  obtain s' where s': "recv_line s = (Some (l @ [CHR 0x0D]), s')" "pending s' = crlf_text ls @ crlf @ rest"
    "no_timeouts s'" "ls_tx s' = ls_tx s" "ls_sent s' = ls_sent s" by (auto simp: header_line_def)
  with Cons.IH [OF s'(3,2)] Cons.prems(3) show ?case
    by (subst headers_loop.simps) (auto simp: header_line_def)
qed

definition client_scan :: "string \<Rightarrow> bool \<times> string \<Rightarrow> bool \<times> string" where
  "client_scan l = (\<lambda>(ok, accept).
     ((if contains ''101'' l then True else ok), header_value ''sec-websocket-accept:'' l accept))"

lemma client_scan_apply:
  "client_scan l (ok, accept) =
     ((if contains ''101'' l then True else ok), header_value ''sec-websocket-accept:'' l accept)"
  by (simp add: client_scan_def)

lemma client_headers_lines:
  assumes "no_timeouts s" and "pending s = crlf_text ls @ crlf @ rest" and "\<forall>l \<in> set ls. header_line l"
  shows "\<exists>s'. client_headers ok accept s = (Some (fold client_scan ls (ok, accept)), s') \<and>
     pending s' = rest \<and> no_timeouts s'"
  using assms
proof (induction ls arbitrary: ok accept s)
  case Nil
  then have "pending s = [] @ crlf @ rest" by (simp add: crlf_text_def)
  from recv_header_line [OF Nil.prems(1) this]
  obtain s' where "recv_line s = (Some ([] @ [CHR 0x0D]), s')" "pending s' = rest" "no_timeouts s'" by auto
  then show ?case by (subst client_headers.simps) (simp add: strip_cr_def)
next
  case (Cons l ls)
  then have "pending s = l @ crlf @ crlf_text ls @ crlf @ rest" by (simp add: crlf_text_def)
  from recv_header_line [OF Cons.prems(1) this] Cons.prems(3)
  obtain s' where s': "recv_line s = (Some (l @ [CHR 0x0D]), s')" "pending s' = crlf_text ls @ crlf @ rest"
    "no_timeouts s'" by (auto simp: header_line_def)
  with Cons.IH [OF s'(3,2)] Cons.prems(3) show ?case
    by (subst client_headers.simps) (auto simp: header_line_def client_scan_apply Let_def)
qed

section \<open>Header values\<close>

lemma header_value_match:
  assumes "map tolower (H @ '':'') = h" and "CHR '':'' \<notin> set H" and "v \<noteq> []" and "\<forall>c \<in> set v. \<not> is_ws c"
  shows "header_value h (H @ '': '' @ v) old = v"
proof -
  have h: "length h = length H + 1" using arg_cong [OF assms(1), of length] by simp
  have f: "str_find CHR '':'' (H @ CHR '':'' # CHR '' '' # v) 0 = Some (length H)"
    using str_find_at [OF assms(2), of "[]" "'' '' @ v"] by simp
  obtain x u where v: "v = x # u" using assms(3) by (cases v) auto
  obtain y w where v': "v = w @ [y]" using assms(3) by (cases v rule: rev_cases) auto
  have nws: "\<not> list_all is_ws ('' '' @ v)" "takeWhile is_ws v = []" using assms(4) by (simp_all add: v)
  have nws': "takeWhile is_ws (rev v @ '' '') = []" using assms(4) by (simp add: v')
  have "find_first_not_ws (CHR '' '' # v) = Some 1"
    using nws(1,2) by (simp add: find_first_not_ws_def is_ws_def)
  moreover have "find_last_not_ws (CHR '' '' # v) = Some (length v)"
    using nws(1) nws' by (simp add: find_last_not_ws_def)
  ultimately show ?thesis
    using assms(1,3) by (simp add: header_value_def h f Let_def)
qed

lemma header_value_other:
  "map tolower (take (length h) line) \<noteq> h \<Longrightarrow> header_value h line old = old"
  by (simp add: header_value_def)

lemma b64_char_in: "b64_char n \<in> set b64_alphabet"
  unfolding b64_char_def by (rule nth_mem) (simp add: length_alphabet b64_index_less)

lemma base64_chars: "set (base64 bs) \<subseteq> insert CHR ''='' (set b64_alphabet)"
  unfolding base64_enc64 by (induction bs rule: enc64.induct) (auto simp: Let_def b64_char_in)

lemma accept_key_chars:
  "accept_key k \<noteq> []" "\<forall>c \<in> set (accept_key k). \<not> is_ws c" "CHR 0x0A \<notin> set (accept_key k)"
proof -
  let ?d = "sha1 (map char_byte (k @ ws_guid))"
  have "length (base64 ?d) = 28"
    by (simp add: base64_enc64 length_enc64 sha1_length)
  then show "accept_key k \<noteq> []" unfolding accept_key_def by (metis list.size(3) zero_neq_numeral)
  have "\<forall>c \<in> insert CHR ''='' (set b64_alphabet). \<not> is_ws c \<and> c \<noteq> CHR 0x0A"
    by (simp add: b64_alphabet_def is_ws_def)
  then show "\<forall>c \<in> set (accept_key k). \<not> is_ws c" "CHR 0x0A \<notin> set (accept_key k)"
    using base64_chars [of ?d] unfolding accept_key_def by blast+
qed

section \<open>The two sides agree\<close>

lemma ws_request_lines:
  "ws_request path = crlf_text [''GET '' @ path @ '' HTTP/1.1'', ''Host: localhost'', ''Upgrade: websocket'',
     ''Connection: Upgrade'', ''Sec-WebSocket-Key: '' @ ws_key, ''Sec-WebSocket-Version: 13''] @ crlf"
  by (simp add: ws_request_def crlf_text_def)

lemma ws_response_lines:
  "ws_response key = crlf_text [''HTTP/1.1 101 Switching Protocols'', ''Upgrade: websocket'',
     ''Connection: Upgrade'', ''Sec-WebSocket-Accept: '' @ accept_key key] @ crlf"
  by (simp add: ws_response_def crlf_text_def)

lemma request_key:
  "fold (header_value ''sec-websocket-key:'') [''GET '' @ path @ '' HTTP/1.1'', ''Host: localhost'',
     ''Upgrade: websocket'', ''Connection: Upgrade'', ''Sec-WebSocket-Key: '' @ ws_key,
     ''Sec-WebSocket-Version: 13''] [] = ws_key"
proof -
  have "header_value ''sec-websocket-key:'' (''Sec-WebSocket-Key'' @ '': '' @ ws_key) old = ws_key" for old
    by (rule header_value_match) (simp_all add: tolower_def Let_def ws_key_def is_ws_def char_of_def bit_iff_odd)
  moreover have "header_value ''sec-websocket-key:'' l old = old"
    if "l \<in> {''Host: localhost'', ''Upgrade: websocket'', ''Connection: Upgrade'', ''Sec-WebSocket-Version: 13''}" for l old
    using that by (intro header_value_other) (auto simp: tolower_def Let_def char_of_def bit_iff_odd)
  moreover have "header_value ''sec-websocket-key:'' (''GET '' @ path @ '' HTTP/1.1'') old = old" for old
    by (rule header_value_other) (simp add: tolower_def Let_def char_of_def bit_iff_odd)
  ultimately show ?thesis by simp
qed

lemma response_accept:
  "fold client_scan [''HTTP/1.1 101 Switching Protocols'', ''Upgrade: websocket'',
     ''Connection: Upgrade'', ''Sec-WebSocket-Accept: '' @ accept_key key] (False, []) = (True, accept_key key)"
proof -
  have "header_value ''sec-websocket-accept:'' (''Sec-WebSocket-Accept'' @ '': '' @ accept_key key) old = accept_key key" for old
    by (rule header_value_match) (simp_all add: tolower_def Let_def accept_key_chars char_of_def bit_iff_odd)
  moreover have "contains ''101'' ''HTTP/1.1 101 Switching Protocols''"
    by (simp add: contains_def list_ex_iff)
  ultimately show ?thesis by (simp add: client_scan_apply)
qed

lemma ws_handshake_request:
  assumes "no_timeouts s" and "pending s = ws_request path @ rest" and "CHR 0x0A \<notin> set path"
  shows "\<exists>s'. ws_handshake s = send_all (ws_response ws_key) s' \<and> pending s' = rest \<and>
    ls_tx s' = ls_tx s \<and> ls_sent s' = ls_sent s"
proof -
  let ?ls = "[''GET '' @ path @ '' HTTP/1.1'', ''Host: localhost'', ''Upgrade: websocket'',
     ''Connection: Upgrade'', ''Sec-WebSocket-Key: '' @ ws_key, ''Sec-WebSocket-Version: 13'']"
  have "\<forall>l \<in> set ?ls. header_line l" using assms(3) by (simp add: header_line_def ws_key_def)
  moreover have "pending s = crlf_text ?ls @ crlf @ rest" using assms(2) by (simp add: ws_request_lines)
  ultimately obtain s' where "headers_loop [] s = (Some ws_key, s')" "pending s' = rest" "ls_tx s' = ls_tx s"
      "ls_sent s' = ls_sent s"
    using headers_loop_lines [OF assms(1), of ?ls rest "[]"] unfolding request_key by blast
  moreover have "ws_key \<noteq> []" by (simp add: ws_key_def)
  ultimately show ?thesis by (auto simp: ws_handshake_def)
qed

lemma client_reads_response:
  assumes "no_timeouts s" and "pending s = ws_response ws_key @ rest"
  shows "\<exists>s'. client_headers False [] s = (Some (True, accept_key ws_key), s') \<and> pending s' = rest"
proof -
  let ?ls = "[''HTTP/1.1 101 Switching Protocols'', ''Upgrade: websocket'', ''Connection: Upgrade'',
     ''Sec-WebSocket-Accept: '' @ accept_key ws_key]"
  have "\<forall>l \<in> set ?ls. header_line l" using accept_key_chars(3) [of ws_key] by (simp add: header_line_def)
  moreover have "pending s = crlf_text ?ls @ crlf @ rest" using assms(2) by (simp add: ws_response_lines)
  ultimately show ?thesis
    using client_headers_lines [OF assms(1), of ?ls rest False "[]"] unfolding response_accept by blast
qed

section \<open>Properties\<close>

text \<open>C27. WebSocket frames round trip: \<^verbatim>\<open>read_frame\<close> gives back the payload and opcode of every frame
  laid out as RFC 6455 prescribes, masked or not, in each of the three length encodings, however
  the bytes arrive, and leaves exactly what follows the frame; and \<^verbatim>\<open>frame_text\<close> writes such a
  frame, with opcode 1.\<close>

theorem ws_frame_roundtrip:
  assumes "no_timeouts s" and "pending s = ws_encode b0 mk p @ rest" and "length p < 2 ^ 64" and "length p \<le> mem"
    and "\<forall>m. mk = Some m \<longrightarrow> length m = 4"
  shows "(\<exists>s'. read_frame mem s = (WS_frame p (b0 AND 0x0F), s') \<and> pending s' = rest) \<and>
         frame_text p = ws_encode 0x81 None p"
  using read_frame_encode [OF assms(1-4)] assms(5) frame_text_encode by blast

theorem ws_frame_roundtrip_witness:
  "\<exists>s'. read_frame 100 \<lparr>ls_timed_out = False, ls_buf = [], ls_rx = [Data (ws_encode 0x81 (Some [1, 2, 3, 4]) ''hi'')],
          ls_tx = [], ls_sent = []\<rparr> = (WS_frame ''hi'' (0x81 AND 0x0F), s')"
  using ws_frame_roundtrip [of "\<lparr>ls_timed_out = False, ls_buf = [],
      ls_rx = [Data (ws_encode 0x81 (Some [1, 2, 3, 4]) ''hi'')], ls_tx = [], ls_sent = []\<rparr>"
      "0x81" "Some [1, 2, 3, 4]" "''hi''" "[]" 100]
  by (auto simp: no_timeouts_def pending_def)

text \<open>C28. The two sides of the upgrade agree: when the server has answered the client's request, it has
  consumed exactly the request, and a client that has sent the request and receives what the server
  sent accepts the connection and consumes exactly the response.\<close>

theorem ws_handshake_agrees:
  assumes "CHR 0x0A \<notin> set path"
    and "no_timeouts srv" and "pending srv = ws_request path @ r1" and "ls_sent srv = []"
    and "ws_handshake srv = (True, srv')"
    and "no_timeouts cl" and "pending cl = ls_sent srv' @ r2" and "fst (send_all (ws_request path) cl)"
  shows "pending srv' = r1 \<and> (\<exists>cl'. client_open path cl = (True, cl') \<and> pending cl' = r2)"
proof -
  obtain s where s: "send_all (ws_response ws_key) s = (True, srv')" "pending s = r1" "ls_sent s = []"
    using ws_handshake_request [OF assms(2,3,1)] assms(4,5) by auto
  have srv: "pending srv' = r1" "ls_sent srv' = ws_response ws_key" using send_all_result [OF s(1)] s(2,3) by auto
  obtain c where c: "send_all (ws_request path) cl = (True, c)" using assms(8) by (metis prod.collapse)
  have "no_timeouts c" "pending c = ws_response ws_key @ r2"
    using send_all_result [OF c] assms(6,7) srv by auto
  from client_reads_response [OF this] c srv(1) show ?thesis by (auto simp: client_open_def)
qed

lemma send_all_at_once:
  assumes "ls_tx s = [k]" and "length d \<le> k" and "d \<noteq> []"
  shows "fst (send_all d s) \<and> ls_sent (snd (send_all d s)) = ls_sent s @ d"
proof -
  obtain c cs where d: "d = c # cs" using assms(3) by (cases d) auto
  then have "k \<noteq> 0" using assms(2) by auto
  with assms d have "send_loop d [k] (ls_sent s) = send_loop [] [] (ls_sent s @ d)"
    by (simp only: d send_loop.simps if_False drop_all take_all assms(2) [unfolded d])
  then show ?thesis by (simp add: send_all_def assms(1))
qed

text \<open>A server whose socket takes the response in one piece accepts the request.\<close>

definition ready_server :: line_socket where
  "ready_server = \<lparr>ls_timed_out = False, ls_buf = [], ls_rx = [Data (ws_request ''/'')],
     ls_tx = [length (ws_response ws_key)], ls_sent = []\<rparr>"

lemma ready_server_upgrades:
  "no_timeouts ready_server \<and> pending ready_server = ws_request ''/'' @ [] \<and> ls_sent ready_server = [] \<and>
   (\<exists>c. ws_handshake ready_server = (True, c) \<and> ls_sent c = ws_response ws_key)"
proof -
  have ne: "ws_response ws_key \<noteq> []" by (simp add: ws_response_def)
  have srv: "no_timeouts ready_server" "pending ready_server = ws_request ''/'' @ []" "ls_sent ready_server = []"
    by (simp_all add: no_timeouts_def pending_def ready_server_def)
  obtain s where s: "ws_handshake ready_server = send_all (ws_response ws_key) s" "ls_tx s = [length (ws_response ws_key)]"
      "ls_sent s = []"
    using ws_handshake_request [OF srv(1,2)] by (auto simp: ready_server_def)
  with send_all_at_once [OF s(2) order_refl ne] srv show ?thesis by (metis append_Nil prod.collapse)
qed

theorem ws_handshake_agrees_witness:
  "\<exists>cl'. client_open ''/'' \<lparr>ls_timed_out = False, ls_buf = [], ls_rx = [Data (ws_response ws_key)],
           ls_tx = [length (ws_request ''/'')], ls_sent = []\<rparr> = (True, cl')"
proof -
  let ?cl = "\<lparr>ls_timed_out = False, ls_buf = [], ls_rx = [Data (ws_response ws_key)],
           ls_tx = [length (ws_request ''/'')], ls_sent = []\<rparr>"
  have path: "CHR 0x0A \<notin> set ''/''" by simp
  have ne: "ws_request ''/'' \<noteq> []" by (simp add: ws_request_def)
  obtain srv' where srv: "no_timeouts ready_server" "pending ready_server = ws_request ''/'' @ []" "ls_sent ready_server = []"
      "ws_handshake ready_server = (True, srv')" "ls_sent srv' = ws_response ws_key"
    using ready_server_upgrades by blast
  have "fst (send_all (ws_request ''/'') ?cl)" using send_all_at_once [of ?cl, OF _ order_refl ne] by simp
  from ws_handshake_agrees [OF path srv(1-4) _ _ this, of "[]"] srv(5)
  show ?thesis by (auto simp: no_timeouts_def pending_def)
qed

end
