(* ===== verification/Latency_Hist.thy ===== *)
theory Latency_Hist
  imports Float_Env "HOL-Library.Multiset"
begin

text \<open>
  The latency report of \<^verbatim>\<open>include/core/latency_hist.hpp\<close>: percentiles by the nearest rank of the
  sorted samples, maximum, mean and the rows of the logarithmic histogram (their printing is
  in \<open>Latency_Report\<close>). Percentiles are samples, grow with the rank and end at the extremes; each
  histogram row counts exactly the samples of its range.
\<close>

section \<open>Definitions\<close>

type_synonym samples = "u64 list"

definition hist_add :: "u64 \<Rightarrow> samples \<Rightarrow> samples" where
  "hist_add ns xs = xs @ [ns]"

definition hist_count :: "samples \<Rightarrow> nat" where
  "hist_count xs = length xs"

text \<open>The rank is a double, truncated by the conversion to \<^verbatim>\<open>std::size_t\<close> (ranks are not negative).\<close>

definition rank_index :: "fp_env \<Rightarrow> rat \<Rightarrow> nat \<Rightarrow> nat" where
  "rank_index fp p n =
     nat \<lfloor>fp_double fp (fp_double fp (fp_double fp (p / 100) * fp_double fp (of_nat (n - 1))) + 1 / 2)\<rfloor>"

definition percentile :: "fp_env \<Rightarrow> rat \<Rightarrow> samples \<Rightarrow> u64" where
  "percentile fp p xs =
     (if xs = [] then 0
      else let s = sort xs; idx = rank_index fp p (length s);
               idx = (if idx \<ge> length s then length s - 1 else idx)
           in s ! idx)"

definition hist_max :: "samples \<Rightarrow> u64" where
  "hist_max xs = (case xs of [] \<Rightarrow> 0 | y # ys \<Rightarrow> fold (\<lambda>v m. if m < v then v else m) ys y)"

definition hist_mean :: "fp_env \<Rightarrow> samples \<Rightarrow> rat" where
  "hist_mean fp xs =
     (if xs = [] then 0
      else let sum = fold (\<lambda>v sum. fp_long fp (sum + fp_long fp (of_nat (unat v)))) xs 0
           in fp_double fp (fp_long fp (sum / fp_long fp (of_nat (length xs)))))"

definition kBuckets :: nat where "kBuckets = 21"

function bucket_loop :: "u64 \<Rightarrow> nat \<Rightarrow> u64 \<Rightarrow> nat" where
  "bucket_loop v b hi = (if b < kBuckets - 1 \<and> v \<ge> hi then bucket_loop v (b + 1) (push_bit 1 hi) else b)"
  by pat_completeness auto
termination by (relation "measure (\<lambda>(v, b, hi). kBuckets - b)") auto

declare bucket_loop.simps [simp del]

definition hist_step :: "u64 \<Rightarrow> nat list \<times> nat \<Rightarrow> nat list \<times> nat" where
  "hist_step v = (\<lambda>(hist, peak).
     let b = bucket_loop v 0 1; hist = hist[b := hist ! b + 1]
     in (hist, if hist ! b > peak then hist ! b else peak))"

definition hist_fill :: "samples \<Rightarrow> nat list \<times> nat" where
  "hist_fill xs = fold hist_step xs (replicate kBuckets 0, 0)"

text \<open>The rows printed: range, bar length and count of each bucket that is not empty.\<close>

definition hist_rows :: "samples \<Rightarrow> (u64 \<times> u64 \<times> nat \<times> nat) list" where
  "hist_rows xs =
     (if xs = [] then []
      else let (hist, peak) = hist_fill xs
           in List.map_filter (\<lambda>b.
                if hist ! b = 0 then None
                else Some ((if b = 0 then 0 else push_bit (b - 1) 1, push_bit b 1,
                            if peak \<noteq> 0 then hist ! b * 40 div peak else 0, hist ! b)))
              [0..<kBuckets])"

section \<open>Percentiles\<close>

lemma rank_index_mono:
  assumes "fp_ok fp" and "p \<le> q"
  shows "rank_index fp p n \<le> rank_index fp q n"
proof -
  have "0 \<le> fp_double fp (of_nat (n - 1))"
    using fp_ok_mono(1) [OF assms(1), of 0 "of_nat (n - 1)"] assms(1) by simp
  then show ?thesis
    unfolding rank_index_def using assms
    by (intro nat_mono floor_mono fp_ok_mono(1) add_right_mono mult_right_mono divide_right_mono) simp_all
qed

lemma sorted_percentile:
  assumes "xs \<noteq> []"
  shows "percentile fp p xs = sort xs ! min (rank_index fp p (length xs)) (length xs - 1)"
proof -
  have "(if idx \<ge> n then n - 1 else idx) = min idx (n - 1)" if "0 < n" for idx n :: nat using that by auto
  from this [of "length xs"] assms show ?thesis by (simp only: percentile_def Let_def length_sort if_False) simp
qed

lemma percentile_in: "xs \<noteq> [] \<Longrightarrow> percentile fp p xs \<in> set xs"
  using nth_mem [of "min (rank_index fp p (length xs)) (length xs - 1)" "sort xs"]
  by (simp add: sorted_percentile min_less_iff_disj)

lemma percentile_mono: "fp_ok fp \<Longrightarrow> p \<le> q \<Longrightarrow> percentile fp p xs \<le> percentile fp q xs"
proof (cases "xs = []")
  case False
  assume "fp_ok fp" "p \<le> q"
  then have "min (rank_index fp p (length xs)) (length xs - 1) \<le> min (rank_index fp q (length xs)) (length xs - 1)"
    using rank_index_mono by (simp add: min.coboundedI1)
  then show ?thesis
    unfolding sorted_percentile [OF False] using False
    by (intro sorted_nth_mono) (auto simp: min_less_iff_disj)
qed (simp add: percentile_def)

lemma sorted_ends:
  assumes "sorted ys" "ys \<noteq> []"
  shows "ys ! 0 = Min (set ys)" "ys ! (length ys - 1) = Max (set ys)"
proof -
  have n: "length ys - 1 < length ys" using assms(2) by simp
  show "ys ! 0 = Min (set ys)"
    using assms n by (intro Min_eqI [symmetric]) (auto simp: in_set_conv_nth sorted_nth_mono)
  have "y \<le> ys ! (length ys - 1)" if "y \<in> set ys" for y
    using that assms(1) n by (auto simp: in_set_conv_nth intro!: sorted_nth_mono)
  then show "ys ! (length ys - 1) = Max (set ys)"
    using nth_mem [OF n] by (intro Max_eqI [symmetric]) auto
qed

lemma sort_ne: "xs \<noteq> [] \<Longrightarrow> sort xs \<noteq> []"
  by (metis set_empty set_sort)

lemma percentile_0:
  assumes "fp_ok fp" "fp_halves fp" "xs \<noteq> []"
  shows "percentile fp 0 xs = Min (set xs)"
proof -
  have "fp_double fp (1 / 2) = 1 / 2" using assms(2) by (auto simp: fp_halves_def dest: spec [of _ 1])
  then have "rank_index fp 0 (length xs) = 0" using assms(1) by (simp add: rank_index_def)
  then have "percentile fp 0 xs = sort xs ! 0" using assms(3) by (simp add: sorted_percentile)
  then show ?thesis using sorted_ends(1) [of "sort xs"] assms(3) by (simp add: sort_ne)
qed

lemma percentile_100:
  assumes "fp_ok fp" "xs \<noteq> []" "length xs < 2 ^ 53"
  shows "percentile fp 100 xs = Max (set xs)"
proof -
  let ?k = "length xs - 1"
  have k: "fp_double fp (of_nat ?k) = of_nat ?k" using assms by (intro fp_ok_nat) simp_all
  then have "of_nat ?k \<le> fp_double fp (of_nat ?k + 1 / 2)"
    using fp_ok_mono(1) [OF assms(1), of "of_nat ?k" "of_nat ?k + 1 / 2"] by simp
  then have "int ?k \<le> \<lfloor>fp_double fp (of_nat ?k + 1 / 2)\<rfloor>" by (simp add: le_floor_iff)
  then have "?k \<le> rank_index fp 100 (length xs)" using assms(1) k by (simp add: rank_index_def)
  then have "percentile fp 100 xs = sort xs ! ?k" using assms(2) by (simp add: sorted_percentile min_absorb2)
  then show ?thesis using sorted_ends(2) [of "sort xs"] assms(2) by (simp add: sort_ne)
qed

lemma fold_max: "fold (\<lambda>v m. if m < v then v else m) ys y = Max (insert y (set (ys :: u64 list)))"
proof (induction ys arbitrary: y)
  case (Cons v ys)
  have "(if y < v then v else y) = max y v" by (auto simp: max_def)
  with Cons [of "max y v"] show ?case
    by (simp add: Max_insert2) (metis (no_types, lifting) List.finite_set Max.insert_remove Max_singleton
        finite.insertI insert_commute insert_not_empty max.assoc max.commute Max_insert)
qed simp

lemma hist_max_eq: "xs \<noteq> [] \<Longrightarrow> hist_max xs = Max (set xs)"
  by (cases xs) (simp_all add: hist_max_def fold_max)

section \<open>Buckets\<close>

lemma unat_two_power: "b < 64 \<Longrightarrow> unat (2 ^ b :: u64) = 2 ^ b"
  using unat_of_nat_small [of "2 ^ b", where ?'a = 64] power_strict_increasing [of b 64 "2 :: nat"] by simp

lemma bucket_loop_spec:
  assumes "b \<le> 20" and "hi = 2 ^ b" and "b = 0 \<or> 2 ^ (b - 1) \<le> unat v"
  shows "bucket_loop v b hi \<le> 20 \<and>
    (bucket_loop v b hi = 0 \<or> 2 ^ (bucket_loop v b hi - 1) \<le> unat v) \<and>
    (bucket_loop v b hi < 20 \<longrightarrow> unat v < 2 ^ bucket_loop v b hi)"
  using assms
proof (induction v b hi rule: bucket_loop.induct)
  case (1 v b hi)
  have hi: "unat hi = 2 ^ b" unfolding "1.prems"(2) using "1.prems"(1) by (intro unat_two_power) simp
  show ?case
  proof (cases "b < kBuckets - 1 \<and> v \<ge> hi")
    case True
    then have "2 ^ b \<le> unat v" "b < 20" using hi by (auto simp: word_le_nat_alt kBuckets_def)
    moreover have "push_bit 1 hi = 2 ^ Suc b" using "1.prems"(2) by (simp add: push_bit_eq_mult)
    moreover have "bucket_loop v b hi = bucket_loop v (b + 1) (push_bit 1 hi)"
      using True by (subst bucket_loop.simps) simp
    ultimately show ?thesis using "1.IH" [OF True] by simp
  next
    case False
    then have "bucket_loop v b hi = b" by (subst bucket_loop.simps) (rule if_not_P)
    with False hi "1.prems" show ?thesis by (auto simp: kBuckets_def word_le_nat_alt)
  qed
qed

abbreviation bucket :: "u64 \<Rightarrow> nat" where "bucket v \<equiv> bucket_loop v 0 1"

definition in_bucket :: "nat \<Rightarrow> u64 \<Rightarrow> bool" where
  "in_bucket b v \<longleftrightarrow> (b = 0 \<or> 2 ^ (b - 1) \<le> unat v) \<and> (b < 20 \<longrightarrow> unat v < 2 ^ b)"

lemma bucket_iff: "b \<le> 20 \<Longrightarrow> bucket v = b \<longleftrightarrow> in_bucket b v" and bucket_le: "bucket v \<le> 20"
proof -
  note spec = bucket_loop_spec [of 0 1 v, simplified]
  show "bucket v \<le> 20" using spec by simp
  have "b \<le> b'" if "b \<le> 20" "in_bucket b v" "in_bucket b' v" "b' \<le> 20" for b b'
  proof (rule ccontr)
    assume "\<not> b \<le> b'"
    then have "b' < 20" "b' \<le> b - 1" "b \<noteq> 0" using that(1) by simp_all
    then have "unat v < 2 ^ b'" "2 ^ (b - 1) \<le> unat v" using that(2,3) by (auto simp: in_bucket_def)
    moreover have "(2 :: nat) ^ b' \<le> 2 ^ (b - 1)" using \<open>b' \<le> b - 1\<close> by (rule power_increasing) simp
    ultimately show False by simp
  qed
  moreover have "in_bucket (bucket v) v" "bucket v \<le> 20" using spec by (auto simp: in_bucket_def)
  ultimately show "b \<le> 20 \<Longrightarrow> bucket v = b \<longleftrightarrow> in_bucket b v" by (metis le_antisym)
qed

definition bcount :: "samples \<Rightarrow> nat \<Rightarrow> nat" where
  "bcount xs b = length (filter (\<lambda>v. bucket v = b) xs)"

lemma hist_fill_spec:
  "fst (hist_fill xs) = map (bcount xs) [0..<kBuckets] \<and> (\<forall>b < kBuckets. bcount xs b \<le> snd (hist_fill xs)) \<and>
   (xs \<noteq> [] \<longrightarrow> (\<exists>b < kBuckets. bcount xs b = snd (hist_fill xs)))"
proof (induction xs rule: rev_induct)
  case Nil
  show ?case by (simp add: hist_fill_def bcount_def map_replicate_const)
next
  case (snoc v xs)
  obtain h p where hp: "hist_fill xs = (h, p)" by (cases "hist_fill xs")
  let ?b = "bucket v"
  have b: "?b < kBuckets" using bucket_le [of v] by (simp add: kBuckets_def)
  have step: "hist_fill (xs @ [v]) = hist_step v (h, p)" using hp by (simp add: hist_fill_def)
  have c: "bcount (xs @ [v]) k = (if k = ?b then Suc (bcount xs k) else bcount xs k)" for k
    by (auto simp: bcount_def)
  have h: "h[?b := h ! ?b + 1] = map (bcount (xs @ [v])) [0..<kBuckets]"
    using snoc b by (intro nth_equalityI) (auto simp: hp c nth_list_update)
  then have hb: "h[?b := h ! ?b + 1] ! ?b = bcount (xs @ [v]) ?b" using b by simp
  have new: "fst (hist_fill (xs @ [v])) = map (bcount (xs @ [v])) [0..<kBuckets]"
      "snd (hist_fill (xs @ [v])) = max p (bcount (xs @ [v]) ?b)"
    unfolding step hist_step_def Let_def using h hb by (auto simp: max_def)
  have "\<forall>k < kBuckets. bcount (xs @ [v]) k \<le> max p (bcount (xs @ [v]) ?b)"
    using snoc by (auto simp: hp c max.coboundedI1)
  moreover have "\<exists>k < kBuckets. bcount (xs @ [v]) k = max p (bcount (xs @ [v]) ?b)"
  proof (cases "bcount (xs @ [v]) ?b \<le> p")
    case True
    then have "xs \<noteq> []" using c [of ?b] hp by (auto simp: hist_fill_def)
    with snoc obtain k where k: "k < kBuckets" "bcount xs k = p" by (auto simp: hp)
    with True have "k \<noteq> ?b" using c [of ?b] by auto
    with k True show ?thesis by (intro exI [of _ k]) (simp add: c)
  next
    case False
    then show ?thesis using b by (intro exI [of _ ?b]) simp
  qed
  ultimately show ?case unfolding new by blast
qed

lemma bcount_total: "(\<Sum>b\<leftarrow>[0..<kBuckets]. bcount xs b) = length xs"
proof (induction xs)
  case (Cons v xs)
  have "bcount (v # xs) b = bcount xs b + (if b = bucket v then 1 else 0)" for b by (simp add: bcount_def)
  then have "(\<Sum>b\<leftarrow>[0..<kBuckets]. bcount (v # xs) b) =
      (\<Sum>b\<leftarrow>[0..<kBuckets]. bcount xs b) + (\<Sum>b\<leftarrow>[0..<kBuckets]. if b = bucket v then 1 else 0)"
    by (simp add: sum_list_addf)
  moreover have "(\<Sum>b\<leftarrow>[0..<kBuckets]. if b = bucket v then 1 else 0 :: nat) = 1"
    using bucket_le [of v] by (simp add: kBuckets_def sum_list_sum_nth atLeast0LessThan sum.delta)
  ultimately show ?case using Cons by simp
qed (simp add: bcount_def)

section \<open>Properties\<close>

text \<open>Percentiles: on a floating-point unit with monotone rounding, every percentile of a
  non-empty sample is one of the samples and grows with the rank; rank 0 gives the smallest
  sample, and rank 100 the largest one, which is also what \<^verbatim>\<open>max()\<close> returns.\<close>

theorem percentile_correct:
  assumes "fp_ok fp" and "fp_halves fp" and "xs \<noteq> []" and "length xs < 2 ^ 53" and "p \<le> q"
  shows "percentile fp p xs \<in> set xs \<and> percentile fp p xs \<le> percentile fp q xs \<and>
         percentile fp 0 xs = Min (set xs) \<and> percentile fp 100 xs = Max (set xs) \<and> hist_max xs = Max (set xs)"
  using assms percentile_in percentile_mono percentile_0 percentile_100 hist_max_eq by simp

theorem percentile_correct_witness:
  "percentile fp_exact 50 [30, 10, 20] \<in> set [30, 10, 20] \<and> percentile fp_exact 0 [30, 10, 20] = 10"
  using percentile_correct [of fp_exact "[30, 10, 20]" 50 50] by (simp add: insert_commute)

lemma hist_rows_eq:
  assumes "xs \<noteq> []"
  shows "hist_rows xs = List.map_filter (\<lambda>b. if bcount xs b = 0 then None
    else Some (if b = 0 then 0 else push_bit (b - 1) 1, push_bit b 1,
               if snd (hist_fill xs) \<noteq> 0 then bcount xs b * 40 div snd (hist_fill xs) else 0, bcount xs b)) [0..<kBuckets]"
proof -
  have "fst (hist_fill xs) = map (bcount xs) [0..<kBuckets]" using hist_fill_spec by blast
  then have at: "fst (hist_fill xs) ! b = bcount xs b" if "b \<in> set [0..<kBuckets]" for b using that by simp
  show ?thesis
    unfolding hist_rows_def using assms at
    by (simp add: case_prod_beta map_filter_def cong: map_cong filter_cong) (auto intro!: map_cong filter_cong)
qed

text \<open>The histogram partitions the samples: each row's count is the number of samples in its
  printed range (the last row, which is printed as ending at \<open>2 ^ 20\<close>, counts everything from
  \<open>2 ^ 19\<close> on), no bar is longer than 40 characters, and the counts add up to the number of
  samples.\<close>

theorem histogram_partitions:
  "list_all (\<lambda>(lo, hi, bars, n). 0 < n \<and> bars \<le> 40 \<and>
      n = length (filter (\<lambda>v. lo \<le> v \<and> (v < hi \<or> hi = 2 ^ 20)) xs)) (hist_rows xs) \<and>
   (\<Sum>(lo, hi, bars, n)\<leftarrow>hist_rows xs. n) = length xs"
proof (cases "xs = []")
  case False
  let ?p = "snd (hist_fill xs)"
  have "?p \<noteq> 0 \<longrightarrow> bcount xs b * 40 div ?p \<le> 40" if "b < kBuckets" for b
    using hist_fill_spec [of xs] that div_le_mono [of "bcount xs b * 40" "?p * 40" ?p] by auto
  moreover have "bcount xs b =
      length (filter (\<lambda>v. (if b = 0 then 0 else push_bit (b - 1) 1) \<le> v \<and> (v < push_bit b 1 \<or> (push_bit b 1 :: u64) = 2 ^ 20)) xs)"
    if b: "b < kBuckets" for b
  proof -
    have b20: "b \<le> 20" using b by (simp add: kBuckets_def)
    have pw: "unat (push_bit k 1 :: u64) = 2 ^ k" if "k \<le> 20" for k
      using unat_two_power [of k] that by (simp add: push_bit_eq_mult)
    have "((push_bit b 1 :: u64) = 2 ^ 20) = (b = 20)"
      using pw [OF b20] unat_two_power [of 20] power_inject_exp [of "2 :: nat" b 20] by (auto simp: word_unat_eq_iff)
    then have "in_bucket b v \<longleftrightarrow> (if b = 0 then 0 else push_bit (b - 1) 1) \<le> v \<and> (v < push_bit b 1 \<or> (push_bit b 1 :: u64) = 2 ^ 20)" for v
      using pw [OF b20] pw [of "b - 1"] b20 by (auto simp: in_bucket_def word_le_nat_alt word_less_nat_alt)
    then show ?thesis unfolding bcount_def bucket_iff [OF b20] by simp
  qed
  ultimately have "list_all (\<lambda>(lo, hi, bars, n). 0 < n \<and> bars \<le> 40 \<and>
      n = length (filter (\<lambda>v. lo \<le> v \<and> (v < hi \<or> hi = 2 ^ 20)) xs)) (hist_rows xs)"
    unfolding hist_rows_eq [OF False] list_all_iff map_filter_def by (auto split: if_splits)
  moreover have "(\<Sum>(lo, hi, bars, n)\<leftarrow>hist_rows xs. n) = (\<Sum>b\<leftarrow>[0..<kBuckets]. bcount xs b)"
  proof -
    have "(\<Sum>(lo, hi, bars, n)\<leftarrow>List.map_filter (\<lambda>b. if f b = 0 then None else Some (lo b, hi b, bars b, f b)) bs. n) =
        (\<Sum>b\<leftarrow>bs. f b)" for f :: "nat \<Rightarrow> nat" and lo hi :: "nat \<Rightarrow> u64" and bars :: "nat \<Rightarrow> nat" and bs
      by (induction bs) (simp_all add: map_filter_simps)
    then show ?thesis unfolding hist_rows_eq [OF False] .
  qed
  ultimately show ?thesis by (simp add: bcount_total)
qed (simp add: hist_rows_def)

end
