(* ===== verification/Metrics.thy ===== *)
theory Metrics
  imports Float_Env Book_Runs
begin

text \<open>
  The microstructure metrics of \<^verbatim>\<open>include/book/metrics.hpp\<close>, computed in floating point from the
  queries of a book over any level store. Each operation rounds on its own, in the order the code
  evaluates it.
\<close>

section \<open>Definitions\<close>

record BookMetrics =
  has_bid :: bool
  has_ask :: bool
  two_sided :: bool
  bid_px :: Price
  ask_px :: Price
  bid_qty :: Qty
  ask_qty :: Qty
  m_mid :: rat
  microprice :: rat
  weighted_mid :: rat
  spread_ticks :: Price
  spread_bps :: rat
  imbalance_top :: rat
  imbalance_n :: rat
  bid_depth_n :: u64
  ask_depth_n :: u64

definition BookMetrics_init :: BookMetrics where
  "BookMetrics_init =
     \<lparr>has_bid = False, has_ask = False, two_sided = False, bid_px = 0, ask_px = 0, bid_qty = 0, ask_qty = 0,
      m_mid = 0, microprice = 0, weighted_mid = 0, spread_ticks = 0, spread_bps = 0, imbalance_top = 0,
      imbalance_n = 0, bid_depth_n = 0, ask_depth_n = 0\<rparr>"

definition qty_double :: "fp_env \<Rightarrow> Qty \<Rightarrow> rat" where
  "qty_double fp q = fp_double fp (of_nat (unat q))"

text \<open>One pass of a depth loop: notional, size and share sum.\<close>

definition depth_step :: "fp_env \<Rightarrow> Price \<times> Qty \<Rightarrow> rat \<times> rat \<times> u64 \<Rightarrow> rat \<times> rat \<times> u64" where
  "depth_step fp lv = (\<lambda>(num, den, sum).
     (fp_long fp (num + fp_long fp (fp_long fp (to_dollars fp (fst lv)) * fp_long fp (of_nat (unat (snd lv))))),
      fp_long fp (den + fp_long fp (of_nat (unat (snd lv)))), sum + ucast (snd lv)))"

definition compute_metrics :: "fp_env \<Rightarrow> 'l level_ops \<Rightarrow> 'l order_book \<Rightarrow> nat \<Rightarrow> BookMetrics" where
  "compute_metrics fp LS book n_levels =
     (let m = BookMetrics_init;
          bb = best_bid LS book; ba = best_ask LS book;
          m = m\<lparr>has_bid := bb \<noteq> None, has_ask := ba \<noteq> None\<rparr>;
          m = (case bb of Some (bp, bq) \<Rightarrow> m\<lparr>bid_px := bp, bid_qty := bq\<rparr> | None \<Rightarrow> m);
          m = (case ba of Some (ap, aq) \<Rightarrow> m\<lparr>ask_px := ap, ask_qty := aq\<rparr> | None \<Rightarrow> m)
      in if \<not> has_bid m \<or> \<not> has_ask m then m
         else
          (let bp = bid_px m; ap = ask_px m; bq = bid_qty m; aq = ask_qty m;
               bidd = to_dollars fp bp; askd = to_dollars fp ap;
               mid = fp_double fp (1 / 2 * fp_double fp (bidd + askd));
               spread = ap - bp;
               top = fp_double fp (qty_double fp bq + qty_double fp aq);
               (num, den, bsum) = fold (depth_step fp) (book_bids LS book n_levels) (0, 0, 0);
               (num, den, asum) = fold (depth_step fp) (book_asks LS book n_levels) (num, den, 0);
               dn = fp_double fp (fp_double fp (of_nat (unat bsum)) + fp_double fp (of_nat (unat asum)))
           in m\<lparr>two_sided := True, m_mid := mid, spread_ticks := spread,
                spread_bps := (if mid > 0
                               then fp_double fp (fp_double fp (to_dollars fp spread / mid) * 10000) else 0),
                microprice := (if top > 0
                               then fp_double fp (fp_double fp (fp_double fp (bidd * qty_double fp aq) +
                                      fp_double fp (askd * qty_double fp bq)) / top)
                               else mid),
                imbalance_top := (if top > 0
                                  then fp_double fp (fp_double fp (qty_double fp bq - qty_double fp aq) / top)
                                  else 0),
                bid_depth_n := bsum, ask_depth_n := asum,
                weighted_mid := (if den > 0 then fp_double fp (fp_long fp (num / den)) else mid),
                imbalance_n := (if dn > 0
                                then fp_double fp (fp_double fp (fp_double fp (of_nat (unat bsum)) -
                                       fp_double fp (of_nat (unat asum))) / dn)
                                else 0)\<rparr>))"

section \<open>Bounds\<close>

text \<open>The difference of two sizes over their sum, computed in doubles, stays in \<open>[-1, 1]\<close>.\<close>

lemma imbalance_bounds:
  assumes fp: "fp_ok fp" "fp_doubles fp" and xy: "0 \<le> x" "0 \<le> y" and d: "0 < fp_double fp (x + y)"
  shows "- 1 \<le> fp_double fp (fp_double fp (x - y) / fp_double fp (x + y)) \<and>
         fp_double fp (fp_double fp (x - y) / fp_double fp (x + y)) \<le> 1"
proof -
  let ?d = "fp_double fp (x + y)"
  have "fp_double fp (x - y) \<le> ?d" using xy by (intro fp_ok_mono(1) [OF fp(1)]) simp
  moreover have "fp_double fp (- (x + y)) \<le> fp_double fp (x - y)" using xy by (intro fp_ok_mono(1) [OF fp(1)]) simp
  moreover have "fp_double fp (- (x + y)) = - ?d" using fp(2) unfolding fp_doubles_def by blast
  ultimately have "- 1 \<le> fp_double fp (x - y) / ?d" "fp_double fp (x - y) / ?d \<le> 1"
    using d by (simp_all add: pos_le_divide_eq pos_divide_le_eq)
  from fp_ok_mono(1) [OF fp(1) this(1)] fp_ok_mono(1) [OF fp(1) this(2)] fp(1) show ?thesis by simp
qed

lemma imbalance_abs:
  assumes "fp_ok fp" "fp_doubles fp" "0 \<le> x" "0 \<le> y"
  shows "\<bar>if fp_double fp (x + y) > 0 then fp_double fp (fp_double fp (x - y) / fp_double fp (x + y)) else 0\<bar> \<le> 1"
  using imbalance_bounds [OF assms] by (simp add: abs_le_iff)

lemma mid_between:
  assumes fp: "fp_ok fp" "fp_doubles fp" and "x \<le> y" and "\<bar>x\<bar> \<le> 2 ^ 64" "\<bar>y\<bar> \<le> 2 ^ 64"
    and bx: "bx = fp_double fp x" and byy: "byy = fp_double fp y"
  shows "bx \<le> fp_double fp (1 / 2 * fp_double fp (bx + byy)) \<and> fp_double fp (1 / 2 * fp_double fp (bx + byy)) \<le> byy"
proof -
  have le: "bx \<le> byy" unfolding bx byy using assms(3) by (rule fp_ok_mono(1) [OF fp(1)])
  have two: "fp_double fp (2 * bx) = 2 * bx" "fp_double fp (2 * byy) = 2 * byy"
    using fp(2) assms(4,5) by (auto simp: fp_doubles_def bx byy)
  have "2 * bx \<le> fp_double fp (bx + byy)" "fp_double fp (bx + byy) \<le> 2 * byy"
    using fp_ok_mono(1) [OF fp(1), of "2 * bx" "bx + byy"] fp_ok_mono(1) [OF fp(1), of "bx + byy" "2 * byy"] le two by auto
  then have "bx \<le> 1 / 2 * fp_double fp (bx + byy)" "1 / 2 * fp_double fp (bx + byy) \<le> byy" by simp_all
  from fp_ok_mono(1) [OF fp(1) this(1)] fp_ok_mono(1) [OF fp(1) this(2)] show ?thesis
    using fp(2) by (simp add: fp_doubles_def bx byy)
qed

lemma fp_double_nonneg: "fp_ok fp \<Longrightarrow> 0 \<le> x \<Longrightarrow> 0 \<le> fp_double fp x"
  using fp_ok_mono(1) [of fp 0 x] by simp

lemma depth_sum: "snd (snd (fold (depth_step fp) lvs (num, den, s))) = s + (\<Sum>lv\<leftarrow>lvs. ucast (snd lv))"
  by (induction lvs arbitrary: num den s) (simp_all add: depth_step_def add.assoc)

lemma metrics_flags:
  "has_bid (compute_metrics fp LS b n) = (best_bid LS b \<noteq> None)"
  "has_ask (compute_metrics fp LS b n) = (best_ask LS b \<noteq> None)"
  "two_sided (compute_metrics fp LS b n) = (best_bid LS b \<noteq> None \<and> best_ask LS b \<noteq> None)"
  by (auto simp: compute_metrics_def BookMetrics_init_def Let_def case_prod_beta split: option.splits)

lemma metrics_two_sided:
  assumes "best_bid LS b = Some (bp, bq)" and "best_ask LS b = Some (ap, aq)"
    and m: "m = compute_metrics fp LS b n"
  shows "bid_px m = bp" "ask_px m = ap" "bid_qty m = bq" "ask_qty m = aq" "spread_ticks m = ap - bp"
    and "m_mid m = fp_double fp (1 / 2 * fp_double fp (to_dollars fp bp + to_dollars fp ap))"
    and "imbalance_top m = (let top = fp_double fp (qty_double fp bq + qty_double fp aq)
      in if top > 0 then fp_double fp (fp_double fp (qty_double fp bq - qty_double fp aq) / top) else 0)"
    and "bid_depth_n m = (\<Sum>lv\<leftarrow>book_bids LS b n. ucast (snd lv))"
    and "ask_depth_n m = (\<Sum>lv\<leftarrow>book_asks LS b n. ucast (snd lv))"
    and "imbalance_n m = (let x = fp_double fp (of_nat (unat (bid_depth_n m)));
                              y = fp_double fp (of_nat (unat (ask_depth_n m))); dn = fp_double fp (x + y)
      in if dn > 0 then fp_double fp (fp_double fp (x - y) / dn) else 0)"
proof -
  obtain num den bs where f1: "fold (depth_step fp) (book_bids LS b n) (0, 0, 0) = (num, den, bs)"
    by (metis surj_pair)
  obtain num' den' as where f2: "fold (depth_step fp) (book_asks LS b n) (num, den, 0) = (num', den', as)"
    by (metis surj_pair)
  have sums: "bs = (\<Sum>lv\<leftarrow>book_bids LS b n. ucast (snd lv))" "as = (\<Sum>lv\<leftarrow>book_asks LS b n. ucast (snd lv))"
    using depth_sum [of fp "book_bids LS b n" 0 0 0] depth_sum [of fp "book_asks LS b n" num den 0] f1 f2 by simp_all
  show "bid_px m = bp" "ask_px m = ap" "bid_qty m = bq" "ask_qty m = aq" "spread_ticks m = ap - bp"
    "m_mid m = fp_double fp (1 / 2 * fp_double fp (to_dollars fp bp + to_dollars fp ap))"
    "imbalance_top m = (let top = fp_double fp (qty_double fp bq + qty_double fp aq)
      in if top > 0 then fp_double fp (fp_double fp (qty_double fp bq - qty_double fp aq) / top) else 0)"
    "bid_depth_n m = (\<Sum>lv\<leftarrow>book_bids LS b n. ucast (snd lv))"
    "ask_depth_n m = (\<Sum>lv\<leftarrow>book_asks LS b n. ucast (snd lv))"
    "imbalance_n m = (let x = fp_double fp (of_nat (unat (bid_depth_n m)));
                          y = fp_double fp (of_nat (unat (ask_depth_n m))); dn = fp_double fp (x + y)
      in if dn > 0 then fp_double fp (fp_double fp (x - y) / dn) else 0)"
    unfolding m compute_metrics_def
    by (simp_all add: assms(1,2) BookMetrics_init_def Let_def f1 f2 sums [symmetric])
qed

section \<open>Properties\<close>



end
