(* ===== verification/Double_Text.thy ===== *)
theory Double_Text
  imports Text_Numbers Float_Env
begin

text \<open>
  Doubles with infinities and not-a-number, their arithmetic as far as the MetaTrader bridge uses
  it, and their text: the \<^verbatim>\<open>%.10g\<close> conversion of \<^verbatim>\<open>std::snprintf\<close> and \<^verbatim>\<open>std::strtod\<close> in the C
  locale. The two zeros are not distinguished. A double that is nearest to a decimal number of at
  most ten digits is printed as that number, and read back as itself.
\<close>

section \<open>Values\<close>

datatype dbl = Fin rat | Infty bool | NaN

text \<open>Rounding to nearest overflows from half a unit above the largest double on; the argument of
  \<^const>\<open>Infty\<close> is the sign bit.\<close>

definition dbl_limit :: rat where
  "dbl_limit = 2 ^ 1024 - 2 ^ 970"

definition round_dbl :: "fp_env \<Rightarrow> rat \<Rightarrow> dbl" where
  "round_dbl fp x = (if \<bar>x\<bar> \<ge> dbl_limit then Infty (x < 0) else Fin (fp_double fp x))"

fun dadd :: "fp_env \<Rightarrow> dbl \<Rightarrow> dbl \<Rightarrow> dbl" where
  "dadd fp NaN y = NaN"
| "dadd fp x NaN = NaN"
| "dadd fp (Infty s) (Infty t) = (if s = t then Infty s else NaN)"
| "dadd fp (Infty s) (Fin y) = Infty s"
| "dadd fp (Fin x) (Infty t) = Infty t"
| "dadd fp (Fin x) (Fin y) = round_dbl fp (x + y)"

fun dneg :: "dbl \<Rightarrow> dbl" where
  "dneg NaN = NaN"
| "dneg (Infty s) = Infty (\<not> s)"
| "dneg (Fin x) = Fin (- x)"

definition dsub :: "fp_env \<Rightarrow> dbl \<Rightarrow> dbl \<Rightarrow> dbl" where
  "dsub fp x y = dadd fp x (dneg y)"

text \<open>\<open>0.5 * x\<close>.\<close>

fun dhalf :: "fp_env \<Rightarrow> dbl \<Rightarrow> dbl" where
  "dhalf fp NaN = NaN"
| "dhalf fp (Infty s) = Infty s"
| "dhalf fp (Fin x) = round_dbl fp (1 / 2 * x)"

text \<open>\<open>x >= y\<close>, false when an operand is not a number.\<close>

fun dge :: "dbl \<Rightarrow> dbl \<Rightarrow> bool" where
  "dge NaN y = False"
| "dge x NaN = False"
| "dge (Infty s) (Infty t) = (\<not> s \<or> t)"
| "dge (Infty s) (Fin y) = (\<not> s)"
| "dge (Fin x) (Infty t) = t"
| "dge (Fin x) (Fin y) = (x \<ge> y)"

section \<open>Printing\<close>

text \<open>For positive \<open>x\<close>, the exponent \<open>e\<close> with \<open>10 ^ e \<le> x < 10 ^ (e + 1)\<close>.\<close>

definition dec_exp :: "rat \<Rightarrow> int" where
  "dec_exp x =
     (if x \<ge> 1 then int (length (dec (nat \<lfloor>x\<rfloor>))) - 1 else - int (length (dec (nat \<lceil>1 / x\<rceil> - 1))))"

text \<open>The first \<open>n\<close> significant digits, as an integer, and the decimal exponent of the first one.\<close>

definition sig :: "nat \<Rightarrow> rat \<Rightarrow> nat \<times> int" where
  "sig n x =
     (let e = dec_exp x; m = nat (round_half_even (x * 10 powi (int n - 1 - e)))
      in if m \<ge> 10 ^ n then (10 ^ (n - 1), e + 1) else (m, e))"

abbreviation sig10 :: "rat \<Rightarrow> nat \<times> int" where
  "sig10 \<equiv> sig 10"

lemma sig10_def:
  "sig10 x =
     (let e = dec_exp x; m = nat (round_half_even (x * 10 powi (9 - e)))
      in if m \<ge> 10 ^ 10 then (10 ^ 9, e + 1) else (m, e))"
  by (simp add: sig_def Let_def)

definition strip_zeros :: "string \<Rightarrow> string" where
  "strip_zeros s = rev (dropWhile (\<lambda>c. c = CHR ''0'') (rev s))"

definition with_point :: "string \<Rightarrow> string \<Rightarrow> string" where
  "with_point ip fr = ip @ (let fr = strip_zeros fr in if fr = [] then [] else CHR ''.'' # fr)"

definition print_g :: "nat \<Rightarrow> nat \<times> int \<Rightarrow> string" where
  "print_g n = (\<lambda>(m, e).
     let ds = dec m
     in if - 4 \<le> e \<and> e < int n
        then if e \<ge> 0 then with_point (take (nat e + 1) ds) (drop (nat e + 1) ds)
             else with_point ''0'' (replicate (nat (- e) - 1) CHR ''0'' @ ds)
        else with_point (take 1 ds) (drop 1 ds) @ ''e'' @ (if e < 0 then ''-'' else ''+'') @ zero_pad 2 (nat \<bar>e\<bar>))"

abbreviation print_g10 :: "nat \<times> int \<Rightarrow> string" where
  "print_g10 \<equiv> print_g 10"

lemma print_g10_def:
  "print_g10 = (\<lambda>(m, e).
     let ds = dec m
     in if - 4 \<le> e \<and> e < 10
        then if e \<ge> 0 then with_point (take (nat e + 1) ds) (drop (nat e + 1) ds)
             else with_point ''0'' (replicate (nat (- e) - 1) CHR ''0'' @ ds)
        else with_point (take 1 ds) (drop 1 ds) @ ''e'' @ (if e < 0 then ''-'' else ''+'') @ zero_pad 2 (nat \<bar>e\<bar>))"
  by (simp only: print_g_def of_nat_numeral)

text \<open>The conversion \<^verbatim>\<open>%.ng\<close>, for \<open>n > 0\<close>.\<close>

fun fmt_g :: "nat \<Rightarrow> dbl \<Rightarrow> string" where
  "fmt_g n NaN = ''nan''"
| "fmt_g n (Infty s) = (if s then ''-inf'' else ''inf'')"
| "fmt_g n (Fin x) =
     (if x = 0 then ''0'' else (if x < 0 then ''-'' else '''') @ print_g n (sig n \<bar>x\<bar>))"

definition fmt_double :: "dbl \<Rightarrow> string" where
  "fmt_double = fmt_g 10"

lemma fmt_double_simps [simp]:
  "fmt_double NaN = ''nan''" "fmt_double (Infty s) = (if s then ''-inf'' else ''inf'')"
  "fmt_double (Fin x) = (if x = 0 then ''0'' else (if x < 0 then ''-'' else '''') @ print_g10 (sig10 \<bar>x\<bar>))"
  by (simp_all add: fmt_double_def)

section \<open>Reading\<close>

definition lower :: "char \<Rightarrow> char" where
  "lower c = (if 65 \<le> (of_char c :: nat) \<and> (of_char c :: nat) \<le> 90 then char_of (of_char c + 32 :: nat) else c)"

definition starts_ci :: "string \<Rightarrow> string \<Rightarrow> bool" where
  "starts_ci w t \<longleftrightarrow> map lower (take (length w) t) = w"

definition is_hex :: "char \<Rightarrow> bool" where
  "is_hex c \<longleftrightarrow> is_digit c \<or> lower c \<in> set ''abcdef''"

definition hex_val :: "char \<Rightarrow> nat" where
  "hex_val c = (if is_digit c then digit_val c else of_char (lower c) - 87)"

text \<open>Digits, a point, digits: the digits before and behind the point and the rest.\<close>

definition split_point :: "(char \<Rightarrow> bool) \<Rightarrow> string \<Rightarrow> string \<times> string \<times> string" where
  "split_point dig t =
     (let ip = takeWhile dig t; t1 = dropWhile dig t
      in if t1 \<noteq> [] \<and> hd t1 = CHR ''.'' then (ip, takeWhile dig (tl t1), dropWhile dig (tl t1))
         else (ip, [], t1))"

text \<open>An exponent part introduced by \<open>c\<close>, 0 unless it is complete.\<close>

definition read_exp :: "char \<Rightarrow> string \<Rightarrow> int" where
  "read_exp c t =
     (if t \<noteq> [] \<and> lower (hd t) = c
      then let t1 = tl t
           in if t1 \<noteq> [] \<and> hd t1 = CHR ''-'' then - int (read_digits 0 (tl t1))
              else if t1 \<noteq> [] \<and> hd t1 = CHR ''+'' then int (read_digits 0 (tl t1))
              else int (read_digits 0 t1)
      else 0)"

definition read_dec :: "string \<Rightarrow> rat option" where
  "read_dec t =
     (let (ip, fr, r) = split_point is_digit t
      in if ip @ fr = [] then None
         else Some (of_nat (read_digits 0 (ip @ fr)) * 10 powi (read_exp CHR ''e'' r - int (length fr))))"

definition read_hex :: "string \<Rightarrow> rat option" where
  "read_hex t =
     (let (ip, fr, r) = split_point is_hex t
      in if ip @ fr = [] then None
         else Some (of_nat (foldl (\<lambda>a c. a * 16 + hex_val c) 0 (ip @ fr)) *
                    2 powi (read_exp CHR ''p'' r - 4 * int (length fr))))"

text \<open>The unsigned part; \<open>0x\<close> without hexadecimal digits is the number 0.\<close>

definition read_unsigned :: "fp_env \<Rightarrow> string \<Rightarrow> dbl option" where
  "read_unsigned fp t =
     (if starts_ci ''inf'' t then Some (Infty False)
      else if starts_ci ''nan'' t then Some NaN
      else case (if starts_ci ''0x'' t then read_hex (drop 2 t) else None) of
             Some x \<Rightarrow> Some (round_dbl fp x)
           | None \<Rightarrow> map_option (round_dbl fp) (read_dec t))"

text \<open>\<open>std::strtod(p, &end)\<close>; \<^const>\<open>None\<close> is \<open>end == p\<close>.\<close>

definition strtod :: "fp_env \<Rightarrow> string \<Rightarrow> dbl option" where
  "strtod fp s =
     (let t = dropWhile is_space s
      in if t \<noteq> [] \<and> hd t = CHR ''-'' then map_option dneg (read_unsigned fp (tl t))
         else if t \<noteq> [] \<and> hd t = CHR ''+'' then read_unsigned fp (tl t)
         else read_unsigned fp t)"

section \<open>Decimal exponents\<close>

lemma length_dec_bounds: "0 < n \<Longrightarrow> 10 ^ (length (dec n) - 1) \<le> n \<and> n < 10 ^ length (dec n)"
proof (induction n rule: dec.induct)
  case (1 n)
  show ?case
  proof (cases "n < 10")
    case True
    with 1 show ?thesis by (subst (1 2) dec.simps) simp
  next
    case False
    then have "0 < n div 10" by simp
    with 1 False have ih: "10 ^ (length (dec (n div 10)) - 1) \<le> n div 10" "n div 10 < 10 ^ length (dec (n div 10))"
      by auto
    have "0 < length (dec (n div 10))" by simp
    then have "(10 :: nat) ^ length (dec (n div 10)) = 10 * 10 ^ (length (dec (n div 10)) - 1)"
      by (cases "length (dec (n div 10))") simp_all
    with ih(1) have "10 ^ length (dec (n div 10)) \<le> n" by linarith
    moreover from ih(2) have "n < 10 * 10 ^ length (dec (n div 10))" by linarith
    ultimately show ?thesis using False by (subst (1 2) dec.simps) simp
  qed
qed

lemma dec_exp_bounds:
  assumes "0 < x"
  shows "10 powi dec_exp x \<le> x" "x < 10 powi (dec_exp x + 1)"
proof -
  have "10 powi dec_exp x \<le> x \<and> x < 10 powi (dec_exp x + 1)"
  proof (cases "x \<ge> 1")
    case True
    let ?n = "nat \<lfloor>x\<rfloor>"
    have n: "0 < ?n" "of_nat ?n \<le> x" "x < of_nat (?n + 1)" using True by (simp_all add: of_nat_nat) linarith+
    from length_dec_bounds [OF n(1)] have b: "10 ^ (length (dec ?n) - 1) \<le> ?n" "?n + 1 \<le> 10 ^ length (dec ?n)"
      by (blast, metis Suc_eq_plus1 Suc_leI)
    have "of_nat (10 ^ (length (dec ?n) - 1)) \<le> x" using b(1) n(2) by (meson of_nat_le_iff order_trans)
    moreover have "x < of_nat (10 ^ length (dec ?n))" using b(2) n(3) by (meson of_nat_le_iff less_le_trans)
    ultimately show ?thesis using True by (simp add: dec_exp_def power_int_def nat_diff_distrib' Suc_le_eq)
  next
    case False
    let ?n = "nat \<lceil>1 / x\<rceil>"
    let ?k = "length (dec (?n - 1))"
    have "1 < 1 / x" using False assms by simp
    then have n: "1 < ?n" "1 / x \<le> of_nat ?n" "of_nat (?n - 1) < 1 / x"
      by (simp_all add: of_nat_nat of_nat_diff) linarith+
    have "10 ^ (length (dec (j - 1)) - 1) \<le> j - 1 \<and> j \<le> 10 ^ length (dec (j - 1))" if "1 < j" for j :: nat
      using length_dec_bounds [of "j - 1"] that by auto
    from this [OF n(1)] have b: "10 ^ (?k - 1) \<le> ?n - 1" "?n \<le> 10 ^ ?k" by blast+
    have "of_nat (10 ^ (?k - 1)) < 1 / x" using b(1) n(3) by (meson of_nat_le_iff le_less_trans)
    then have "x < 1 / 10 ^ (?k - 1)" using assms by (simp add: field_simps)
    moreover have "1 / x \<le> of_nat (10 ^ ?k)" using b(2) n(2) by (meson of_nat_le_iff order_trans)
    then have "1 / 10 ^ ?k \<le> x" using assms by (simp add: field_simps)
    moreover obtain j where j: "?k = Suc j" by (cases "dec (?n - 1)") auto
    moreover have "dec_exp x = - int (Suc j)" "dec_exp x + 1 = - int j" using False j by (simp_all add: dec_exp_def)
    ultimately show ?thesis by (simp only: power_int_minus power_int_of_nat inverse_eq_divide diff_Suc_1 simp_thms)
  qed
  then show "10 powi dec_exp x \<le> x" "x < 10 powi (dec_exp x + 1)" by simp_all
qed

lemma powi_10_less: "(10 :: rat) powi a < 10 powi b \<Longrightarrow> a < b"
  using power_int_increasing [of b a "10 :: rat"] by (cases "a < b") simp_all

lemma dec_exp_unique:
  assumes "10 powi e \<le> x" "x < 10 powi (e + 1)"
  shows "dec_exp x = e"
proof -
  have x: "0 < x" using assms(1) by (rule less_le_trans [rotated]) simp
  have "10 powi e < (10 :: rat) powi (dec_exp x + 1)" using assms(1) dec_exp_bounds(2) [OF x] by simp
  moreover have "10 powi dec_exp x < (10 :: rat) powi (e + 1)" using assms(2) dec_exp_bounds(1) [OF x] by simp
  ultimately show ?thesis by (auto dest!: powi_10_less)
qed

section \<open>Reading what was printed\<close>

text \<open>What follows a number in a flat JSON object or in a ladder.\<close>

definition num_end :: "string \<Rightarrow> bool" where
  "num_end rest \<longleftrightarrow> (case rest of [] \<Rightarrow> True | c # _ \<Rightarrow> c \<in> set '',}]'')"

lemma num_end_simps [simp]:
  "num_end []" "num_end (CHR '','' # r)" "num_end (CHR ''}'' # r)" "num_end (CHR '']'' # r)"
  by (simp_all add: num_end_def)

lemma num_endE:
  assumes "num_end rest"
  obtains "rest = []" | c r where "rest = c # r" "c \<in> set '',}]''"
  using assms by (auto simp: num_end_def split: list.splits)

lemma strip_zeros_eq: "\<exists>k. s = strip_zeros s @ replicate k CHR ''0''"
proof -
  have "replicate (length u) CHR ''0'' = u" if "\<forall>c \<in> set u. c = CHR ''0''" for u :: string
    using that by (induction u) auto
  moreover have "\<forall>c \<in> set (takeWhile (\<lambda>c. c = CHR ''0'') (rev s)). c = CHR ''0''" by (auto dest: set_takeWhileD)
  ultimately have "takeWhile (\<lambda>c. c = CHR ''0'') (rev s) = replicate (length (takeWhile (\<lambda>c. c = CHR ''0'') (rev s))) CHR ''0''"
    by simp
  then have "rev s = replicate (length (takeWhile (\<lambda>c. c = CHR ''0'') (rev s))) CHR ''0'' @ dropWhile (\<lambda>c. c = CHR ''0'') (rev s)"
    by (metis takeWhile_dropWhile_id)
  then have "s = rev (replicate (length (takeWhile (\<lambda>c. c = CHR ''0'') (rev s))) CHR ''0'' @ dropWhile (\<lambda>c. c = CHR ''0'') (rev s))"
    by (metis rev_rev_ident)
  then show ?thesis unfolding strip_zeros_def by (metis rev_append rev_replicate)
qed

lemma set_strip_zeros: "set (strip_zeros s) \<subseteq> set s"
  by (auto simp: strip_zeros_def dest: set_dropWhileD)

lemma read_digits_replicate: "read_digits a (replicate k CHR ''0'') = a * 10 ^ k"
  by (induction k arbitrary: a) (simp_all add: is_digit_def digit_val_def)

text \<open>Trailing zeros behind the point do not change the value.\<close>

lemma strip_zeros_value:
  assumes "\<forall>c \<in> set (ip @ fr). is_digit c"
  shows "of_nat (read_digits 0 (ip @ strip_zeros fr)) * 10 powi (e - int (length (strip_zeros fr))) =
         (of_nat (read_digits 0 (ip @ fr)) * 10 powi (e - int (length fr)) :: rat)"
proof -
  obtain k where k: "fr = strip_zeros fr @ replicate k CHR ''0''" using strip_zeros_eq by blast
  have dig: "\<forall>c \<in> set (ip @ strip_zeros fr). is_digit c" using assms set_strip_zeros [of fr] by auto
  have "read_digits 0 (ip @ fr) = read_digits 0 (ip @ strip_zeros fr) * 10 ^ k"
    using read_digits_append [OF dig, of 0 "replicate k CHR ''0''"] by (subst k) (simp add: read_digits_replicate)
  moreover have "length fr = length (strip_zeros fr) + k" by (subst k) simp
  moreover have "(10 :: rat) powi (e - int (length (strip_zeros fr))) =
      10 ^ k * 10 powi (e - int (length (strip_zeros fr)) - int k)"
    by (subst power_int_diff) simp_all
  ultimately show ?thesis by (simp add: diff_diff_eq)
qed

lemma split_point_with_point:
  assumes "\<forall>c \<in> set (ip @ fr). is_digit c" and "r = [] \<or> \<not> is_digit (hd r) \<and> hd r \<noteq> CHR ''.''"
  shows "split_point is_digit (with_point ip fr @ r) = (ip, strip_zeros fr, r)"
proof -
  have fr: "\<forall>c \<in> set (strip_zeros fr). is_digit c" using assms(1) set_strip_zeros [of fr] by auto
  have r: "takeWhile is_digit r = []" "dropWhile is_digit r = r" using assms(2) by (cases r; simp)+
  have pt: "\<not> is_digit CHR ''.''" by (simp add: is_digit_def)
  show ?thesis
  proof (cases "strip_zeros fr = []")
    case True
    then show ?thesis using assms r
      by (auto simp: split_point_def with_point_def takeWhile_append2 dropWhile_append2 Let_def)
  next
    case False
    then show ?thesis using assms(1) fr r pt
      by (simp add: split_point_def with_point_def takeWhile_append2 dropWhile_append2 Let_def)
  qed
qed

lemma read_dec_with_point:
  assumes "\<forall>c \<in> set (ip @ fr). is_digit c" and "ip \<noteq> []"
    and "r = [] \<or> \<not> is_digit (hd r) \<and> hd r \<noteq> CHR ''.''"
  shows "read_dec (with_point ip fr @ r) =
         Some (of_nat (read_digits 0 (ip @ fr)) * 10 powi (read_exp CHR ''e'' r - int (length fr)))"
  using strip_zeros_value [OF assms(1)] assms(2)
  by (simp add: read_dec_def split_point_with_point [OF assms(1,3)] Let_def)

lemma read_exp_end: "num_end r \<Longrightarrow> read_exp CHR ''e'' r = 0"
  by (erule num_endE) (auto simp: read_exp_def lower_def)

lemma read_digits_end: "\<forall>c \<in> set u. is_digit c \<Longrightarrow> num_end r \<Longrightarrow> read_digits a (u @ r) = read_digits a u"
  by (erule num_endE) (auto simp: read_digits_append is_digit_def)

lemma read_exp_printed:
  assumes "num_end r"
  shows "read_exp CHR ''e'' (''e'' @ (if e < 0 then ''-'' else ''+'') @ zero_pad 2 (nat \<bar>e\<bar>) @ r) = e"
proof -
  have "read_digits 0 (zero_pad 2 n @ r) = n" for n
    by (subst read_digits_end [OF zero_pad_digits assms]) (simp add: zero_pad_def read_digits_zeros read_digits_dec)
  moreover have "lower CHR ''e'' = CHR ''e''" by (simp add: lower_def)
  ultimately show ?thesis by (simp add: read_exp_def)
qed

lemma num_end_hd: "num_end r \<Longrightarrow> r = [] \<or> \<not> is_digit (hd r) \<and> hd r \<noteq> CHR ''.''"
  by (erule num_endE) (auto simp: is_digit_def)

lemma length_dec_10: "10 ^ 9 \<le> m \<Longrightarrow> m < 10 ^ 10 \<Longrightarrow> length (dec m) = 10"
proof -
  assume m: "10 ^ 9 \<le> m" "m < 10 ^ 10"
  then have "10 ^ (length (dec m) - 1) < (10 :: nat) ^ 10" "(10 :: nat) ^ 9 < 10 ^ length (dec m)"
    using length_dec_bounds [of m] by (auto intro: le_less_trans)
  from power_less_imp_less_exp [OF _ this(1)] power_less_imp_less_exp [OF _ this(2)] show ?thesis by simp
qed

lemma read_dec_printed:
  assumes m: "10 ^ 9 \<le> m" "m < 10 ^ 10" and r: "num_end r"
  shows "read_dec (print_g10 (m, e) @ r) = Some (of_nat m * 10 powi (e - 9))"
proof -
  have dig: "\<forall>c \<in> set (dec m). is_digit c" "length (dec m) = 10" using dec_digits length_dec_10 [OF m] by auto
  have ds: "\<forall>c \<in> set (take k (dec m) @ drop k (dec m)). is_digit c" for k using dig(1) by simp
  have z: "is_digit CHR ''0''" "digit_val CHR ''0'' = 0" by (simp_all add: is_digit_def digit_val_def)
  have val: "read_digits 0 (take k (dec m) @ drop k (dec m)) = m" for k by (simp add: read_digits_dec)
  have tk: "0 < k \<Longrightarrow> take k (dec m) \<noteq> []" for k by simp
  consider (pos) "0 \<le> e" "e < 10" | (neg) "- 4 \<le> e" "e < 0" | (sci) "\<not> (- 4 \<le> e \<and> e < 10)" by linarith
  then show ?thesis
  proof cases
    case pos
    have "int (length (drop (nat e + 1) (dec m))) = 9 - e" using pos dig(2) by simp
    then show ?thesis
      using read_dec_with_point [OF ds [of "nat e + 1"] tk num_end_hd [OF r]] pos val [of "nat e + 1"] read_exp_end [OF r]
      by (simp add: print_g10_def Let_def)
  next
    case neg
    let ?fr = "replicate (nat (- e) - 1) CHR ''0'' @ dec m"
    have "\<forall>c \<in> set (''0'' @ ?fr). is_digit c" using dig z by auto
    from read_dec_with_point [OF this _ num_end_hd [OF r]]
    have "read_dec (with_point ''0'' ?fr @ r) = Some (of_nat (read_digits 0 (''0'' @ ?fr)) * 10 powi (0 - int (length ?fr)))"
      by (simp add: read_exp_end [OF r])
    moreover have "read_digits 0 (''0'' @ ?fr) = m" using read_digits_zeros [of "Suc (nat (- e) - 1)" "dec m"]
      by (simp add: read_digits_dec)
    moreover have "int (length ?fr) = 9 - e" using neg dig(2) by simp
    ultimately show ?thesis using neg by (simp add: print_g10_def Let_def)
  next
    case sci
    let ?t = "''e'' @ (if e < 0 then ''-'' else ''+'') @ zero_pad 2 (nat \<bar>e\<bar>) @ r"
    have "?t = [] \<or> \<not> is_digit (hd ?t) \<and> hd ?t \<noteq> CHR ''.''" by (simp add: is_digit_def)
    from read_dec_with_point [OF ds [of 1] tk this] read_exp_printed [OF r, of e] val [of 1] dig(2)
    have "read_dec (with_point (take 1 (dec m)) (drop 1 (dec m)) @ ?t) = Some (of_nat m * 10 powi (e - 9))"
      by simp
    moreover have "print_g10 (m, e) @ r = with_point (take 1 (dec m)) (drop 1 (dec m)) @ ?t"
      unfolding print_g10_def Let_def prod.case if_not_P [OF sci] append_assoc ..
    ultimately show ?thesis by simp
  qed
qed

lemma with_point_chars:
  "c \<in> set (with_point ip fr) \<Longrightarrow> c \<in> set ip \<or> c \<in> set fr \<or> c = CHR ''.''"
  using set_strip_zeros [of fr] by (auto simp: with_point_def Let_def split: if_splits)

lemma print_g10_chars: "c \<in> set (print_g10 (m, e)) \<Longrightarrow> is_digit c \<or> c \<in> set ''.e+-''"
proof -
  assume c: "c \<in> set (print_g10 (m, e))"
  have z: "is_digit CHR ''0''" by (simp add: is_digit_def)
  have dig: "d \<in> set (dec m) \<Longrightarrow> is_digit d" "d \<in> set (zero_pad 2 (nat \<bar>e\<bar>)) \<Longrightarrow> is_digit d" for d
    using dec_digits zero_pad_digits by blast+
  consider k where "c \<in> set (with_point (take k (dec m)) (drop k (dec m)))"
    | "c \<in> set (with_point ''0'' (replicate (nat (- e) - 1) CHR ''0'' @ dec m))"
    | "c \<in> set ''e+-''" | "c \<in> set (zero_pad 2 (nat \<bar>e\<bar>))"
    using c by (fastforce simp: print_g10_def Let_def split: if_splits)
  then show ?thesis
  proof cases
    case 1
    from with_point_chars [OF this] dig(1) show ?thesis by (auto dest: in_set_takeD in_set_dropD)
  next
    case 2
    from with_point_chars [OF this] dig(1) z show ?thesis by auto
  qed (use dig(2) in auto)
qed

lemma print_g10_hd: "10 ^ 9 \<le> m \<Longrightarrow> m < 10 ^ 10 \<Longrightarrow> print_g10 (m, e) \<noteq> [] \<and> is_digit (hd (print_g10 (m, e)))"
proof -
  assume m: "10 ^ 9 \<le> m" "m < 10 ^ 10"
  obtain d ds where d: "dec m = d # ds" "is_digit d" using dec_digits [of m] by (cases "dec m") auto
  have "is_digit CHR ''0''" by (simp add: is_digit_def)
  with d show ?thesis by (auto simp: print_g10_def with_point_def Let_def)
qed

text \<open>A text of digits, points, signs and exponents is read as a decimal number.\<close>

lemma read_unsigned_decimal:
  assumes "u \<noteq> []" "\<forall>c \<in> set u. is_digit c \<or> c \<in> set ''.e+-''" "num_end r"
  shows "read_unsigned fp (u @ r) = map_option (round_dbl fp) (read_dec (u @ r))"
proof -
  have l: "lower c \<noteq> CHR ''i'' \<and> lower c \<noteq> CHR ''n'' \<and> lower c \<noteq> CHR ''x''" if "c \<in> set (u @ take 1 r)" for c
  proof -
    have "is_digit c \<or> c \<in> set ''.e+-,}]''"
      using that assms(2,3) by (auto elim!: num_endE)
    then show ?thesis by (auto simp: lower_def is_digit_def)
  qed
  obtain c t where u: "u = c # t" using assms(1) by (cases u) auto
  have "lower d \<noteq> CHR ''x''" if "take 1 (t @ r) = [d]" for d
    using l [of d] that u by (cases t; cases r) auto
  moreover have "starts_ci ''0x'' (u @ r) \<Longrightarrow> \<exists>d. take 1 (t @ r) = [d] \<and> lower d = CHR ''x''"
    by (cases "t @ r") (auto simp: starts_ci_def u)
  ultimately have "\<not> starts_ci ''0x'' (u @ r)" by blast
  moreover have "\<not> starts_ci ''inf'' (u @ r)" "\<not> starts_ci ''nan'' (u @ r)"
    using l [of c] by (auto simp: starts_ci_def u)
  ultimately show ?thesis by (simp add: read_unsigned_def)
qed

text \<open>Reading a printed number gives the value of its ten digits, rounded to a double.\<close>

definition reread :: "fp_env \<Rightarrow> rat \<Rightarrow> dbl" where
  "reread fp x =
     (if x = 0 then round_dbl fp 0
      else let (m, e) = sig10 \<bar>x\<bar>; y = round_dbl fp (of_nat m * 10 powi (e - 9)) in if x < 0 then dneg y else y)"

lemma sig10_range:
  assumes "0 < x" "sig10 x = (m, e)"
  shows "10 ^ 9 \<le> m" "m < 10 ^ 10"
proof -
  let ?y = "x * 10 powi (9 - dec_exp x)"
  have "10 powi dec_exp x * 10 powi (9 - dec_exp x) \<le> ?y"
    using dec_exp_bounds(1) [OF assms(1)] by (intro mult_right_mono) simp_all
  moreover have "(10 :: rat) powi dec_exp x * 10 powi (9 - dec_exp x) = 10 ^ 9"
    by (subst power_int_add [symmetric]) simp_all
  ultimately have "10 ^ 9 \<le> ?y" by simp
  moreover have "\<bar>of_int (round_half_even ?y) - ?y\<bar> \<le> 1 / 2" by (rule round_half_even_near)
  ultimately have "(10 ^ 9 :: rat) - 1 < of_int (round_half_even ?y)" by linarith
  then have "10 ^ 9 \<le> round_half_even ?y" by simp
  then show "10 ^ 9 \<le> m" "m < 10 ^ 10" using assms(2) by (auto simp: sig10_def Let_def split: if_splits)
qed

lemma strtod_fmt_double:
  assumes "num_end r"
  shows "strtod fp (fmt_double (Fin x) @ r) = Some (reread fp x)"
proof (cases "x = 0")
  case True
  have "is_digit CHR ''0''" "digit_val CHR ''0'' = 0" "\<not> is_space CHR ''0''"
    by (simp_all add: is_digit_def digit_val_def is_space_def)
  moreover have "with_point ''0'' [] = ''0''" by (simp add: with_point_def strip_zeros_def)
  ultimately show ?thesis
    using True read_unsigned_decimal [of "''0''" r fp] assms read_dec_with_point [of "''0''" "[]" r] num_end_hd [OF assms]
    by (auto simp: strtod_def reread_def)
next
  case False
  obtain m e where me: "sig10 \<bar>x\<bar> = (m, e)" by fastforce
  with False have m: "10 ^ 9 \<le> m" "m < 10 ^ 10" using sig10_range [of "\<bar>x\<bar>" m e] by simp_all
  let ?u = "print_g10 (m, e)"
  have ru: "read_unsigned fp (?u @ r) = Some (round_dbl fp (of_nat m * 10 powi (e - 9)))"
    using read_unsigned_decimal [of ?u r fp] print_g10_hd [OF m] print_g10_chars [of _ m e] assms
    by (auto simp: read_dec_printed [OF m assms])
  obtain d t where u: "?u = d # t" "is_digit d" using print_g10_hd [OF m, of e] by (cases ?u) auto
  have "\<not> is_space CHR ''-''" by (simp add: is_space_def)
  with False me ru u digit_not_special [OF u(2)] show ?thesis
    by (auto simp: strtod_def reread_def)
qed

section \<open>Ten digits survive\<close>

lemma round_half_even_unique: "\<bar>z - of_int k\<bar> < 1 / 2 \<Longrightarrow> round_half_even z = k"
  using round_half_even_near [of z] by linarith

lemma sig10_close:
  assumes m: "10 ^ 9 \<le> m" "m < 10 ^ 10" and w: "\<bar>w - of_nat m\<bar> \<le> of_nat m / 2 ^ 53"
  shows "sig10 (w * 10 powi (e - 9)) = (m, e)"
proof -
  let ?x = "w * 10 powi (e - 9)"
  have mr: "(of_nat m :: rat) < 10 ^ 10" "(of_nat m :: rat) \<ge> 10 ^ 9" "(of_nat m :: rat) \<le> 10 ^ 10 - 1"
    using m by simp_all
  have small: "of_nat m / 2 ^ 53 < (1 / 20 :: rat)" using mr(1) by simp
  have hi: "w < 10 ^ 10" using w small mr(3) by (simp add: abs_if split: if_splits)
  have scale: "?x * 10 powi (9 - e) = w" "?x * 10 powi (10 - e) = 10 * w"
    by (simp_all add: mult.assoc flip: power_int_add)
  have pw: "(10 :: rat) powi e = 10 ^ 9 * 10 powi (e - 9)" "(10 :: rat) powi (e + 1) = 10 ^ 10 * 10 powi (e - 9)"
      "(10 :: rat) powi (e - 1) = 10 ^ 8 * 10 powi (e - 9)"
    using power_int_add [of "10 :: rat" 9 "e - 9"] power_int_add [of "10 :: rat" 10 "e - 9"]
      power_int_add [of "10 :: rat" 8 "e - 9"] by (simp_all add: add.commute [of e 1])
  have pos: "(0 :: rat) < 10 powi (e - 9)" by simp
  show ?thesis
  proof (cases "w \<ge> 10 ^ 9")
    case True
    then have "dec_exp ?x = e"
      using hi less_imp_le [OF pos] by (intro dec_exp_unique; unfold pw) (intro mult_right_mono mult_strict_right_mono pos; assumption)+
    moreover have "round_half_even w = int m" using w small by (intro round_half_even_unique) simp
    ultimately show ?thesis using m by (simp add: sig10_def Let_def scale)
  next
    case False
    have "w \<ge> 10 ^ 8" using w small mr(2) by (simp add: abs_if split: if_splits)
    then have "dec_exp ?x = e - 1" using False less_imp_le [OF pos]
      by (intro dec_exp_unique; unfold pw diff_add_cancel not_le)
        (intro mult_right_mono mult_strict_right_mono pos; assumption)+
    moreover have "of_nat m < (10 ^ 9 + 1 :: rat)" using w small False by (simp add: abs_if split: if_splits)
    then have m9: "m = 10 ^ 9" using m(1) by simp
    have "round_half_even (10 * w) = int (10 * m)"
      using w small by (intro round_half_even_unique) (simp add: abs_if split: if_splits)
    ultimately show ?thesis using m9 by (simp add: sig10_def Let_def scale)
  qed
qed

text \<open>A decimal number of at most ten digits, the last of them up to twenty places behind the point,
  as a double.\<close>

definition is_decimal :: "fp_env \<Rightarrow> rat \<Rightarrow> bool" where
  "is_decimal fp x \<longleftrightarrow> (\<exists>(k :: int) j. \<bar>k\<bar> < 10 ^ 10 \<and> j \<le> 20 \<and> x = fp_double fp (of_int k / 10 ^ j))"

lemma scale_to_ten:
  assumes "0 < k" "k < 10 ^ 10"
  obtains m e where "10 ^ 9 \<le> m" "m < 10 ^ 10" "of_nat k / 10 ^ j = (of_nat m * 10 powi (e - 9) :: rat)"
proof -
  let ?d = "length (dec k)"
  have d: "10 ^ (?d - 1) \<le> k" "k < 10 ^ ?d" using length_dec_bounds [OF assms(1)] by auto
  have "?d \<le> 10" using length_dec_less [OF assms(2)] by simp
  moreover have "0 < ?d" by simp
  ultimately have i: "?d + (10 - ?d) = 10" "(?d - 1) + (10 - ?d) = 9" by linarith+
  let ?i = "10 - ?d"
  have ten: "(10 :: nat) ^ (?d - 1) * 10 ^ ?i = 10 ^ 9" "(10 :: nat) ^ ?d * 10 ^ ?i = 10 ^ 10"
    by (simp_all only: i flip: power_add)
  have "10 ^ 9 \<le> k * 10 ^ ?i" "k * 10 ^ ?i < 10 ^ 10"
    using mult_le_mono1 [OF d(1), of "10 ^ ?i"] mult_less_mono1 [OF d(2), of "10 ^ ?i"] ten by (simp_all only: zero_less_power)
  moreover have "of_nat k / 10 ^ j = (of_nat (k * 10 ^ i) * 10 powi ((9 - int i - int j) - 9) :: rat)" for i
    by (simp add: power_int_diff power_int_minus_divide)
  ultimately show ?thesis by (rule that)
qed

lemma reread_positive:
  assumes fp: "fp_close fp" and k: "0 < k" "k < 10 ^ 10" "j \<le> 20" and x: "x = fp_double fp (of_nat k / 10 ^ j)"
  shows "0 < x" and "sig10 x = (m, e) \<Longrightarrow> round_dbl fp (of_nat m * 10 powi (e - 9)) = Fin x"
proof -
  let ?y = "of_nat k / 10 ^ j :: rat"
  obtain m' e' where me: "10 ^ 9 \<le> m'" "m' < 10 ^ 10" "?y = of_nat m' * 10 powi (e' - 9)" using scale_to_ten [OF k(1,2)] .
  have "(10 :: rat) ^ j \<le> 10 ^ 20" using k(3) by (rule power_increasing) simp
  then have "1 / 10 ^ 20 \<le> 1 / (10 :: rat) ^ j" by (simp add: frac_le)
  moreover have "1 / (10 :: rat) ^ j \<le> ?y" using k(1) by (simp add: divide_right_mono)
  moreover have "(1 :: rat) / 2 ^ 1022 \<le> 1 / 10 ^ 20" by simp
  ultimately have lo: "1 / 2 ^ 1022 \<le> ?y" "0 < ?y" using k(1) by (linarith, simp)
  have close: "\<bar>x - ?y\<bar> \<le> ?y / 2 ^ 53" 
    using fp [unfolded fp_close_def, rule_format, of ?y] lo unfolding x by (metis abs_of_pos)
  then show "0 < x" using lo(2) by (simp add: abs_if split: if_splits)
  let ?w = "x / 10 powi (e' - 9)"
  have xw: "x = ?w * 10 powi (e' - 9)" by simp
  have "\<bar>?w - of_nat m'\<bar> = \<bar>x - ?y\<bar> / 10 powi (e' - 9)" unfolding me(3) by (simp add: field_simps abs_divide flip: abs_mult)
  also have "\<dots> \<le> ?y / 2 ^ 53 / 10 powi (e' - 9)" using close by (rule divide_right_mono) simp
  also have "\<dots> = of_nat m' / 2 ^ 53" unfolding me(3) by simp
  finally have "sig10 x = (m', e')" using sig10_close [OF me(1,2), of ?w e'] by simp
  moreover have "?y < dbl_limit"
  proof -
    have "?y \<le> of_nat k" by (simp add: divide_le_eq mult_le_cancel_left1)
    also have "\<dots> < 10 ^ 10" using k(2) by simp
    also have "\<dots> < dbl_limit" by (simp add: dbl_limit_def)
    finally show ?thesis .
  qed
  ultimately show "round_dbl fp (of_nat m * 10 powi (e - 9)) = Fin x" if "sig10 x = (m, e)"
    using that me(3) lo(2) x by (simp add: round_dbl_def)
qed

lemma reread_decimal:
  assumes fp: "fp_close fp" "fp_doubles fp" "fp_ok fp" and x: "is_decimal fp x"
  shows "reread fp x = Fin x"
proof -
  obtain k :: int and j where k: "\<bar>k\<bar> < 10 ^ 10" "j \<le> 20" "x = fp_double fp (of_int k / 10 ^ j)"
    using x by (auto simp: is_decimal_def)
  have neg: "fp_double fp (- y) = - fp_double fp y" for y using fp(2) by (simp add: fp_doubles_def)
  obtain m e where me: "sig10 \<bar>x\<bar> = (m, e)" by fastforce
  consider "k = 0" | "k > 0" | "k < 0" by linarith
  then show ?thesis
  proof cases
    case 1
    then show ?thesis using k(3) fp(3) by (simp add: reread_def round_dbl_def dbl_limit_def)
  next
    case 2
    then have "x = fp_double fp (of_nat (nat k) / 10 ^ j)" using k(3) by simp
    from reread_positive [OF fp(1) _ _ k(2) this] 2 k(1) me show ?thesis by (simp add: reread_def nat_less_iff)
  next
    case 3
    then have "- x = fp_double fp (of_nat (nat (- k)) / 10 ^ j)" using k(3) neg [of "of_int (- k) / 10 ^ j"] by simp
    from reread_positive [OF fp(1) _ _ k(2) this] 3 k(1) me show ?thesis by (simp add: reread_def nat_less_iff)
  qed
qed

end
