(* ===== verification/Mt5_Json.thy ===== *)
theory Mt5_Json
  imports Double_Text
begin

text \<open>
  Field extraction from the flat JSON lines of the MetaTrader bridge (\<^verbatim>\<open>value_pos\<close>, \<^verbatim>\<open>esc\<close> and the
  \<^verbatim>\<open>json_get_\<close> functions of \<^verbatim>\<open>include/mt5/protocol.hpp\<close>), over \<^verbatim>\<open>std::string::find\<close> and
  \<^verbatim>\<open>std::strtoll\<close>. The search by index is shown equal to a scan of the text that remembers the last
  character that is not blank; from that, a lookup in the text of an object finds exactly the
  object's first field of that name, whatever the string values contain.
\<close>

section \<open>Searching and skipping\<close>

text \<open>\<open>s.find(pat, from)\<close>; \<^const>\<open>None\<close> is \<^verbatim>\<open>npos\<close>.\<close>

function find_str :: "string \<Rightarrow> string \<Rightarrow> nat \<Rightarrow> nat option" where
  "find_str pat s from =
     (if from + length pat \<le> length s
      then if take (length pat) (drop from s) = pat then Some from else find_str pat s (from + 1)
      else None)"
  by pat_completeness auto
termination by (relation "measure (\<lambda>(pat, s, i). Suc (length s) - i)") auto

declare find_str.simps [simp del]

lemma find_str_Some: "find_str pat s from = Some k \<Longrightarrow> from \<le> k \<and> k + length pat \<le> length s"
proof (induction pat s "from" rule: find_str.induct)
  case (1 pat s i)
  from "1.prems" "1.IH" show ?case by (subst (asm) find_str.simps) (force split: if_splits)
qed

definition blank :: "char \<Rightarrow> bool" where
  "blank c \<longleftrightarrow> c = CHR '' '' \<or> c = CHR 0x09"

text \<open>\<open>while (i < s.size() && P(s[i])) ++i\<close>, and the same backwards for blanks.\<close>

function skip_while :: "(char \<Rightarrow> bool) \<Rightarrow> string \<Rightarrow> nat \<Rightarrow> nat" where
  "skip_while P s i = (if i < length s \<and> P (s ! i) then skip_while P s (i + 1) else i)"
  by pat_completeness auto
termination by (relation "measure (\<lambda>(P, s, i). length s - i)") auto

declare skip_while.simps [simp del]

fun back_blank :: "string \<Rightarrow> nat \<Rightarrow> nat" where
  "back_blank s 0 = 0"
| "back_blank s (Suc p) = (if blank (s ! p) then back_blank s p else Suc p)"

lemma skip_while_drop:
  "i \<le> length s \<Longrightarrow> drop (skip_while P s i) s = dropWhile P (drop i s) \<and> i \<le> skip_while P s i \<and> skip_while P s i \<le> length s"
proof (induction P s i rule: skip_while.induct)
  case (1 P s i)
  show ?case
  proof (cases "i < length s")
    case True
    then have "drop i s = s ! i # drop (i + 1) s" by (simp add: Cons_nth_drop_Suc)
    with 1 True show ?thesis by (subst (1 2 3) skip_while.simps) auto
  next
    case False
    with 1 show ?thesis by (subst (1 2 3) skip_while.simps) simp
  qed
qed

section \<open>Finding the value of a key\<close>

function value_pos_loop :: "string \<Rightarrow> string \<Rightarrow> nat \<Rightarrow> nat option" where
  "value_pos_loop s pat from =
     (case find_str pat s from of
        None \<Rightarrow> None
      | Some k \<Rightarrow>
          (let p = back_blank s k;
               at_key = (p = 0 \<or> s ! (p - 1) = CHR ''{'' \<or> s ! (p - 1) = CHR '','');
               c = skip_while blank s (k + length pat)
           in if at_key \<and> c < length s \<and> s ! c = CHR '':'' then Some (skip_while blank s (c + 1))
              else value_pos_loop s pat (k + 1)))"
  by pat_completeness auto
termination
  by (relation "measure (\<lambda>(s, pat, from). Suc (length s) - from)") (auto dest: find_str_Some)

declare value_pos_loop.simps [simp del]

definition quoted :: "string \<Rightarrow> string" where
  "quoted key = CHR 0x22 # key @ [CHR 0x22]"

definition value_pos :: "string \<Rightarrow> string \<Rightarrow> nat option" where
  "value_pos s key = value_pos_loop s (quoted key) 0"

section \<open>Escapes and typed reads\<close>

fun esc :: "string \<Rightarrow> string" where
  "esc [] = []"
| "esc (c # s) =
     (if c = CHR 0x22 \<or> c = CHR 0x5C then [CHR 0x5C, c]
      else if c = CHR 0x0A then [CHR 0x5C, CHR ''n'']
      else if c = CHR 0x09 then [CHR 0x5C, CHR ''t'']
      else [c]) @ esc s"

function str_loop :: "string \<Rightarrow> nat \<Rightarrow> string \<Rightarrow> string option" where
  "str_loop s i r =
     (if i < length s
      then let ch = s ! i
           in if ch = CHR 0x5C \<and> i + 1 < length s
              then let nx = s ! (i + 1)
                   in if nx = CHR 0x22 \<or> nx = CHR 0x5C \<or> nx = CHR ''/'' then str_loop s (i + 2) (r @ [nx])
                      else if nx = CHR ''n'' then str_loop s (i + 2) (r @ [CHR 0x0A])
                      else if nx = CHR ''t'' then str_loop s (i + 2) (r @ [CHR 0x09])
                      else str_loop s (i + 1) (r @ [ch])
              else if ch = CHR 0x22 then Some r
              else str_loop s (i + 1) (r @ [ch])
      else None)"
  by pat_completeness auto
termination by (relation "measure (\<lambda>(s, i, r). length s - i)") auto

declare str_loop.simps [simp del]

definition json_get_str :: "string \<Rightarrow> string \<Rightarrow> string option" where
  "json_get_str s key =
     (case value_pos s key of
        None \<Rightarrow> None
      | Some i \<Rightarrow> if i \<ge> length s \<or> s ! i \<noteq> CHR 0x22 then None else str_loop s (i + 1) [])"

text \<open>\<open>std::strtoll(p, &end, 10)\<close>: the value, saturated at the ends of \<^verbatim>\<open>long long\<close>, and \<open>end - p\<close>.\<close>

definition strtoll :: "string \<Rightarrow> int \<times> nat" where
  "strtoll t =
     (let w = length (takeWhile is_space t); t1 = dropWhile is_space t;
          sg = (t1 \<noteq> [] \<and> (hd t1 = CHR ''-'' \<or> hd t1 = CHR ''+''));
          neg = (t1 \<noteq> [] \<and> hd t1 = CHR ''-'');
          ds = takeWhile is_digit (if sg then tl t1 else t1);
          n = int (read_digits 0 ds); v = (if neg then - n else n)
      in if ds = [] then (0, 0)
         else (max (- (2 ^ 63)) (min (2 ^ 63 - 1) v), w + (if sg then 1 else 0) + length ds))"

definition json_get_int :: "string \<Rightarrow> string \<Rightarrow> int option" where
  "json_get_int s key =
     (case value_pos s key of
        None \<Rightarrow> None
      | Some i \<Rightarrow> (let (v, n) = strtoll (drop i s) in if n = 0 then None else Some v))"

definition json_get_double :: "fp_env \<Rightarrow> string \<Rightarrow> string \<Rightarrow> dbl option" where
  "json_get_double fp s key = (case value_pos s key of None \<Rightarrow> None | Some i \<Rightarrow> strtod fp (drop i s))"

definition json_get_bool :: "string \<Rightarrow> string \<Rightarrow> bool option" where
  "json_get_bool s key =
     (case value_pos s key of
        None \<Rightarrow> None
      | Some i \<Rightarrow> if take 4 (drop i s) = ''true'' then Some True
                  else if take 5 (drop i s) = ''false'' then Some False
                  else None)"

section \<open>The search as a scan of the text\<close>

text \<open>\<open>p\<close> is the last character before the text that is not blank.\<close>

definition key_here :: "string \<Rightarrow> char option \<Rightarrow> string \<Rightarrow> bool" where
  "key_here key p t \<longleftrightarrow>
     take (length (quoted key)) t = quoted key \<and> p \<in> {None, Some CHR ''{'', Some CHR '',''} \<and>
     (\<exists>u. dropWhile blank (drop (length (quoted key)) t) = CHR '':'' # u)"

fun scan :: "string \<Rightarrow> char option \<Rightarrow> string \<Rightarrow> string option" where
  "scan key p [] = None"
| "scan key p (c # t) =
     (if key_here key p (c # t)
      then Some (dropWhile blank (tl (dropWhile blank (drop (length (quoted key)) (c # t)))))
      else scan key (if blank c then p else Some c) t)"

lemma quoted_not_Nil [simp]: "quoted key \<noteq> []" "0 < length (quoted key)"
  by (simp_all add: quoted_def)

lemma scan_short: "length t < length (quoted key) \<Longrightarrow> scan key p t = None"
proof (induction key p t rule: scan.induct)
  case (2 key p c t)
  have "take (length (quoted key)) (c # t) \<noteq> quoted key" using 2(2) by (metis length_take min.strict_order_iff nat_neq_iff)
  with 2 show ?case by (simp add: key_here_def)
qed simp

definition prev_char :: "string \<Rightarrow> nat \<Rightarrow> char option" where
  "prev_char s k = (case back_blank s k of 0 \<Rightarrow> None | Suc p \<Rightarrow> Some (s ! p))"

lemma prev_char_simps [simp]:
  "prev_char s 0 = None" "prev_char s (Suc k) = (if blank (s ! k) then prev_char s k else Some (s ! k))"
  by (simp_all add: prev_char_def)

text \<open>One step of the loop, at a match and elsewhere.\<close>

lemma value_pos_loop_step:
  assumes "from < length s"
  shows "map_option (\<lambda>i. drop i s) (value_pos_loop s (quoted key) from) =
     (if key_here key (prev_char s from) (drop from s)
      then Some (dropWhile blank (tl (dropWhile blank (drop (length (quoted key)) (drop from s)))))
      else map_option (\<lambda>i. drop i s) (value_pos_loop s (quoted key) (from + 1)))"
proof (cases "from + length (quoted key) \<le> length s \<and> take (length (quoted key)) (drop from s) = quoted key")
  case True
  let ?c = "skip_while blank s (from + length (quoted key))"
  have f: "find_str (quoted key) s from = Some from" using True by (subst find_str.simps) simp
  have c: "drop ?c s = dropWhile blank (drop (length (quoted key)) (drop from s))" "?c \<le> length s"
    using skip_while_drop [of "from + length (quoted key)" s blank] True by (simp_all add: add.commute)
  have colon: "(?c < length s \<and> s ! ?c = CHR '':'') = (\<exists>u. drop ?c s = CHR '':'' # u)"
    by (metis Cons_nth_drop_Suc drop_eq_Nil2 leI list.distinct(1) list.inject)
  have "tl (drop ?c s) = drop (?c + 1) s" by (simp add: drop_Suc tl_drop)
  then have d: "drop (skip_while blank s (?c + 1)) s = dropWhile blank (tl (drop ?c s))" if "?c < length s"
    using that skip_while_drop [of "?c + 1" s blank] by simp
  have at: "(prev_char s from \<in> {None, Some CHR ''{'', Some CHR '',''}) =
      (back_blank s from = 0 \<or> s ! (back_blank s from - 1) = CHR ''{'' \<or> s ! (back_blank s from - 1) = CHR '','')"
    by (cases "back_blank s from") (auto simp: prev_char_def)
  have "key_here key (prev_char s from) (drop from s) \<longleftrightarrow> (back_blank s from = 0 \<or> s ! (back_blank s from - 1) = CHR ''{'' \<or>
      s ! (back_blank s from - 1) = CHR '','') \<and> ?c < length s \<and> s ! ?c = CHR '':''"
    unfolding key_here_def at colon c(1) using True by auto
  then show ?thesis using d c(1) by (subst value_pos_loop.simps) (auto simp: f Let_def)
next
  case False
  have "value_pos_loop s (quoted key) from = value_pos_loop s (quoted key) (from + 1)"
  proof (cases "from + length (quoted key) \<le> length s")
    case True
    with False have "find_str (quoted key) s from = find_str (quoted key) s (from + 1)" by (subst find_str.simps) auto
    then show ?thesis by (subst (1 2) value_pos_loop.simps) simp
  next
    case False
    then have "find_str (quoted key) s from = None" "find_str (quoted key) s (from + 1) = None"
      by (subst find_str.simps, simp)+
    then show ?thesis by (subst (1 2) value_pos_loop.simps) simp
  qed
  moreover have "take (length (quoted key)) (drop from s) \<noteq> quoted key"
    using False assms by (metis Nat.le_diff_conv2 add.commute length_drop length_take less_imp_le_nat min.cobounded1)
  ultimately show ?thesis by (simp add: key_here_def)
qed

lemma value_pos_loop_scan:
  "from \<le> length s \<Longrightarrow>
   map_option (\<lambda>i. drop i s) (value_pos_loop s (quoted key) from) = scan key (prev_char s from) (drop from s)"
proof (induction "length s - from" arbitrary: "from")
  case 0
  then have "find_str (quoted key) s from = None" by (subst find_str.simps) simp
  with 0 show ?case by (subst value_pos_loop.simps) simp
next
  case (Suc n)
  then have lt: "from < length s" by simp
  then have d: "drop from s = s ! from # drop (Suc from) s" by (simp add: Cons_nth_drop_Suc)
  have "map_option (\<lambda>i. drop i s) (value_pos_loop s (quoted key) (Suc from)) =
      scan key (prev_char s (Suc from)) (drop (Suc from) s)"
    using Suc lt by (intro Suc.hyps(1)) simp_all
  then show ?case using value_pos_loop_step [OF lt, of key] unfolding d by simp
qed

lemma value_pos_scan: "map_option (\<lambda>i. drop i s) (value_pos s key) = scan key None s"
  using value_pos_loop_scan [of 0 s key] by (simp add: value_pos_def)

section \<open>Objects\<close>

text \<open>A flat object: string values, and raw values, which have no quotes.\<close>

datatype jval = JStr string | JRaw string

fun jtext :: "jval \<Rightarrow> string" where
  "jtext (JStr s) = CHR 0x22 # esc s @ [CHR 0x22]"
| "jtext (JRaw r) = r"

definition fld :: "string \<times> jval \<Rightarrow> string" where
  "fld f = quoted (fst f) @ CHR '':'' # jtext (snd f)"

fun flds :: "(string \<times> jval) list \<Rightarrow> string" where
  "flds [] = []"
| "flds [f] = fld f"
| "flds (f # g # fs) = fld f @ CHR '','' # flds (g # fs)"

definition obj :: "(string \<times> jval) list \<Rightarrow> string" where
  "obj fs = CHR ''{'' # flds fs @ ''}''"

definition good_key :: "string \<Rightarrow> bool" where
  "good_key k \<longleftrightarrow> k \<noteq> [] \<and> CHR 0x22 \<notin> set k \<and> hd k \<notin> set '',}:''"

fun good_val :: "jval \<Rightarrow> bool" where
  "good_val (JStr s) = True"
| "good_val (JRaw r) = (r \<noteq> [] \<and> CHR 0x22 \<notin> set r \<and> \<not> blank (hd r))"

definition good_obj :: "(string \<times> jval) list \<Rightarrow> bool" where
  "good_obj fs \<longleftrightarrow> (\<forall>(k, v) \<in> set fs. good_key k \<and> good_val v)"

subsection \<open>What the scan passes over\<close>

lemma key_here_quote: "key_here key p (c # t) \<Longrightarrow> c = CHR 0x22"
  by (simp add: key_here_def quoted_def)

lemma scan_no_quote: "CHR 0x22 \<notin> set u \<Longrightarrow> \<exists>p'. scan key p (u @ t) = scan key p' t"
proof (induction u arbitrary: p)
  case (Cons c u)
  then have "\<not> key_here key p (c # u @ t)" using key_here_quote by fastforce
  with Cons show ?case by auto
qed auto

lemma scan_plain: "c \<noteq> CHR 0x22 \<Longrightarrow> scan key p (c # t) = scan key (if blank c then p else Some c) t"
  using key_here_quote [of key p c t] by auto

text \<open>An opening quote of another key, the quote behind a key or a value, and a quote that is not
  preceded by a brace or a comma are not the key.\<close>

lemma scan_not_here: "\<not> key_here key p (CHR 0x22 # t) \<Longrightarrow> scan key p (CHR 0x22 # t) = scan key (Some CHR 0x22) t"
  by (simp add: blank_def)

lemma take_key_eq:
  assumes "CHR 0x22 \<notin> set a" "CHR 0x22 \<notin> set b" "take (length a + 1) (b @ CHR 0x22 # t) = a @ [CHR 0x22]"
  shows "a = b"
  using assms
proof (induction a arbitrary: b)
  case Nil
  then show ?case by (cases b) auto
next
  case (Cons x a)
  then show ?case by (cases b) auto
qed

lemma not_key_here_other:
  "good_key key \<Longrightarrow> good_key k \<Longrightarrow> k \<noteq> key \<Longrightarrow> \<not> key_here key p (CHR 0x22 # k @ CHR 0x22 # t)"
  using take_key_eq [of key k t] by (auto simp: key_here_def quoted_def good_key_def)

lemma not_key_here_closing:
  "good_key key \<Longrightarrow> c \<in> set '',}:'' \<Longrightarrow> \<not> key_here key p (CHR 0x22 # c # t)"
  by (cases key) (auto simp: key_here_def quoted_def good_key_def)

lemma not_key_here_prev:
  "p \<in> {Some CHR '':'', Some CHR 0x5C} \<Longrightarrow> \<not> key_here key p t"
  by (auto simp: key_here_def)

lemma scan_esc: "\<exists>p'. scan key p (esc s @ t) = scan key p' t"
proof (induction s arbitrary: p)
  case (Cons c s)
  have "\<exists>p'. scan key p (CHR 0x5C # d # esc s @ t) = scan key p' (esc s @ t)" for d
    using not_key_here_prev [of "Some CHR 0x5C" key "d # esc s @ t"]
    by (subst scan_plain) (auto simp: blank_def)
  moreover have "\<exists>p'. scan key p (c # esc s @ t) = scan key p' (esc s @ t)" if "c \<noteq> CHR 0x22"
    using that scan_plain by blast
  ultimately show ?case using Cons by (auto simp del: scan.simps) (metis Cons)+
qed auto

lemma scan_value:
  assumes key: "good_key key" and v: "good_val v" and c: "c \<in> set '',}''"
  shows "scan key (Some CHR '':'') (jtext v @ c # t) = scan key (Some c) t"
proof (cases v)
  case (JStr s)
  obtain p' where p': "scan key (Some CHR 0x22) (esc s @ CHR 0x22 # c # t) = scan key p' (CHR 0x22 # c # t)"
    using scan_esc by blast
  have "scan key (Some CHR '':'') (jtext v @ c # t) = scan key (Some CHR 0x22) (esc s @ CHR 0x22 # c # t)"
    using not_key_here_prev [of "Some CHR '':''" key] JStr by (simp add: scan_not_here del: scan.simps)
  also have "\<dots> = scan key (Some CHR 0x22) (c # t)"
    unfolding p' using not_key_here_closing [OF key, of c] c by (intro scan_not_here) auto
  also have "\<dots> = scan key (Some c) t" using c by (subst scan_plain) (auto simp: blank_def)
  finally show ?thesis .
next
  case (JRaw r)
  then obtain p' where "scan key (Some CHR '':'') (r @ c # t) = scan key p' (c # t)" using v scan_no_quote by fastforce
  also have "\<dots> = scan key (Some c) t" using c by (subst scan_plain) (auto simp: blank_def)
  finally show ?thesis using JRaw by simp
qed

lemma scan_skip_field:
  assumes "good_key key" "good_key k" "k \<noteq> key" "good_val v" "c \<in> set '',}''"
  shows "scan key p (fld (k, v) @ c # t) = scan key (Some c) t"
proof -
  have "CHR 0x22 \<notin> set k" using assms(2) by (simp add: good_key_def)
  then obtain p' where p': "scan key (Some CHR 0x22) (k @ CHR 0x22 # CHR '':'' # jtext v @ c # t) =
      scan key p' (CHR 0x22 # CHR '':'' # jtext v @ c # t)" using scan_no_quote by blast
  have "scan key p (fld (k, v) @ c # t) = scan key (Some CHR 0x22) (k @ CHR 0x22 # CHR '':'' # jtext v @ c # t)"
    using not_key_here_other [OF assms(1,2,3)] by (simp add: fld_def quoted_def scan_not_here del: scan.simps)
  also have "\<dots> = scan key (Some CHR 0x22) (CHR '':'' # jtext v @ c # t)"
    unfolding p' using not_key_here_closing [OF assms(1), of "CHR '':''"] by (intro scan_not_here) auto
  also have "\<dots> = scan key (Some CHR '':'') (jtext v @ c # t)" by (subst scan_plain) (auto simp: blank_def)
  also have "\<dots> = scan key (Some c) t" by (rule scan_value [OF assms(1,4,5)])
  finally show ?thesis .
qed

lemma scan_hit:
  assumes "good_val v" "p \<in> {None, Some CHR ''{'', Some CHR '',''}"
  shows "scan key p (fld (key, v) @ t) = Some (jtext v @ t)"
proof -
  have b: "dropWhile blank (jtext v @ t) = jtext v @ t" using assms(1) by (cases v; cases "jtext v") (auto simp: blank_def)
  have "key_here key p (fld (key, v) @ t)"
    using assms(2) by (auto simp: key_here_def fld_def blank_def)
  then show ?thesis using b by (cases "fld (key, v) @ t") (auto simp: fld_def blank_def quoted_def)
qed

text \<open>A lookup finds the value of the first field of that name, and what follows it.\<close>

lemma scan_flds:
  "good_obj fs \<Longrightarrow> good_key key \<Longrightarrow> map_of fs key = Some v \<Longrightarrow> p \<in> {None, Some CHR ''{'', Some CHR '',''} \<Longrightarrow>
   \<exists>c t'. scan key p (flds fs @ CHR ''}'' # t) = Some (jtext v @ c # t') \<and> c \<in> set '',}''"
proof (induction fs arbitrary: p rule: flds.induct)
  case (2 f)
  then show ?case by (cases f) (auto simp: good_obj_def scan_hit split: if_splits)
next
  case (3 f g fs)
  obtain k w where f: "f = (k, w)" by fastforce
  show ?case
  proof (cases "k = key")
    case True
    with 3 f show ?thesis by (auto simp: good_obj_def scan_hit)
  next
    case False
    then have "map_of (g # fs) key = Some v" using 3(4) f by simp
    from "3.IH" [OF _ 3(3) this, of "Some CHR '',''"] 3(2) show ?thesis
      using scan_skip_field [OF 3(3) _ False, of w "CHR '',''" p] f by (auto simp: good_obj_def)
  qed
qed simp

lemma value_pos_obj:
  assumes "good_obj fs" "good_key key" "map_of fs key = Some v"
  obtains i c t' where "value_pos (obj fs @ t) key = Some i" "drop i (obj fs @ t) = jtext v @ c # t'" "c \<in> set '',}''"
proof -
  have "scan key None (obj fs @ t) = scan key (Some CHR ''{'') (flds fs @ CHR ''}'' # t)"
    by (simp add: obj_def scan_plain blank_def del: scan.simps)
  with scan_flds [OF assms, of "Some CHR ''{''" t] value_pos_scan [of "obj fs @ t" key] that show ?thesis
    by (auto simp: map_option_case split: option.splits)
qed

section \<open>Typed lookups in an object\<close>

lemma esc_cases:
  "(\<exists>d. esc (c # x) = CHR 0x5C # d # esc x \<and>
       (d \<in> {CHR 0x22, CHR 0x5C} \<and> c = d \<or> d = CHR ''n'' \<and> c = CHR 0x0A \<or> d = CHR ''t'' \<and> c = CHR 0x09)) \<or>
   esc (c # x) = c # esc x \<and> c \<noteq> CHR 0x22 \<and> c \<noteq> CHR 0x5C"
  by simp

lemma str_loop_esc: "str_loop (pre @ esc x @ CHR 0x22 # t) (length pre) r = Some (r @ x)"
proof (induction x arbitrary: pre r)
  case Nil
  show ?case by (subst str_loop.simps) simp
next
  case (Cons c x)
  have nth: "(pre @ a # b # u) ! Suc (length pre) = b" for a b :: char and u by (simp add: nth_append)
  consider (esc) d where "esc (c # x) = CHR 0x5C # d # esc x"
      "d \<in> {CHR 0x22, CHR 0x5C} \<and> c = d \<or> d = CHR ''n'' \<and> c = CHR 0x0A \<or> d = CHR ''t'' \<and> c = CHR 0x09"
    | (plain) "esc (c # x) = c # esc x" "c \<noteq> CHR 0x22" "c \<noteq> CHR 0x5C"
    using esc_cases [of c x] by blast
  then show ?case
  proof cases
    case (esc d)
    have "str_loop (pre @ esc (c # x) @ CHR 0x22 # t) (length pre) r =
        str_loop ((pre @ [CHR 0x5C, d]) @ esc x @ CHR 0x22 # t) (length (pre @ [CHR 0x5C, d])) (r @ [c])"
      using esc by (subst str_loop.simps) (auto simp: nth Let_def)
    then show ?thesis using Cons [of "pre @ [CHR 0x5C, d]" "r @ [c]"] by simp
  next
    case plain
    then have "str_loop (pre @ esc (c # x) @ CHR 0x22 # t) (length pre) r =
        str_loop ((pre @ [c]) @ esc x @ CHR 0x22 # t) (length (pre @ [c])) (r @ [c])"
      by (subst str_loop.simps) simp
    then show ?thesis using Cons [of "pre @ [c]" "r @ [c]"] by simp
  qed
qed

lemma json_get_str_obj:
  assumes "good_obj fs" "good_key key" "map_of fs key = Some (JStr x)"
  shows "json_get_str (obj fs @ t) key = Some x"
proof -
  obtain s where s_def: "s = obj fs @ t" by simp
  let ?s = s
  obtain i c t' where i: "value_pos ?s key = Some i" "drop i ?s = CHR 0x22 # esc x @ CHR 0x22 # c # t'"
    using value_pos_obj [OF assms, of t] unfolding s_def by (metis append.assoc append_Cons append_Nil jtext.simps(1))
  have lt: "i < length ?s" using i(2) by (metis drop_eq_Nil leI list.distinct(1))
  then have s: "take i ?s @ CHR 0x22 # esc x @ CHR 0x22 # c # t' = ?s" "length (take i ?s) = i" "?s ! i = CHR 0x22"
    using append_take_drop_id [of i ?s] Cons_nth_drop_Suc [OF lt] unfolding i(2) by auto
  have "str_loop ?s (i + 1) [] = Some x"
    using str_loop_esc [of "take i ?s @ [CHR 0x22]" x "c # t'" "[]"] s(1,2) by simp
  then show ?thesis using i(1) lt s(3) unfolding s_def by (simp add: json_get_str_def)
qed

text \<open>Numbers end at a comma, a brace or a bracket.\<close>

lemma strtoll_digits:
  assumes "\<forall>c \<in> set u. is_digit c" "u \<noteq> []" "num_end r"
  shows "strtoll (u @ r) = (min (2 ^ 63 - 1) (int (read_digits 0 u)), length u)"
    and "strtoll (CHR ''-'' # u @ r) = (max (- (2 ^ 63)) (- int (read_digits 0 u)), Suc (length u))"
proof -
  have r: "takeWhile is_digit r = []" using num_end_hd [OF assms(3)] by (cases r) auto
  have tw: "takeWhile is_digit (u @ r) = u" using assms(1) r by (simp add: takeWhile_append2)
  obtain c u' where u: "u = c # u'" "is_digit c" using assms(1,2) by (cases u) auto
  note c = digit_not_special [OF u(2)]
  show "strtoll (u @ r) = (min (2 ^ 63 - 1) (int (read_digits 0 u)), length u)"
    using tw c unfolding u by (simp add: strtoll_def Let_def min_def max_def)
  have "\<not> is_space CHR ''-''" by (simp add: is_space_def)
  then show "strtoll (CHR ''-'' # u @ r) = (max (- (2 ^ 63)) (- int (read_digits 0 u)), Suc (length u))"
    using tw assms(2) by (simp add: strtoll_def Let_def min_def max_def)
qed

lemma strtoll_to_string:
  assumes "num_end r"
  shows "strtoll (to_string n @ r) = (max (- (2 ^ 63)) (min (2 ^ 63 - 1) n), length (to_string n))"
  using strtoll_digits [OF dec_digits dec_not_Nil assms] by (auto simp: to_string_def read_digits_dec min_def max_def)

lemma num_end_hit: "c \<in> set '',}'' \<Longrightarrow> num_end (c # t)"
  by auto

lemma json_get_int_obj:
  assumes "good_obj fs" "good_key key" "map_of fs key = Some (JRaw (to_string n))"
  shows "json_get_int (obj fs @ t) key = Some (max (- (2 ^ 63)) (min (2 ^ 63 - 1) n))"
proof -
  obtain i c t' where i: "value_pos (obj fs @ t) key = Some i" "drop i (obj fs @ t) = jtext (JRaw (to_string n)) @ c # t'" "c \<in> set '',}''"
    using value_pos_obj [OF assms, of t] .
  have "to_string n \<noteq> []" by (simp add: to_string_def)
  with i strtoll_to_string [OF num_end_hit [OF i(3)], of n t'] show ?thesis by (simp add: json_get_int_def)
qed

lemma json_get_double_obj:
  assumes "good_obj fs" "good_key key" "map_of fs key = Some (JRaw (fmt_double (Fin x)))"
  shows "json_get_double fp (obj fs @ t) key = Some (reread fp x)"
proof -
  obtain i c t' where i: "value_pos (obj fs @ t) key = Some i"
      "drop i (obj fs @ t) = jtext (JRaw (fmt_double (Fin x))) @ c # t'" "c \<in> set '',}''"
    using value_pos_obj [OF assms, of t] .
  with strtod_fmt_double [OF num_end_hit [OF i(3)], of fp x t'] show ?thesis
    by (simp only: json_get_double_def option.case jtext.simps)
qed

lemma json_get_bool_obj:
  assumes "good_obj fs" "good_key key" "map_of fs key = Some (JRaw (if b then ''true'' else ''false''))"
  shows "json_get_bool (obj fs @ t) key = Some b"
  by (rule value_pos_obj [OF assms, of t]) (auto simp: json_get_bool_def)

text \<open>Printed numbers are raw values.\<close>

lemma good_val_to_string [simp]: "good_val (JRaw (to_string n))"
proof -
  have "to_string n \<noteq> []" by (simp add: to_string_def)
  moreover have "\<forall>c \<in> set (to_string n). c \<noteq> CHR 0x22 \<and> \<not> blank c"
    using to_string_chars [of _ n] by (fastforce simp: is_digit_def blank_def)
  ultimately show ?thesis by auto
qed

lemma good_val_bool [simp]: "good_val (JRaw (if b then ''true'' else ''false''))"
  by (simp add: blank_def)

lemma good_val_fmt_double [simp]: "good_val (JRaw (fmt_double (Fin x)))"
proof (cases "x = 0")
  case False
  obtain m e where me: "sig10 \<bar>x\<bar> = (m, e)" by fastforce
  with False have m: "10 ^ 9 \<le> m" "m < 10 ^ 10" using sig10_range [of "\<bar>x\<bar>" m e] by simp_all
  have "\<forall>c \<in> set (print_g10 (m, e)). c \<noteq> CHR 0x22 \<and> \<not> blank c"
    using print_g10_chars [of _ m e] by (fastforce simp: is_digit_def blank_def)
  with False me print_g10_hd [OF m, of e] show ?thesis by (auto simp: blank_def)
qed (simp add: blank_def)

end
