(* ===== verification/Mt5_Protocol.thy ===== *)
theory Mt5_Protocol
  imports Mt5_Json
begin

text \<open>
  The messages of the MetaTrader bridge protocol (\<^verbatim>\<open>include/mt5/protocol.hpp\<close>): one flat JSON object
  per line, its encoders and parsers. A parser takes the object it fills in, as the code's
  reference parameters do: fields that a line lacks keep their value.
\<close>

section \<open>Messages\<close>

definition kProtocolVersion :: int where "kProtocolVersion = 1"

datatype MsgKind =
  K_Unknown | K_Hello | K_Subscribe | K_Tick | K_Order | K_Ack | K_Nop | K_Bye | K_Heartbeat | K_Depth | K_Signal

record Tick =
  tk_symbol :: string
  tk_time :: u64
  tk_bid :: dbl
  tk_ask :: dbl
  tk_last :: dbl
  tk_volume :: u64

definition Tick_init :: Tick where
  "Tick_init = \<lparr>tk_symbol = [], tk_time = 0, tk_bid = Fin 0, tk_ask = Fin 0, tk_last = Fin 0, tk_volume = 0\<rparr>"

record mt5_order =
  mo_id :: u64
  mo_symbol :: string
  mo_side :: Side
  mo_volume :: dbl
  mo_price :: dbl
  mo_kind :: string

definition mt5_order_init :: mt5_order where
  "mt5_order_init = \<lparr>mo_id = 0, mo_symbol = [], mo_side = Side_None, mo_volume = Fin 0, mo_price = Fin 0, mo_kind = ''market''\<rparr>"

record Ack =
  ak_id :: u64
  ak_ok :: bool
  ak_retcode :: int
  ak_message :: string

definition Ack_init :: Ack where
  "Ack_init = \<lparr>ak_id = 0, ak_ok = False, ak_retcode = 0, ak_message = []\<rparr>"

definition kind_of :: "string \<Rightarrow> MsgKind" where
  "kind_of line =
     (case json_get_str line ''t'' of
        None \<Rightarrow> K_Unknown
      | Some t \<Rightarrow>
          if t = ''hello'' then K_Hello
          else if t = ''subscribe'' then K_Subscribe
          else if t = ''tick'' then K_Tick
          else if t = ''order'' then K_Order
          else if t = ''ack'' then K_Ack
          else if t = ''nop'' then K_Nop
          else if t = ''bye'' then K_Bye
          else if t = ''heartbeat'' then K_Heartbeat
          else if t = ''depth'' then K_Depth
          else if t = ''signal'' then K_Signal
          else K_Unknown)"

section \<open>Encoders\<close>

text \<open>The pieces of the string literals: a quote, a key with its colon, a quoted string value, and
  the end of a line.\<close>

definition dq :: string where "dq = [CHR 0x22]"

definition ky :: "string \<Rightarrow> string" where
  "ky k = dq @ k @ dq @ '':''"

definition sv :: "string \<Rightarrow> string" where
  "sv s = dq @ esc s @ dq"

definition eol :: string where "eol = ''}'' @ [CHR 0x0A]"

definition u64_string :: "u64 \<Rightarrow> string" where
  "u64_string n = to_string (uint n)"

definition encode_hello :: "string \<Rightarrow> u64 \<Rightarrow> string" where
  "encode_hello client account =
     ''{'' @ ky ''t'' @ dq @ ''hello'' @ dq @ '','' @ ky ''v'' @ to_string kProtocolVersion @
     '','' @ ky ''client'' @ sv client @ '','' @ ky ''account'' @ u64_string account @ eol"

definition encode_hello_reply :: "string \<Rightarrow> bool \<Rightarrow> string" where
  "encode_hello_reply server ok =
     ''{'' @ ky ''t'' @ dq @ ''hello'' @ dq @ '','' @ ky ''v'' @ to_string kProtocolVersion @
     '','' @ ky ''server'' @ sv server @ '','' @ ky ''ok'' @ (if ok then ''true'' else ''false'') @ eol"

definition encode_subscribe :: "string \<Rightarrow> string" where
  "encode_subscribe symbol =
     ''{'' @ ky ''t'' @ dq @ ''subscribe'' @ dq @ '','' @ ky ''v'' @ to_string kProtocolVersion @
     '','' @ ky ''symbol'' @ sv symbol @ eol"

definition encode_tick :: "Tick \<Rightarrow> string" where
  "encode_tick t =
     ''{'' @ ky ''t'' @ dq @ ''tick'' @ dq @ '','' @ ky ''v'' @ to_string kProtocolVersion @
     '','' @ ky ''symbol'' @ sv (tk_symbol t) @
     '','' @ ky ''time'' @ u64_string (tk_time t) @
     '','' @ ky ''bid'' @ fmt_double (tk_bid t) @
     '','' @ ky ''ask'' @ fmt_double (tk_ask t) @
     '','' @ ky ''last'' @ fmt_double (tk_last t) @
     '','' @ ky ''volume'' @ u64_string (tk_volume t) @ eol"

definition encode_order :: "mt5_order \<Rightarrow> string" where
  "encode_order o1 =
     ''{'' @ ky ''t'' @ dq @ ''order'' @ dq @ '','' @ ky ''v'' @ to_string kProtocolVersion @
     '','' @ ky ''id'' @ u64_string (mo_id o1) @
     '','' @ ky ''symbol'' @ sv (mo_symbol o1) @
     '','' @ ky ''side'' @ dq @ (if mo_side o1 = Buy then ''B'' else ''S'') @ dq @
     '','' @ ky ''volume'' @ fmt_double (mo_volume o1) @
     '','' @ ky ''price'' @ fmt_double (mo_price o1) @
     '','' @ ky ''kind'' @ sv (mo_kind o1) @ eol"

definition encode_ack :: "Ack \<Rightarrow> string" where
  "encode_ack a =
     ''{'' @ ky ''t'' @ dq @ ''ack'' @ dq @ '','' @ ky ''v'' @ to_string kProtocolVersion @
     '','' @ ky ''id'' @ u64_string (ak_id a) @
     '','' @ ky ''ok'' @ (if ak_ok a then ''true'' else ''false'') @
     '','' @ ky ''retcode'' @ to_string (ak_retcode a) @
     '','' @ ky ''message'' @ sv (ak_message a) @ eol"

definition encode_nop :: string where
  "encode_nop = ''{'' @ ky ''t'' @ dq @ ''nop'' @ dq @ '','' @ ky ''v'' @ ''1'' @ eol"

definition encode_bye :: string where
  "encode_bye = ''{'' @ ky ''t'' @ dq @ ''bye'' @ dq @ '','' @ ky ''v'' @ ''1'' @ eol"

definition encode_heartbeat :: "u64 \<Rightarrow> string" where
  "encode_heartbeat tm =
     ''{'' @ ky ''t'' @ dq @ ''heartbeat'' @ dq @ '','' @ ky ''v'' @ ''1'' @ '','' @ ky ''time'' @ u64_string tm @ eol"

text \<open>The loop over the levels of one side, from index \<open>i\<close> on.\<close>

fun ladder_text :: "nat \<Rightarrow> (Price \<times> Qty) list \<Rightarrow> string" where
  "ladder_text i [] = []"
| "ladder_text i ((p, n) # ls) =
     (if i \<noteq> 0 then '','' else []) @ ''['' @ to_string p @ '','' @ to_string (uint n) @ '']'' @ ladder_text (i + 1) ls"

definition encode_depth :: "string \<Rightarrow> (Price \<times> Qty) list \<Rightarrow> (Price \<times> Qty) list \<Rightarrow> string" where
  "encode_depth symbol bids asks =
     ''{'' @ ky ''t'' @ dq @ ''depth'' @ dq @ '','' @ ky ''v'' @ to_string kProtocolVersion @
     '','' @ ky ''symbol'' @ sv symbol @ '','' @ ky ''bids'' @ ''['' @ ladder_text 0 bids @
     ''],'' @ ky ''asks'' @ ''['' @ ladder_text 0 asks @ '']'' @ eol"

definition encode_signal :: "string \<Rightarrow> dbl \<Rightarrow> dbl \<Rightarrow> dbl \<Rightarrow> dbl \<Rightarrow> string" where
  "encode_signal symbol mid microprice imbalance spread_bps =
     ''{'' @ ky ''t'' @ dq @ ''signal'' @ dq @ '','' @ ky ''v'' @ to_string kProtocolVersion @
     '','' @ ky ''symbol'' @ sv symbol @
     '','' @ ky ''mid'' @ fmt_double mid @
     '','' @ ky ''microprice'' @ fmt_double microprice @
     '','' @ ky ''imbalance'' @ fmt_double imbalance @
     '','' @ ky ''spread_bps'' @ fmt_double spread_bps @ eol"

section \<open>Parsers\<close>

text \<open>An optional field: what was read, or the value it had.\<close>

definition or_keep :: "'a option \<Rightarrow> 'a \<Rightarrow> 'a" where
  "or_keep r old = (case r of Some v \<Rightarrow> v | None \<Rightarrow> old)"

lemma or_keep_simps [simp]: "or_keep (Some v) old = v" "or_keep None old = old"
  by (simp_all add: or_keep_def)

definition parse_tick :: "fp_env \<Rightarrow> string \<Rightarrow> Tick \<Rightarrow> bool \<times> Tick" where
  "parse_tick fp line out =
     (case json_get_str line ''symbol'' of
        None \<Rightarrow> (False, out)
      | Some sy \<Rightarrow>
          (let out = out\<lparr>tk_symbol := sy\<rparr>
           in case json_get_double fp line ''bid'' of
                None \<Rightarrow> (False, out)
              | Some b \<Rightarrow>
                  (let out = out\<lparr>tk_bid := b\<rparr>
                   in case json_get_double fp line ''ask'' of
                        None \<Rightarrow> (False, out)
                      | Some a \<Rightarrow>
                          (True, out\<lparr>tk_ask := a,
                             tk_last := or_keep (json_get_double fp line ''last'') (tk_last out),
                             tk_time := or_keep (map_option of_int (json_get_int line ''time'')) (tk_time out),
                             tk_volume := or_keep (map_option of_int (json_get_int line ''volume'')) (tk_volume out)\<rparr>))))"

definition parse_order :: "fp_env \<Rightarrow> string \<Rightarrow> mt5_order \<Rightarrow> bool \<times> mt5_order" where
  "parse_order fp line out =
     (case json_get_int line ''id'' of
        None \<Rightarrow> (False, out)
      | Some i \<Rightarrow>
          (let out = out\<lparr>mo_id := of_int i\<rparr>
           in case json_get_str line ''symbol'' of
                None \<Rightarrow> (False, out)
              | Some sy \<Rightarrow>
                  (let out = out\<lparr>mo_symbol := sy\<rparr>
                   in case json_get_str line ''side'' of
                        None \<Rightarrow> (False, out)
                      | Some side \<Rightarrow>
                          if side = [] then (False, out)
                          else (True, out\<lparr>mo_side := (if hd side = CHR ''B'' then Buy else Sell),
                             mo_volume := or_keep (json_get_double fp line ''volume'') (mo_volume out),
                             mo_price := or_keep (json_get_double fp line ''price'') (mo_price out),
                             mo_kind := or_keep (json_get_str line ''kind'') (mo_kind out)\<rparr>))))"

text \<open>\<open>static_cast<int>\<close> of a \<^verbatim>\<open>long long\<close>.\<close>

definition to_int32 :: "int \<Rightarrow> int" where
  "to_int32 n = sint (of_int n :: 32 word)"

definition parse_ack :: "string \<Rightarrow> Ack \<Rightarrow> bool \<times> Ack" where
  "parse_ack line out =
     (case json_get_int line ''id'' of
        None \<Rightarrow> (False, out)
      | Some i \<Rightarrow>
          (True, out\<lparr>ak_id := of_int i,
             ak_ok := or_keep (json_get_bool line ''ok'') (ak_ok out),
             ak_retcode := or_keep (map_option to_int32 (json_get_int line ''retcode'')) (ak_retcode out),
             ak_message := or_keep (json_get_str line ''message'') (ak_message out)\<rparr>))"

lemma skip_while_ge: "i \<le> skip_while P s i"
proof (induction P s i rule: skip_while.induct)
  case (1 P s i)
  then show ?case by (subst skip_while.simps) (auto intro: Suc_leD)
qed

function levels_loop :: "string \<Rightarrow> nat \<Rightarrow> (Price \<times> Qty) list \<Rightarrow> bool \<times> (Price \<times> Qty) list" where
  "levels_loop line i out =
     (if i < length line \<and> line ! i \<noteq> CHR '']''
      then if line ! i \<noteq> CHR ''['' then levels_loop line (i + 1) out
           else let (p, n) = strtoll (drop (i + 1) line)
                in if n = 0 then (False, out)
                   else let j = skip_while (\<lambda>c. c = CHR '','' \<or> c = CHR '' '') line (i + 1 + n);
                            (v, n2) = strtoll (drop j line)
                        in if n2 = 0 then (False, out)
                           else let k = skip_while (\<lambda>c. c \<noteq> CHR '']'') line (j + n2);
                                    k = (if k < length line then k + 1 else k)
                                in levels_loop line k (out @ [(p, of_int v)])
      else (True, out))"
  by pat_completeness auto
termination
proof (relation "measure (\<lambda>(line, i, out). length line - i)", goal_cases)
  case (3 line i out x p n j y v n2 k k')
  have "i + 1 + n \<le> j" "j + n2 \<le> k" using 3 skip_while_ge by auto
  then have "i < k'" using 3 by (auto split: if_splits)
  with 3 show ?case by auto
qed auto

declare levels_loop.simps [simp del]

definition parse_levels :: "string \<Rightarrow> string \<Rightarrow> (Price \<times> Qty) list \<Rightarrow> bool \<times> (Price \<times> Qty) list" where
  "parse_levels line key out =
     (case value_pos line key of
        None \<Rightarrow> (False, out)
      | Some i \<Rightarrow> if i \<ge> length line \<or> line ! i \<noteq> CHR ''['' then (False, out) else levels_loop line (i + 1) [])"

type_synonym depth_msg = "string \<times> (Price \<times> Qty) list \<times> (Price \<times> Qty) list"

definition parse_depth :: "string \<Rightarrow> depth_msg \<Rightarrow> bool \<times> depth_msg" where
  "parse_depth line = (\<lambda>(symbol, bids, asks).
     case json_get_str line ''symbol'' of
       None \<Rightarrow> (False, symbol, bids, asks)
     | Some sy \<Rightarrow> (True, sy, snd (parse_levels line ''bids'' bids), snd (parse_levels line ''asks'' asks)))"

type_synonym signal_msg = "string \<times> dbl \<times> dbl \<times> dbl \<times> dbl"

definition parse_signal :: "fp_env \<Rightarrow> string \<Rightarrow> signal_msg \<Rightarrow> bool \<times> signal_msg" where
  "parse_signal fp line = (\<lambda>(symbol, mid, microprice, imbalance, spread_bps).
     case json_get_str line ''symbol'' of
       None \<Rightarrow> (False, symbol, mid, microprice, imbalance, spread_bps)
     | Some sy \<Rightarrow> (True, sy, or_keep (json_get_double fp line ''mid'') mid,
                   or_keep (json_get_double fp line ''microprice'') microprice,
                   or_keep (json_get_double fp line ''imbalance'') imbalance,
                   or_keep (json_get_double fp line ''spread_bps'') spread_bps))"

section \<open>Lines are objects\<close>

lemmas line_defs = dq_def ky_def sv_def eol_def obj_def fld_def quoted_def kProtocolVersion_def u64_string_def

lemma encode_tick_obj:
  "encode_tick t = obj [(''t'', JStr ''tick''), (''v'', JRaw (to_string 1)), (''symbol'', JStr (tk_symbol t)),
     (''time'', JRaw (to_string (uint (tk_time t)))), (''bid'', JRaw (fmt_double (tk_bid t))),
     (''ask'', JRaw (fmt_double (tk_ask t))), (''last'', JRaw (fmt_double (tk_last t))),
     (''volume'', JRaw (to_string (uint (tk_volume t))))] @ [CHR 0x0A]"
  by (simp add: encode_tick_def line_defs)

lemma encode_order_obj:
  "encode_order o1 = obj [(''t'', JStr ''order''), (''v'', JRaw (to_string 1)), (''id'', JRaw (to_string (uint (mo_id o1)))),
     (''symbol'', JStr (mo_symbol o1)), (''side'', JStr (if mo_side o1 = Buy then ''B'' else ''S'')),
     (''volume'', JRaw (fmt_double (mo_volume o1))), (''price'', JRaw (fmt_double (mo_price o1))),
     (''kind'', JStr (mo_kind o1))] @ [CHR 0x0A]"
  by (simp add: encode_order_def line_defs)

lemma encode_ack_obj:
  "encode_ack a = obj [(''t'', JStr ''ack''), (''v'', JRaw (to_string 1)), (''id'', JRaw (to_string (uint (ak_id a)))),
     (''ok'', JRaw (if ak_ok a then ''true'' else ''false'')), (''retcode'', JRaw (to_string (ak_retcode a))),
     (''message'', JStr (ak_message a))] @ [CHR 0x0A]"
  by (simp add: encode_ack_def line_defs)

lemma encode_depth_obj:
  "encode_depth sy bs as = obj [(''t'', JStr ''depth''), (''v'', JRaw (to_string 1)), (''symbol'', JStr sy),
     (''bids'', JRaw (''['' @ ladder_text 0 bs @ '']'')), (''asks'', JRaw (''['' @ ladder_text 0 as @ '']''))] @ [CHR 0x0A]"
  by (simp add: encode_depth_def line_defs)

lemma encode_signal_obj:
  "encode_signal sy a b c d = obj [(''t'', JStr ''signal''), (''v'', JRaw (to_string 1)), (''symbol'', JStr sy),
     (''mid'', JRaw (fmt_double a)), (''microprice'', JRaw (fmt_double b)), (''imbalance'', JRaw (fmt_double c)),
     (''spread_bps'', JRaw (fmt_double d))] @ [CHR 0x0A]"
  by (simp add: encode_signal_def line_defs)

lemma to_string_1: "to_string 1 = ''1''"
  by (simp add: to_string_def dec.simps digit_def char_of_def bit_iff_odd)

lemma encode_short_obj:
  "encode_nop = obj [(''t'', JStr ''nop''), (''v'', JRaw (to_string 1))] @ [CHR 0x0A]"
  "encode_bye = obj [(''t'', JStr ''bye''), (''v'', JRaw (to_string 1))] @ [CHR 0x0A]"
  "encode_heartbeat tm = obj [(''t'', JStr ''heartbeat''), (''v'', JRaw (to_string 1)), (''time'', JRaw (to_string (uint tm)))] @ [CHR 0x0A]"
  "encode_subscribe sy = obj [(''t'', JStr ''subscribe''), (''v'', JRaw (to_string 1)), (''symbol'', JStr sy)] @ [CHR 0x0A]"
  "encode_hello cl ac = obj [(''t'', JStr ''hello''), (''v'', JRaw (to_string 1)), (''client'', JStr cl),
     (''account'', JRaw (to_string (uint ac)))] @ [CHR 0x0A]"
  "encode_hello_reply sr ok = obj [(''t'', JStr ''hello''), (''v'', JRaw (to_string 1)), (''server'', JStr sr),
     (''ok'', JRaw (if ok then ''true'' else ''false''))] @ [CHR 0x0A]"
  by (simp_all add: encode_nop_def encode_bye_def encode_heartbeat_def encode_subscribe_def encode_hello_def
      encode_hello_reply_def line_defs to_string_1)

text \<open>A line has no newline but its last character.\<close>

definition nl_free :: "string \<Rightarrow> bool" where
  "nl_free s \<longleftrightarrow> CHR 0x0A \<notin> set s"

lemma nl_free_simps [simp]:
  "nl_free []" "nl_free (c # s) \<longleftrightarrow> c \<noteq> CHR 0x0A \<and> nl_free s" "nl_free (s @ t) \<longleftrightarrow> nl_free s \<and> nl_free t"
  by (auto simp: nl_free_def)

lemma nl_free_esc [simp]: "nl_free (esc s)"
  by (induction s) simp_all

lemma nl_free_to_string [simp]: "nl_free (to_string n)"
  using to_string_chars [of _ n] by (fastforce simp: nl_free_def is_digit_def)

lemma nl_free_fmt_double [simp]: "nl_free (fmt_double d)"
proof (cases d)
  case (Fin x)
  obtain m e where "sig10 \<bar>x\<bar> = (m, e)" by fastforce
  moreover have "nl_free (print_g10 (m, e))"
    using print_g10_chars [of _ m e] by (fastforce simp: nl_free_def is_digit_def)
  ultimately show ?thesis using Fin by simp
qed simp_all

lemma nl_free_ladder_text [simp]: "nl_free (ladder_text i ls)"
  by (induction i ls rule: ladder_text.induct) simp_all

lemma nl_free_obj: "\<forall>(k, v) \<in> set fs. nl_free k \<and> nl_free (jtext v) \<Longrightarrow> nl_free (obj fs)"
proof -
  assume "\<forall>(k, v) \<in> set fs. nl_free k \<and> nl_free (jtext v)"
  then have "nl_free (flds fs)" by (induction fs rule: flds.induct) (auto simp: fld_def quoted_def)
  then show ?thesis by (simp add: obj_def)
qed

section \<open>Round trips\<close>

lemmas lookup_rules = json_get_str_obj json_get_int_obj json_get_double_obj json_get_bool_obj

lemma good_obj_simps [simp]:
  "good_obj []" "good_obj ((k, v) # fs) \<longleftrightarrow> good_key k \<and> good_val v \<and> good_obj fs"
  by (simp_all add: good_obj_def)

lemma good_keys [simp]:
  "good_key ''t''" "good_key ''v''" "good_key ''symbol''" "good_key ''time''" "good_key ''bid''" "good_key ''ask''"
  "good_key ''last''" "good_key ''volume''" "good_key ''id''" "good_key ''side''" "good_key ''price''" "good_key ''kind''"
  "good_key ''ok''" "good_key ''retcode''" "good_key ''message''" "good_key ''bids''" "good_key ''asks''"
  "good_key ''mid''" "good_key ''microprice''" "good_key ''imbalance''" "good_key ''spread_bps''"
  "good_key ''client''" "good_key ''account''" "good_key ''server''"
  by (simp_all add: good_key_def)

definition decimal_dbl :: "fp_env \<Rightarrow> dbl \<Rightarrow> bool" where
  "decimal_dbl fp d \<longleftrightarrow> (\<exists>x. d = Fin x \<and> is_decimal fp x)"

definition fp_nearest :: "fp_env \<Rightarrow> bool" where
  "fp_nearest fp \<longleftrightarrow> fp_ok fp \<and> fp_doubles fp \<and> fp_close fp"

lemma clamp_u64: "uint (n :: u64) < 2 ^ 63 \<Longrightarrow> max (- (2 ^ 63)) (min (2 ^ 63 - 1) (uint n)) = uint n"
proof -
  assume "uint n < 2 ^ 63"
  moreover have "0 \<le> uint n" by simp
  ultimately show ?thesis by linarith
qed

lemma kind_of_obj:
  "good_obj ((''t'', JStr k) # fs) \<Longrightarrow> kind_of (obj ((''t'', JStr k) # fs) @ t) =
     (if k = ''hello'' then K_Hello else if k = ''subscribe'' then K_Subscribe else if k = ''tick'' then K_Tick
      else if k = ''order'' then K_Order else if k = ''ack'' then K_Ack else if k = ''nop'' then K_Nop
      else if k = ''bye'' then K_Bye else if k = ''heartbeat'' then K_Heartbeat else if k = ''depth'' then K_Depth
      else if k = ''signal'' then K_Signal else K_Unknown)"
  unfolding kind_of_def by (subst json_get_str_obj) auto

lemma tick_roundtrip:
  assumes "fp_nearest fp" "decimal_dbl fp (tk_bid t)" "decimal_dbl fp (tk_ask t)" "decimal_dbl fp (tk_last t)"
    and "uint (tk_time t) < 2 ^ 63" "uint (tk_volume t) < 2 ^ 63" and "encode_tick t = line @ [CHR 0x0A]"
  shows "nl_free line" "kind_of line = K_Tick" "parse_tick fp line out = (True, t)"
proof -
  obtain b a l where ds: "tk_bid t = Fin b" "tk_ask t = Fin a" "tk_last t = Fin l"
      "reread fp b = Fin b" "reread fp a = Fin a" "reread fp l = Fin l"
    using assms(1-4) by (auto simp: decimal_dbl_def fp_nearest_def reread_decimal)
  let ?fs = "[(''t'', JStr ''tick''), (''v'', JRaw (to_string 1)), (''symbol'', JStr (tk_symbol t)),
     (''time'', JRaw (to_string (uint (tk_time t)))), (''bid'', JRaw (fmt_double (tk_bid t))),
     (''ask'', JRaw (fmt_double (tk_ask t))), (''last'', JRaw (fmt_double (tk_last t))),
     (''volume'', JRaw (to_string (uint (tk_volume t))))]"
  have line: "line = obj ?fs @ []" using assms(7) by (simp add: encode_tick_obj)
  have good: "good_obj ?fs" by (simp add: ds del: good_val.simps(2) fmt_double_simps)
  show "nl_free line" unfolding line append_Nil2 by (rule nl_free_obj) (simp del: fmt_double_simps)
  show "kind_of line = K_Tick" using kind_of_obj [OF good, of "[]"] line by simp
  have "json_get_str line ''symbol'' = Some (tk_symbol t)"
    "json_get_double fp line ''bid'' = Some (reread fp b)" "json_get_double fp line ''ask'' = Some (reread fp a)"
    "json_get_double fp line ''last'' = Some (reread fp l)"
    "json_get_int line ''time'' = Some (max (- (2 ^ 63)) (min (2 ^ 63 - 1) (uint (tk_time t))))"
    "json_get_int line ''volume'' = Some (max (- (2 ^ 63)) (min (2 ^ 63 - 1) (uint (tk_volume t))))"
    unfolding line by (rule lookup_rules [OF good]; simp add: ds del: fmt_double_simps)+
  then show "parse_tick fp line out = (True, t)"
    by (simp only: clamp_u64 assms(5,6) ds) (simp add: parse_tick_def ds)
qed

lemma order_roundtrip:
  assumes "fp_nearest fp" "decimal_dbl fp (mo_volume o1)" "decimal_dbl fp (mo_price o1)"
    and "mo_side o1 \<in> {Buy, Sell}" "uint (mo_id o1) < 2 ^ 63" and "encode_order o1 = line @ [CHR 0x0A]"
  shows "nl_free line" "kind_of line = K_Order" "parse_order fp line out = (True, o1)"
proof -
  obtain v p where ds: "mo_volume o1 = Fin v" "mo_price o1 = Fin p" "reread fp v = Fin v" "reread fp p = Fin p"
    using assms(1-3) by (auto simp: decimal_dbl_def fp_nearest_def reread_decimal)
  let ?fs = "[(''t'', JStr ''order''), (''v'', JRaw (to_string 1)), (''id'', JRaw (to_string (uint (mo_id o1)))),
     (''symbol'', JStr (mo_symbol o1)), (''side'', JStr (if mo_side o1 = Buy then ''B'' else ''S'')),
     (''volume'', JRaw (fmt_double (mo_volume o1))), (''price'', JRaw (fmt_double (mo_price o1))),
     (''kind'', JStr (mo_kind o1))]"
  have line: "line = obj ?fs @ []" using assms(6) by (simp add: encode_order_obj)
  have good: "good_obj ?fs" by (simp add: ds del: good_val.simps(2) fmt_double_simps)
  show "nl_free line" unfolding line append_Nil2 by (rule nl_free_obj) (simp del: fmt_double_simps)
  show "kind_of line = K_Order" using kind_of_obj [OF good, of "[]"] line by simp
  have "json_get_int line ''id'' = Some (max (- (2 ^ 63)) (min (2 ^ 63 - 1) (uint (mo_id o1))))"
    "json_get_str line ''symbol'' = Some (mo_symbol o1)" "json_get_str line ''side'' = Some (if mo_side o1 = Buy then ''B'' else ''S'')"
    "json_get_double fp line ''volume'' = Some (reread fp v)" "json_get_double fp line ''price'' = Some (reread fp p)"
    "json_get_str line ''kind'' = Some (mo_kind o1)"
    unfolding line by (rule lookup_rules [OF good]; simp add: ds del: fmt_double_simps)+
  then show "parse_order fp line out = (True, o1)"
    using assms(4) by (simp only: clamp_u64 assms(5) ds) (auto simp: parse_order_def ds)
qed

lemma to_int32_id: "- (2 ^ 31) \<le> n \<Longrightarrow> n < 2 ^ 31 \<Longrightarrow> to_int32 n = n"
  by (simp add: to_int32_def sint_sbintrunc' signed_take_bit_int_eq_self)

lemma ack_roundtrip:
  assumes "uint (ak_id a) < 2 ^ 63" "- (2 ^ 31) \<le> ak_retcode a" "ak_retcode a < 2 ^ 31" and "encode_ack a = line @ [CHR 0x0A]"
  shows "nl_free line" "kind_of line = K_Ack" "parse_ack line out = (True, a)"
proof -
  let ?fs = "[(''t'', JStr ''ack''), (''v'', JRaw (to_string 1)), (''id'', JRaw (to_string (uint (ak_id a)))),
     (''ok'', JRaw (if ak_ok a then ''true'' else ''false'')), (''retcode'', JRaw (to_string (ak_retcode a))),
     (''message'', JStr (ak_message a))]"
  have line: "line = obj ?fs @ []" using assms(4) by (simp add: encode_ack_obj)
  have good: "good_obj ?fs" by (simp del: good_val.simps(2))
  show "nl_free line" unfolding line append_Nil2 by (rule nl_free_obj) simp
  show "kind_of line = K_Ack" using kind_of_obj [OF good, of "[]"] line by simp
  have "json_get_int line ''id'' = Some (max (- (2 ^ 63)) (min (2 ^ 63 - 1) (uint (ak_id a))))"
    "json_get_bool line ''ok'' = Some (ak_ok a)"
    "json_get_int line ''retcode'' = Some (max (- (2 ^ 63)) (min (2 ^ 63 - 1) (ak_retcode a)))"
    "json_get_str line ''message'' = Some (ak_message a)"
    unfolding line by (rule lookup_rules [OF good]; simp)+
  moreover have "max (- (2 ^ 63)) (min (2 ^ 63 - 1) (ak_retcode a)) = ak_retcode a"
    using assms(2,3) by (simp add: min_def max_def)
  ultimately show "parse_ack line out = (True, a)"
    by (simp only: clamp_u64 assms(1)) (simp add: parse_ack_def to_int32_id [OF assms(2,3)])
qed

lemma signal_roundtrip:
  assumes "encode_signal sy (Fin a) (Fin b) (Fin c) (Fin d) = line @ [CHR 0x0A]"
  shows "nl_free line" "kind_of line = K_Signal"
    "parse_signal fp line out = (True, sy, reread fp a, reread fp b, reread fp c, reread fp d)"
proof -
  let ?fs = "[(''t'', JStr ''signal''), (''v'', JRaw (to_string 1)), (''symbol'', JStr sy),
     (''mid'', JRaw (fmt_double (Fin a))), (''microprice'', JRaw (fmt_double (Fin b))), (''imbalance'', JRaw (fmt_double (Fin c))),
     (''spread_bps'', JRaw (fmt_double (Fin d)))]"
  have line: "line = obj ?fs @ []" using assms by (simp add: encode_signal_obj del: fmt_double_simps)
  have good: "good_obj ?fs" by (simp del: good_val.simps(2) fmt_double_simps)
  show "nl_free line" unfolding line append_Nil2 by (rule nl_free_obj) (simp del: fmt_double_simps)
  show "kind_of line = K_Signal" using kind_of_obj [OF good, of "[]"] line by simp
  have "json_get_str line ''symbol'' = Some sy" "json_get_double fp line ''mid'' = Some (reread fp a)"
    "json_get_double fp line ''microprice'' = Some (reread fp b)" "json_get_double fp line ''imbalance'' = Some (reread fp c)"
    "json_get_double fp line ''spread_bps'' = Some (reread fp d)"
    unfolding line by (rule lookup_rules [OF good]; simp del: fmt_double_simps)+
  then show "parse_signal fp line out = (True, sy, reread fp a, reread fp b, reread fp c, reread fp d)"
    by (simp add: parse_signal_def case_prod_beta)
qed

section \<open>Depth ladders\<close>

lemma skip_while_at:
  "\<forall>c \<in> set u. P c \<Longrightarrow> v = [] \<or> \<not> P (hd v) \<Longrightarrow> skip_while P (pre @ u @ v) (length pre) = length pre + length u"
proof (induction u arbitrary: pre)
  case Nil
  then show ?case by (subst skip_while.simps) (auto simp: nth_append hd_conv_nth)
next
  case (Cons x u)
  then have "skip_while P ((pre @ [x]) @ u @ v) (length (pre @ [x])) = length (pre @ [x]) + length u" by (intro Cons.IH) simp_all
  with Cons.prems show ?case by (subst skip_while.simps) simp
qed

lemma to_string_hd: "to_string (uint (n :: Qty)) \<noteq> [] \<and> is_digit (hd (to_string (uint n)))"
  using dec_digits [of "nat (uint n)"] by (cases "dec (nat (uint n))") (auto simp: to_string_def)

definition fits_ll :: "int \<Rightarrow> bool" where
  "fits_ll p \<longleftrightarrow> - (2 ^ 63) \<le> p \<and> p < 2 ^ 63"

lemma strtoll_fits: "fits_ll p \<Longrightarrow> num_end r \<Longrightarrow> strtoll (to_string p @ r) = (p, length (to_string p))"
  using strtoll_to_string [of r p] by (simp add: fits_ll_def min_def max_def)

lemma strtoll_qty: "num_end r \<Longrightarrow> strtoll (to_string (uint (n :: Qty)) @ r) = (uint n, length (to_string (uint n)))"
proof -
  have "fits_ll (uint n)"
    using uint_lt2p [of n] order_trans [of "- (2 ^ 63)" 0 "uint n"] by (simp add: fits_ll_def)
  then show "num_end r \<Longrightarrow> ?thesis" by (rule strtoll_fits)
qed

text \<open>One pair of a ladder.\<close>

lemma levels_loop_pair:
  fixes n :: Qty
  assumes "fits_ll p"
  defines "u \<equiv> ''['' @ to_string p @ '','' @ to_string (uint n) @ '']''"
  shows "levels_loop (pre @ u @ t) (length pre) out = levels_loop (pre @ u @ t) (length (pre @ u)) (out @ [(p, n)])"
proof -
  let ?P = "to_string p" and ?N = "to_string (uint n)"
  let ?line = "pre @ u @ t"
  have d1: "drop (length pre + 1) ?line = ?P @ CHR '','' # ?N @ CHR '']'' # t" by (simp add: u_def)
  then have s1: "strtoll (drop (length pre + 1) ?line) = (p, length ?P)" using strtoll_fits [OF assms(1)] by simp
  have "skip_while (\<lambda>c. c = CHR '','' \<or> c = CHR '' '') ((pre @ ''['' @ ?P) @ '','' @ (?N @ CHR '']'' # t)) (length (pre @ ''['' @ ?P)) =
      length (pre @ ''['' @ ?P) + length '',''"
    using to_string_hd [of n] by (intro skip_while_at) (auto simp: is_digit_def)
  then have j: "skip_while (\<lambda>c. c = CHR '','' \<or> c = CHR '' '') ?line (length pre + 1 + length ?P) = length pre + length ?P + 2"
    by (simp add: u_def)
  have "drop (length pre + length ?P + 2) ?line = ?N @ CHR '']'' # t" by (simp add: u_def)
  then have s2: "strtoll (drop (length pre + length ?P + 2) ?line) = (uint n, length ?N)" using strtoll_qty by simp
  have "skip_while (\<lambda>c. c \<noteq> CHR '']'') ((pre @ ''['' @ ?P @ '','' @ ?N) @ [] @ CHR '']'' # t) (length (pre @ ''['' @ ?P @ '','' @ ?N)) =
      length (pre @ ''['' @ ?P @ '','' @ ?N) + length ([] :: string)"
    by (intro skip_while_at) simp_all
  then have k: "skip_while (\<lambda>c. c \<noteq> CHR '']'') ?line (length pre + length ?P + 2 + length ?N) = length pre + length ?P + 2 + length ?N"
    by (simp add: u_def add.assoc)
  have ne: "length ?P \<noteq> 0" "length ?N \<noteq> 0" "?line ! length pre = CHR ''[''" "length pre < length ?line"
      "length pre + length ?P + 2 + length ?N < length ?line" "length (pre @ u) = length pre + length ?P + 2 + length ?N + 1"
    using to_string_hd [of n] by (simp_all add: to_string_def u_def nth_append)
  have "CHR ''['' \<noteq> CHR '']''" by simp
  then show ?thesis
    by (subst levels_loop.simps) (simp only: s1 s2 j k ne Let_def prod.case if_True if_False simp_thms word_of_int_uint ucast_id)
qed

lemma levels_loop_ladder:
  "\<forall>(p, n) \<in> set ls. fits_ll p \<Longrightarrow>
   levels_loop (pre @ ladder_text i ls @ CHR '']'' # t) (length pre) out = (True, out @ ls)"
proof (induction i ls arbitrary: pre out rule: ladder_text.induct)
  case (1 i)
  show ?case by (subst levels_loop.simps) simp
next
  case (2 i p n ls)
  let ?u = "''['' @ to_string p @ '','' @ to_string (uint n) @ '']''"
  let ?t = "ladder_text (i + 1) ls @ CHR '']'' # t"
  have p: "fits_ll p" using "2.prems" by simp
  have step: "levels_loop (pr @ ?u @ ?t) (length pr) out = (True, out @ (p, n) # ls)" for pr
    using levels_loop_pair [OF p, of pr n ?t out] "2.IH" [of "pr @ ?u" "out @ [(p, n)]"] "2.prems" by simp
  show ?case
  proof (cases "i = 0")
    case True
    then show ?thesis using step [of pre] by simp
  next
    case False
    then have "levels_loop (pre @ ladder_text i ((p, n) # ls) @ CHR '']'' # t) (length pre) out =
        levels_loop ((pre @ '','') @ ?u @ ?t) (length (pre @ '','')) out"
      by (subst levels_loop.simps) simp
    then show ?thesis using step [of "pre @ '',''"] by simp
  qed
qed

lemma parse_levels_obj:
  assumes "good_obj fs" "good_key key" "map_of fs key = Some (JRaw (''['' @ ladder_text 0 ls @ '']''))"
    and ls: "\<forall>(p, n) \<in> set ls. fits_ll p"
  shows "parse_levels (obj fs @ t) key out = (True, ls)"
proof -
  obtain s where s: "s = obj fs @ t" by simp
  obtain i c t' where i: "value_pos s key = Some i" "drop i s = CHR ''['' # ladder_text 0 ls @ CHR '']'' # c # t'"
    using value_pos_obj [OF assms(1-3), of t] unfolding s by (metis append.assoc append_Cons append_Nil jtext.simps(2))
  have lt: "i < length s" using i(2) by (metis drop_eq_Nil leI list.distinct(1))
  have s': "take i s @ CHR ''['' # ladder_text 0 ls @ CHR '']'' # c # t' = s" "length (take i s) = i" "s ! i = CHR ''[''"
    using lt append_take_drop_id [of i s] Cons_nth_drop_Suc [OF lt] unfolding i(2) by auto
  have "levels_loop s (i + 1) [] = (True, ls)"
    using levels_loop_ladder [OF ls, of "take i s @ ''[''" 0 "c # t'" "[]"] s'(1,2) by simp
  then show ?thesis unfolding s [symmetric] using i(1) lt s'(3) by (simp add: parse_levels_def)
qed

lemma ladder_text_no_quote: "CHR 0x22 \<notin> set (ladder_text i ls)"
proof (induction i ls rule: ladder_text.induct)
  case (2 i p n ls)
  have "CHR 0x22 \<notin> set (to_string k)" for k using to_string_chars [of "CHR 0x22" k] by (auto simp: is_digit_def)
  with 2 show ?case by auto
qed simp

section \<open>Properties\<close>

text \<open>C30. Trading messages round trip: a tick, order or acknowledgement whose numbers are decimals of
  at most ten digits and whose ids fit 63 bits is encoded as one line, recognised as its kind, and
  parsed to itself, whatever its strings contain: quotes, backslashes, newlines, or text that looks
  like another field.\<close>

theorem mt5_messages_roundtrip:
  assumes "fp_nearest fp"
  shows "(decimal_dbl fp (tk_bid t) \<and> decimal_dbl fp (tk_ask t) \<and> decimal_dbl fp (tk_last t) \<and>
            uint (tk_time t) < 2 ^ 63 \<and> uint (tk_volume t) < 2 ^ 63 \<and> encode_tick t = l1 @ [CHR 0x0A] \<longrightarrow>
            nl_free l1 \<and> kind_of l1 = K_Tick \<and> parse_tick fp l1 t' = (True, t)) \<and>
         (decimal_dbl fp (mo_volume o1) \<and> decimal_dbl fp (mo_price o1) \<and> mo_side o1 \<in> {Buy, Sell} \<and>
            uint (mo_id o1) < 2 ^ 63 \<and> encode_order o1 = l2 @ [CHR 0x0A] \<longrightarrow>
            nl_free l2 \<and> kind_of l2 = K_Order \<and> parse_order fp l2 o' = (True, o1)) \<and>
         (uint (ak_id a) < 2 ^ 63 \<and> - (2 ^ 31) \<le> ak_retcode a \<and> ak_retcode a < 2 ^ 31 \<and> encode_ack a = l3 @ [CHR 0x0A] \<longrightarrow>
            nl_free l3 \<and> kind_of l3 = K_Ack \<and> parse_ack l3 a' = (True, a))"
  by (intro conjI impI; elim conjE)
    (rule tick_roundtrip [OF assms] order_roundtrip [OF assms] ack_roundtrip; assumption)+

text \<open>The witness's strings are hostile: the symbol contains a fake field.\<close>

lemma fp_exact_nearest [simp]: "fp_nearest fp_exact"
  by (simp add: fp_nearest_def)

lemma is_decimal_exact: "\<bar>k\<bar> < 10 ^ 10 \<Longrightarrow> j \<le> 20 \<Longrightarrow> decimal_dbl fp_exact (Fin (of_int k / 10 ^ j))"
  by (auto simp: decimal_dbl_def is_decimal_def)

theorem mt5_messages_roundtrip_witness:
  "parse_ack (butlast (encode_ack \<lparr>ak_id = 7, ak_ok = True, ak_retcode = 10009,
       ak_message = '','' @ [CHR 0x22] @ ''id'' @ [CHR 0x22] @ '':8''\<rparr>)) Ack_init =
     (True, \<lparr>ak_id = 7, ak_ok = True, ak_retcode = 10009, ak_message = '','' @ [CHR 0x22] @ ''id'' @ [CHR 0x22] @ '':8''\<rparr>) \<and>
   parse_tick fp_exact (butlast (encode_tick (Tick_init\<lparr>tk_symbol := ''EURUSD'', tk_bid := Fin (of_int 10842 / 10 ^ 4)\<rparr>))) Tick_init =
     (True, Tick_init\<lparr>tk_symbol := ''EURUSD'', tk_bid := Fin (of_int 10842 / 10 ^ 4)\<rparr>)"
proof -
  let ?a = "\<lparr>ak_id = 7, ak_ok = True, ak_retcode = 10009, ak_message = '','' @ [CHR 0x22] @ ''id'' @ [CHR 0x22] @ '':8''\<rparr>"
  let ?t = "Tick_init\<lparr>tk_symbol := ''EURUSD'', tk_bid := Fin (of_int 10842 / 10 ^ 4)\<rparr>"
  have a: "encode_ack ?a = butlast (encode_ack ?a) @ [CHR 0x0A]" unfolding encode_ack_obj by simp
  have t: "encode_tick ?t = butlast (encode_tick ?t) @ [CHR 0x0A]" unfolding encode_tick_obj by simp
  have d: "decimal_dbl fp_exact (tk_bid ?t)" "decimal_dbl fp_exact (tk_ask ?t)" "decimal_dbl fp_exact (tk_last ?t)"
    using is_decimal_exact [of 10842 4] is_decimal_exact [of 0 0] by (simp_all add: Tick_init_def)
  have u: "uint (tk_time ?t) < 2 ^ 63" "uint (tk_volume ?t) < 2 ^ 63" "uint (ak_id ?a) < 2 ^ 63"
    "- (2 ^ 31) \<le> ak_retcode ?a" "ak_retcode ?a < 2 ^ 31"
    by (simp_all add: Tick_init_def)
  note r = mt5_messages_roundtrip [OF fp_exact_nearest, of ?t "butlast (encode_tick ?t)" Tick_init undefined undefined undefined
      ?a "butlast (encode_ack ?a)" Ack_init]
  show ?thesis
    using r [THEN conjunct1, rule_format, OF conjI [OF d(1) conjI [OF d(2) conjI [OF d(3) conjI [OF u(1) conjI [OF u(2) t]]]]]]
      r [THEN conjunct2, THEN conjunct2, rule_format, OF conjI [OF u(3) conjI [OF u(4) conjI [OF u(5) a]]]]
    by blast
qed

text \<open>Depth snapshots round trip: a published ladder, however long, with any symbol and any
  64-bit prices and 32-bit sizes, is one line of kind \<open>depth\<close> whose parse gives the symbol and both
  sides level by level.\<close>

theorem depth_roundtrip:
  assumes "encode_depth sy bids asks = line @ [CHR 0x0A]" and "\<forall>(p, n) \<in> set (bids @ asks). fits_ll p"
  shows "nl_free line \<and> kind_of line = K_Depth \<and> parse_depth line out = (True, sy, bids, asks)"
proof -
  let ?fs = "[(''t'', JStr ''depth''), (''v'', JRaw (to_string 1)), (''symbol'', JStr sy),
     (''bids'', JRaw (''['' @ ladder_text 0 bids @ '']'')), (''asks'', JRaw (''['' @ ladder_text 0 asks @ '']''))]"
  have line: "line = obj ?fs @ []" using assms by (simp add: encode_depth_obj)
  have good: "good_obj ?fs" using good_val_to_string [of 1] by (simp add: ladder_text_no_quote blank_def del: good_val_to_string)
  have "nl_free line" unfolding line append_Nil2 by (rule nl_free_obj) simp
  moreover have "kind_of line = K_Depth" using kind_of_obj [OF good, of "[]"] line by simp
  moreover have "json_get_str line ''symbol'' = Some sy" unfolding line by (rule json_get_str_obj [OF good]) simp_all
  moreover have "parse_levels line ''bids'' bs = (True, bids)" "parse_levels line ''asks'' bs = (True, asks)" for bs
    unfolding line by (rule parse_levels_obj [OF good]; use assms(2) in simp)+
  ultimately show ?thesis by (simp add: parse_depth_def case_prod_beta)
qed

theorem depth_roundtrip_witness:
  "snd (parse_depth (butlast (encode_depth ''SYN'' [(1000000, 5), (- 3, 7)] [])) ([], [], [(1, 1)])) =
     (''SYN'', [(1000000, 5), (- 3, 7)], [])"
proof -
  have "encode_depth ''SYN'' [(1000000, 5), (- 3, 7)] [] =
      butlast (encode_depth ''SYN'' [(1000000, 5), (- 3, 7)] []) @ [CHR 0x0A]"
    unfolding encode_depth_obj by simp
  from depth_roundtrip [OF this, of "([], [], [(1, 1)])"] show ?thesis by (simp add: fits_ll_def)
qed

section \<open>Where the protocol loses numbers\<close>

text \<open>Ids, times and volumes are written as 64-bit unsigned numbers but read with \<^verbatim>\<open>strtoll\<close>: from
  \<open>2 ^ 63\<close> on they all become \<open>2 ^ 63 - 1\<close>, so that distinct orders get the same correlation id.\<close>

lemma large_ids_collide:
  assumes "encode_ack a = line @ [CHR 0x0A]" "2 ^ 63 \<le> uint (ak_id a)"
  shows "ak_id (snd (parse_ack line out)) = 2 ^ 63 - 1"
proof -
  let ?fs = "[(''t'', JStr ''ack''), (''v'', JRaw (to_string 1)), (''id'', JRaw (to_string (uint (ak_id a)))),
     (''ok'', JRaw (if ak_ok a then ''true'' else ''false'')), (''retcode'', JRaw (to_string (ak_retcode a))),
     (''message'', JStr (ak_message a))]"
  have line: "line = obj ?fs @ []" using assms(1) by (simp add: encode_ack_obj)
  have good: "good_obj ?fs" by (simp del: good_val.simps(2))
  have "json_get_int line ''id'' = Some (max (- (2 ^ 63)) (min (2 ^ 63 - 1) (uint (ak_id a))))"
    unfolding line by (rule json_get_int_obj [OF good]) simp_all
  then have "json_get_int line ''id'' = Some (2 ^ 63 - 1)" using assms(2) by (simp add: min_def)
  then show ?thesis by (simp add: parse_ack_def)
qed

end
