(* ===== verification/Mt5_Bridge.thy ===== *)
theory Mt5_Bridge
  imports Mt5_Protocol Line_Socket Metrics
begin

text \<open>
  The bridge session: the example strategy (\<^verbatim>\<open>include/mt5/strategy.hpp\<close>), the server's loop and the
  two publishers (\<^verbatim>\<open>include/mt5/server.hpp\<close>). The loop is shown to refine a session over lines,
  whatever chunks they arrive in, and the session over encoded ticks to answer each of them with
  exactly one line. Counters are natural numbers.
\<close>

section \<open>The example strategy\<close>

record ExampleStrategy =
  es_prev_mid :: dbl
  es_primed :: bool
  es_step :: dbl
  es_lots :: dbl

definition strategy_new :: "dbl \<Rightarrow> dbl \<Rightarrow> ExampleStrategy" where
  "strategy_new step lots = \<lparr>es_prev_mid = Fin 0, es_primed = False, es_step = step, es_lots = lots\<rparr>"

definition make_order :: "ExampleStrategy \<Rightarrow> string \<Rightarrow> Side \<Rightarrow> mt5_order" where
  "make_order st symbol side =
     mt5_order_init\<lparr>mo_symbol := symbol, mo_side := side, mo_volume := es_lots st, mo_price := Fin 0, mo_kind := ''market''\<rparr>"

text \<open>The order \<open>on_tick\<close> fills in, when it fires.\<close>

definition on_tick :: "fp_env \<Rightarrow> ExampleStrategy \<Rightarrow> Tick \<Rightarrow> mt5_order option \<times> ExampleStrategy" where
  "on_tick fp st t =
     (let mid = dhalf fp (dadd fp (tk_bid t) (tk_ask t));
          out = (if es_primed st
                 then if dge (dsub fp mid (es_prev_mid st)) (es_step st) then Some (make_order st (tk_symbol t) Buy)
                      else if dge (dsub fp (es_prev_mid st) mid) (es_step st) then Some (make_order st (tk_symbol t) Sell)
                      else None
                 else None)
      in (out, st\<lparr>es_prev_mid := mid, es_primed := True\<rparr>))"

section \<open>The server\<close>

record BridgeStats =
  st_ticks :: nat
  st_orders :: nat
  st_acks :: nat
  st_nops :: nat

definition BridgeStats_init :: BridgeStats where
  "BridgeStats_init = \<lparr>st_ticks = 0, st_orders = 0, st_acks = 0, st_nops = 0\<rparr>"

text \<open>The variables of \<open>run_bridge\<close> and the strategy's state.\<close>

record 's bridge =
  br_stats :: BridgeStats
  br_next_id :: u64
  br_idle :: int
  br_strat :: 's

definition bridge_new :: "'s \<Rightarrow> 's bridge" where
  "bridge_new strat = \<lparr>br_stats = BridgeStats_init, br_next_id = 1, br_idle = 0, br_strat = strat\<rparr>"

text \<open>The case for a tick. The results of the sends are not looked at.\<close>

definition bridge_tick ::
  "fp_env \<Rightarrow> ('s \<Rightarrow> Tick \<Rightarrow> mt5_order option \<times> 's) \<Rightarrow> string \<Rightarrow> 's bridge \<Rightarrow> line_socket \<Rightarrow> 's bridge \<times> line_socket" where
  "bridge_tick fp ont line b sock =
     (let (ok, t) = parse_tick fp line Tick_init
      in if \<not> ok then (b, sock)
         else let b = b\<lparr>br_stats := (br_stats b)\<lparr>st_ticks := st_ticks (br_stats b) + 1\<rparr>\<rparr>;
                  (fire, strat) = ont (br_strat b) t;
                  b = b\<lparr>br_strat := strat\<rparr>
              in case fire of
                   Some ord \<Rightarrow>
                     (let ord = ord\<lparr>mo_id := br_next_id b\<rparr>;
                          b = b\<lparr>br_next_id := br_next_id b + 1\<rparr>;
                          (_, sock) = send_line (encode_order ord) sock
                      in (b\<lparr>br_stats := (br_stats b)\<lparr>st_orders := st_orders (br_stats b) + 1\<rparr>\<rparr>, sock))
                 | None \<Rightarrow>
                     (let (_, sock) = send_line encode_nop sock
                      in (b\<lparr>br_stats := (br_stats b)\<lparr>st_nops := st_nops (br_stats b) + 1\<rparr>\<rparr>, sock)))"

definition bridge_line ::
  "fp_env \<Rightarrow> ('s \<Rightarrow> Tick \<Rightarrow> mt5_order option \<times> 's) \<Rightarrow> string \<Rightarrow> 's bridge \<Rightarrow> line_socket \<Rightarrow> 's bridge \<times> line_socket" where
  "bridge_line fp ont line b sock =
     (case kind_of line of
        K_Hello \<Rightarrow> (b, snd (send_line (encode_hello_reply ''mt5d'' True) sock))
      | K_Tick \<Rightarrow> bridge_tick fp ont line b sock
      | K_Ack \<Rightarrow> (b\<lparr>br_stats := (br_stats b)\<lparr>st_acks := st_acks (br_stats b) + 1\<rparr>\<rparr>, sock)
      | _ \<Rightarrow> (b, sock))"

lemma send_line_pending: "pending (snd (send_line d s)) = pending s" "timeouts (snd (send_line d s)) = timeouts s"
  by (simp_all add: send_line_def pending_def timeouts_def case_prod_beta Let_def)

lemma bridge_line_pending:
  "pending (snd (bridge_line fp ont line b s)) = pending s" "timeouts (snd (bridge_line fp ont line b s)) = timeouts s"
  by (auto simp: bridge_line_def bridge_tick_def Let_def case_prod_beta send_line_pending
      split: MsgKind.splits option.splits if_splits)

function bridge_loop ::
  "fp_env \<Rightarrow> ('s \<Rightarrow> Tick \<Rightarrow> mt5_order option \<times> 's) \<Rightarrow> int \<Rightarrow> 's bridge \<Rightarrow> line_socket \<Rightarrow> 's bridge \<times> line_socket" where
  "bridge_loop fp ont max_idle b sock =
     (case recv_line sock of
        (None, sock') \<Rightarrow>
          if ls_timed_out sock' \<and> max_idle > 0
          then let b = b\<lparr>br_idle := br_idle b + 1\<rparr>
               in if br_idle b \<ge> max_idle then (b, sock') else bridge_loop fp ont max_idle b sock'
          else (b, sock')
      | (Some line, sock') \<Rightarrow>
          (let b = b\<lparr>br_idle := 0\<rparr>
           in if kind_of line = K_Bye then (b, sock')
              else case bridge_line fp ont line b sock' of
                     (b', sock'') \<Rightarrow> bridge_loop fp ont max_idle b' sock''))"
  by pat_completeness auto
termination
  by (relation "measures [\<lambda>(fp, ont, mx, b, s). length (pending s), \<lambda>(fp, ont, mx, b, s). timeouts s]")
    (auto simp: case_prod_beta bridge_line_pending dest!: sym [of "(_, _)" "recv_line _"] recv_line_consumes
      dest: recv_line_idle recv_line_timeouts)

declare bridge_loop.simps [simp del]

text \<open>\<open>set_recv_timeout\<close> tells the operating system when to report a timeout; here the timeouts are
  part of what the connection will receive.\<close>

definition run_bridge ::
  "fp_env \<Rightarrow> ('s \<Rightarrow> Tick \<Rightarrow> mt5_order option \<times> 's) \<Rightarrow> 's \<Rightarrow> int \<Rightarrow> line_socket \<Rightarrow> BridgeStats \<times> line_socket" where
  "run_bridge fp ont strat max_idle sock =
     (let (b, sock') = bridge_loop fp ont max_idle (bridge_new strat) sock in (br_stats b, sock'))"

definition publish_depth :: "'l level_ops \<Rightarrow> string \<Rightarrow> 'l order_book \<Rightarrow> nat \<Rightarrow> line_socket \<Rightarrow> bool \<times> line_socket" where
  "publish_depth LS symbol book n sock = send_line (encode_depth symbol (book_bids LS book n) (book_asks LS book n)) sock"

definition publish_signal ::
  "fp_env \<Rightarrow> 'l level_ops \<Rightarrow> string \<Rightarrow> 'l order_book \<Rightarrow> nat \<Rightarrow> line_socket \<Rightarrow> bool \<times> line_socket" where
  "publish_signal fp LS symbol book n sock =
     (let m = compute_metrics fp LS book n
      in send_line (encode_signal symbol (Fin (m_mid m)) (Fin (microprice m)) (Fin (imbalance_top m)) (Fin (spread_bps m))) sock)"

section \<open>A session over lines\<close>

text \<open>What one line does to the server, and what it answers.\<close>

definition react ::
  "fp_env \<Rightarrow> ('s \<Rightarrow> Tick \<Rightarrow> mt5_order option \<times> 's) \<Rightarrow> string \<Rightarrow> 's bridge \<Rightarrow> 's bridge \<times> string" where
  "react fp ont line b =
     (let st = br_stats b
      in case kind_of line of
        K_Hello \<Rightarrow> (b, encode_hello_reply ''mt5d'' True)
      | K_Tick \<Rightarrow>
          (case parse_tick fp line Tick_init of
             (False, _) \<Rightarrow> (b, [])
           | (True, t) \<Rightarrow>
               (case ont (br_strat b) t of
                  (Some ord, s) \<Rightarrow>
                    (b\<lparr>br_strat := s, br_next_id := br_next_id b + 1,
                       br_stats := st\<lparr>st_ticks := st_ticks st + 1, st_orders := st_orders st + 1\<rparr>\<rparr>,
                     encode_order (ord\<lparr>mo_id := br_next_id b\<rparr>))
                | (None, s) \<Rightarrow>
                    (b\<lparr>br_strat := s, br_stats := st\<lparr>st_ticks := st_ticks st + 1, st_nops := st_nops st + 1\<rparr>\<rparr>,
                     encode_nop)))
      | K_Ack \<Rightarrow> (b\<lparr>br_stats := st\<lparr>st_acks := st_acks st + 1\<rparr>\<rparr>, [])
      | _ \<Rightarrow> (b, []))"

lemma send_line_Nil: "send_line [] s = (True, s)"
  by (simp add: send_line_def)

lemma bridge_line_react:
  "bridge_line fp ont line b s = (fst (react fp ont line b), snd (send_line (snd (react fp ont line b)) s))"
  by (simp add: bridge_line_def bridge_tick_def react_def Let_def case_prod_beta send_line_Nil
      split: MsgKind.split option.split prod.split bool.split)

function lines_of :: "string \<Rightarrow> string list" where
  "lines_of p = (case next_line p of (None, _) \<Rightarrow> [] | (Some l, r) \<Rightarrow> l # lines_of r)"
  by pat_completeness auto
termination
proof (relation "measure length", goal_cases)
  case (2 p o1 r l)
  have "length r < length p" if "next_line p = (Some l, r)"
  proof (cases "CHR 0x0A \<in> set p")
    case True
    then obtain u v where "p = u @ CHR 0x0A # v" "CHR 0x0A \<notin> set u" by (auto dest: split_list_first)
    then show ?thesis using that by (auto simp: next_line_line)
  qed (use that in \<open>auto simp: next_line_def split: if_splits\<close>)
  with 2 show ?case by simp
qed simp

declare lines_of.simps [simp del]

fun session ::
  "fp_env \<Rightarrow> ('s \<Rightarrow> Tick \<Rightarrow> mt5_order option \<times> 's) \<Rightarrow> string list \<Rightarrow> 's bridge \<Rightarrow> 's bridge \<times> string" where
  "session fp ont [] b = (b, [])"
| "session fp ont (l # ls) b =
     (if kind_of l = K_Bye then (b\<lparr>br_idle := 0\<rparr>, [])
      else let (b1, r) = react fp ont l (b\<lparr>br_idle := 0\<rparr>); (b2, rs) = session fp ont ls b1 in (b2, r @ rs))"

text \<open>The connection takes \<open>n\<close> bytes without failing.\<close>

definition takes :: "nat \<Rightarrow> line_socket \<Rightarrow> bool" where
  "takes n s \<longleftrightarrow> 0 \<notin> set (ls_tx s) \<and> n \<le> length (ls_tx s)"

lemma send_loop_enough:
  "0 \<notin> set tx \<Longrightarrow> length d \<le> length tx \<Longrightarrow>
   \<exists>tx'. send_loop d tx sent = (True, tx', sent @ d) \<and> 0 \<notin> set tx' \<and> length tx \<le> length tx' + length d"
proof (induction d tx sent rule: send_loop.induct)
  case (3 c cs k ks sent)
  then have k: "k \<noteq> 0" by auto
  have "length (drop k (c # cs)) \<le> length cs" using k by simp
  then have "length (drop k (c # cs)) \<le> length ks" using "3.prems" by simp
  from "3.IH" [OF k _ this] "3.prems" k
  obtain tx' where "send_loop (drop k (c # cs)) ks (sent @ take k (c # cs)) = (True, tx', (sent @ take k (c # cs)) @ drop k (c # cs))"
      "0 \<notin> set tx'" "length ks \<le> length tx' + length (drop k (c # cs))" by auto
  then show ?case using k \<open>length (drop k (c # cs)) \<le> length cs\<close> by (auto simp del: drop_Cons' take_Cons')
qed simp_all

lemma send_line_takes:
  assumes "takes (length d + n) s"
  shows "takes n (snd (send_line d s))" "ls_sent (snd (send_line d s)) = ls_sent s @ d"
    "no_timeouts (snd (send_line d s)) = no_timeouts s"
  using send_loop_enough [of "ls_tx s" d "ls_sent s"] assms
  by (auto simp: send_line_def takes_def no_timeouts_def Let_def)

lemma bridge_loop_session:
  assumes "no_timeouts s" "session fp ont (lines_of (pending s)) b = (b', out)" "takes (length out) s"
  shows "\<exists>s'. bridge_loop fp ont mx b s = (b', s') \<and> ls_sent s' = ls_sent s @ out"
  using assms
proof (induction fp ont mx b s arbitrary: b' out rule: bridge_loop.induct)
  case (1 fp ont mx b s)
  obtain r s1 where r: "recv_line s = (r, s1)" by fastforce
  have nx: "next_line (pending s) = (r, pending s1)" "no_timeouts s1" using recv_line_next [OF "1.prems"(1) r] by auto
  have tx: "takes n s1 = takes n s" "ls_sent s1 = ls_sent s" for n using recv_line_keeps_tx [OF r] by (simp_all add: takes_def)
  show ?case
  proof (cases r)
    case None
    have "timeouts s = 0" using "1.prems"(1) by (simp add: timeouts_def no_timeouts_def) (auto simp: filter_empty_conv)
    then have "\<not> ls_timed_out s1" using recv_line_timeouts [OF r] by (simp split: if_splits)
    moreover have "lines_of (pending s) = []" using nx None by (subst lines_of.simps) simp
    ultimately show ?thesis using r None "1.prems"(2) tx(2) by (subst bridge_loop.simps) simp
  next
    case (Some l)
    have ls: "lines_of (pending s) = l # lines_of (pending s1)" using nx Some by (subst lines_of.simps) simp
    show ?thesis
    proof (cases "kind_of l = K_Bye")
      case True
      then show ?thesis using r Some "1.prems"(2) tx(2) ls by (subst bridge_loop.simps) simp
    next
      case False
      let ?b = "b\<lparr>br_idle := 0\<rparr>"
      obtain b1 rp where re: "react fp ont l ?b = (b1, rp)" by fastforce
      obtain b2 rs where se: "session fp ont (lines_of (pending s1)) b1 = (b2, rs)" by fastforce
      have out: "b' = b2" "out = rp @ rs" using "1.prems"(2) ls False re se by simp_all
      let ?s = "snd (send_line rp s1)"
      have bl: "bridge_line fp ont l ?b s1 = (b1, ?s)" by (simp add: bridge_line_react re)
      have snd: "takes (length rs) ?s" "ls_sent ?s = ls_sent s @ rp" "no_timeouts ?s"
        using send_line_takes [of rp "length rs" s1] "1.prems"(3) nx(2) tx by (simp_all add: out)
      have "session fp ont (lines_of (pending ?s)) b1 = (b2, rs)" by (simp add: send_line_pending se)
      from "1.IH"(2) [OF r [symmetric] Some refl False bl [symmetric] snd(3) this snd(1)]
      obtain s' where "bridge_loop fp ont mx b1 ?s = (b2, s')" "ls_sent s' = ls_sent ?s @ rs" by auto
      then show ?thesis using r Some False bl out snd(2) by (subst bridge_loop.simps) simp
    qed
  qed
qed

section \<open>Ticks and their answers\<close>

text \<open>What a client that sends these ticks is answered, a line for each: the order the strategy wants,
  numbered from \<open>i\<close> on, or a \<open>nop\<close>.\<close>

fun answers :: "('s \<Rightarrow> Tick \<Rightarrow> mt5_order option \<times> 's) \<Rightarrow> 's \<Rightarrow> u64 \<Rightarrow> Tick list \<Rightarrow> string list" where
  "answers ont st i [] = []"
| "answers ont st i (t # ts) =
     (case ont st t of
        (Some ord, st') \<Rightarrow> encode_order (ord\<lparr>mo_id := i\<rparr>) # answers ont st' (i + 1) ts
      | (None, st') \<Rightarrow> encode_nop # answers ont st' i ts)"

fun fired :: "('s \<Rightarrow> Tick \<Rightarrow> mt5_order option \<times> 's) \<Rightarrow> 's \<Rightarrow> Tick list \<Rightarrow> nat" where
  "fired ont st [] = 0"
| "fired ont st (t # ts) = (case ont st t of (o1, st') \<Rightarrow> (if o1 = None then 0 else 1) + fired ont st' ts)"

lemma length_answers: "length (answers ont st i ts) = length ts"
  by (induction ont st i ts rule: answers.induct) (auto split: prod.splits option.splits)

definition good_tick :: "fp_env \<Rightarrow> Tick \<Rightarrow> bool" where
  "good_tick fp t \<longleftrightarrow> decimal_dbl fp (tk_bid t) \<and> decimal_dbl fp (tk_ask t) \<and> decimal_dbl fp (tk_last t) \<and>
     uint (tk_time t) < 2 ^ 63 \<and> uint (tk_volume t) < 2 ^ 63"

lemma tick_line:
  assumes "fp_nearest fp" "good_tick fp t"
  obtains l where "encode_tick t = l @ [CHR 0x0A]" "CHR 0x0A \<notin> set l" "kind_of l = K_Tick" "parse_tick fp l Tick_init = (True, t)"
proof -
  obtain l where l: "encode_tick t = l @ [CHR 0x0A]" unfolding encode_tick_obj by blast
  from tick_roundtrip [OF assms(1) _ _ _ _ _ l] assms(2) show ?thesis
    by (intro that [OF l]) (simp_all add: good_tick_def nl_free_def)
qed

lemma bye_line:
  obtains l where "encode_bye = l @ [CHR 0x0A]" "CHR 0x0A \<notin> set l" "kind_of l = K_Bye"
proof -
  let ?l = "obj [(''t'', JStr ''bye''), (''v'', JRaw (to_string 1))]"
  have good: "good_obj [(''t'', JStr ''bye''), (''v'', JRaw (to_string 1))]" by (simp del: good_val.simps(2))
  have "nl_free ?l" by (rule nl_free_obj) simp
  with kind_of_obj [OF good, of "[]"] encode_short_obj(2) show ?thesis by (intro that [of ?l]) (simp_all add: nl_free_def)
qed

lemma lines_of_line: "CHR 0x0A \<notin> set l \<Longrightarrow> lines_of (l @ CHR 0x0A # r) = l # lines_of r"
  by (subst lines_of.simps) (simp add: next_line_line)

lemma react_tick:
  assumes "kind_of l = K_Tick" "parse_tick fp l Tick_init = (True, t)"
  shows "react fp ont l b =
     (case ont (br_strat b) t of
        (Some ord, s) \<Rightarrow> (b\<lparr>br_strat := s, br_next_id := br_next_id b + 1,
            br_stats := (br_stats b)\<lparr>st_ticks := st_ticks (br_stats b) + 1, st_orders := st_orders (br_stats b) + 1\<rparr>\<rparr>,
            encode_order (ord\<lparr>mo_id := br_next_id b\<rparr>))
      | (None, s) \<Rightarrow> (b\<lparr>br_strat := s,
            br_stats := (br_stats b)\<lparr>st_ticks := st_ticks (br_stats b) + 1, st_nops := st_nops (br_stats b) + 1\<rparr>\<rparr>, encode_nop))"
  using assms by (simp add: react_def Let_def split: prod.split option.split)

lemma session_ticks:
  assumes "fp_nearest fp" "\<forall>t \<in> set ts. good_tick fp t"
  shows "\<exists>b'. session fp ont (lines_of (concat (map encode_tick ts) @ encode_bye @ rest)) b =
           (b', concat (answers ont (br_strat b) (br_next_id b) ts)) \<and>
         st_ticks (br_stats b') = st_ticks (br_stats b) + length ts \<and>
         st_orders (br_stats b') = st_orders (br_stats b) + fired ont (br_strat b) ts \<and>
         st_nops (br_stats b') + fired ont (br_strat b) ts = st_nops (br_stats b) + length ts \<and>
         st_acks (br_stats b') = st_acks (br_stats b)"
  using assms(2)
proof (induction ts arbitrary: b)
  case Nil
  obtain l where l: "encode_bye = l @ [CHR 0x0A]" "CHR 0x0A \<notin> set l" "kind_of l = K_Bye" by (rule bye_line)
  show ?case by (simp add: l(1,3) lines_of_line [OF l(2)])
next
  case (Cons t ts)
  obtain l where l: "encode_tick t = l @ [CHR 0x0A]" "CHR 0x0A \<notin> set l" "kind_of l = K_Tick" "parse_tick fp l Tick_init = (True, t)"
    using tick_line [OF assms(1)] Cons.prems by auto
  let ?b = "b\<lparr>br_idle := 0\<rparr>"
  obtain b1 r where re: "react fp ont l ?b = (b1, r)" by fastforce
  have ih: "\<forall>t \<in> set ts. good_tick fp t" using Cons.prems by simp
  show ?case using Cons.IH [OF ih, of b1] re l(3)
    by (auto simp: l(1) lines_of_line [OF l(2)] react_tick [OF l(3,4)] split: prod.splits option.splits)
qed

section \<open>Accounting and silence\<close>

text \<open>Every tick is answered by an order or a \<open>nop\<close>, and the next id counts the orders.\<close>

definition accounted :: "'s bridge \<Rightarrow> bool" where
  "accounted b \<longleftrightarrow> st_ticks (br_stats b) = st_orders (br_stats b) + st_nops (br_stats b) \<and>
     br_next_id b = of_nat (st_orders (br_stats b) + 1)"

lemma accounted_react: "accounted b \<Longrightarrow> accounted (fst (react fp ont l b))"
  by (auto simp: accounted_def react_def Let_def split: MsgKind.splits prod.splits option.splits bool.splits)

lemma accounted_idle [simp]: "accounted (b\<lparr>br_idle := i\<rparr>) = accounted b"
  by (simp add: accounted_def)

lemma accounted_loop: "accounted b \<Longrightarrow> accounted (fst (bridge_loop fp ont mx b s))"
proof (induction fp ont mx b s rule: bridge_loop.induct)
  case (1 fp ont mx b s)
  have bl: "accounted (fst (bridge_line fp ont l (b\<lparr>br_idle := 0\<rparr>) s1))" for l s1
    using accounted_react [of "b\<lparr>br_idle := 0\<rparr>"] "1.prems" by (simp add: bridge_line_react)
  obtain r s1 where r: "recv_line s = (r, s1)" by fastforce
  show ?case
  proof (cases r)
    case None
    then show ?thesis using "1.IH"(1) [OF r [symmetric] None _ refl] r "1.prems"
      by (subst bridge_loop.simps) (auto simp: Let_def)
  next
    case (Some l)
    obtain b2 s2 where b2: "bridge_line fp ont l (b\<lparr>br_idle := 0\<rparr>) s1 = (b2, s2)" by fastforce
    then show ?thesis using "1.IH"(2) [OF r [symmetric] Some refl _ b2 [symmetric]] bl [of l s1] r Some "1.prems"
      by (subst bridge_loop.simps) (auto simp: Let_def)
  qed
qed

lemma recv_line_silent:
  assumes "CHR 0x0A \<notin> set (ls_buf s)" "ls_rx s = Timeout # es"
  shows "recv_line s = (None, s\<lparr>ls_timed_out := True, ls_rx := es\<rparr>)"
  using assms unfolding recv_line_def by (subst recv_line_loop.simps) (simp add: str_find_None)

lemma bridge_loop_silent:
  assumes "CHR 0x0A \<notin> set (ls_buf s)" "ls_rx s = replicate (Suc n) Timeout @ es" "br_idle b + int (Suc n) = mx" "0 \<le> br_idle b"
  shows "\<exists>s'. bridge_loop fp ont mx b s = (b\<lparr>br_idle := mx\<rparr>, s') \<and> ls_rx s' = es \<and> ls_sent s' = ls_sent s"
  using assms
proof (induction n arbitrary: b s)
  case 0
  then show ?case by (subst bridge_loop.simps) (simp add: recv_line_silent)
next
  case (Suc n)
  let ?s = "s\<lparr>ls_timed_out := True, ls_rx := replicate (Suc n) Timeout @ es\<rparr>"
  have "recv_line s = (None, ?s)" using Suc.prems by (intro recv_line_silent) simp_all
  then have "bridge_loop fp ont mx b s = bridge_loop fp ont mx (b\<lparr>br_idle := br_idle b + 1\<rparr>) ?s"
    using Suc.prems by (subst bridge_loop.simps) simp
  with Suc.IH [of ?s "b\<lparr>br_idle := br_idle b + 1\<rparr>"] Suc.prems show ?case by simp
qed

section \<open>Properties\<close>

text \<open>C31. The bridge refines a session over lines: whatever chunks the peer's bytes arrive in, the
  server behaves as the session that reacts to each line in turn until \<open>bye\<close> or the end of the
  stream, sends exactly that session's answers, and returns its statistics.\<close>

theorem bridge_refines_session:
  assumes "no_timeouts s" and "session fp ont (lines_of (pending s)) (bridge_new strat) = (b', out)"
    and "takes (length out) s"
  shows "\<exists>s'. run_bridge fp ont strat mx s = (br_stats b', s') \<and> ls_sent s' = ls_sent s @ out"
  using bridge_loop_session [OF assms, of mx] by (auto simp: run_bridge_def)

definition demo_socket :: "string list \<Rightarrow> nat \<Rightarrow> line_socket" where
  "demo_socket ds n = \<lparr>ls_timed_out = False, ls_buf = [], ls_rx = map Data ds, ls_tx = replicate n 1, ls_sent = []\<rparr>"

lemma demo_socket_simps [simp]:
  "no_timeouts (demo_socket ds n)" "pending (demo_socket ds n) = concat ds" "takes k (demo_socket ds n) = (k \<le> n)"
  "ls_sent (demo_socket ds n) = []"
proof -
  have "data_of (map Data ds) = concat ds" by (induction ds) simp_all
  then show "pending (demo_socket ds n) = concat ds" by (simp add: demo_socket_def pending_def)
qed (auto simp: demo_socket_def no_timeouts_def takes_def)

theorem bridge_refines_session_witness:
  "\<exists>s' n. run_bridge fp_exact (on_tick fp_exact) (strategy_new (Fin 1) (Fin 1)) 0 (demo_socket [encode_tick Tick_init, encode_bye] n) =
     (\<lparr>st_ticks = 1, st_orders = 0, st_acks = 0, st_nops = 1\<rparr>, s') \<and> ls_sent s' = encode_nop"
proof -
  have good: "\<forall>t \<in> set [Tick_init]. good_tick fp_exact t"
    using is_decimal_exact [of 0 0] by (simp add: good_tick_def Tick_init_def)
  let ?st = "strategy_new (Fin 1) (Fin 1)"
  have a: "answers (on_tick fp_exact) ?st 1 [Tick_init] = [encode_nop]" "fired (on_tick fp_exact) ?st [Tick_init] = 0"
    by (simp_all add: on_tick_def strategy_new_def Let_def)
  from session_ticks [OF fp_exact_nearest good, of "on_tick fp_exact" "[]" "bridge_new ?st"]
  obtain b' where b': "session fp_exact (on_tick fp_exact) (lines_of (concat [encode_tick Tick_init, encode_bye])) (bridge_new ?st) =
      (b', encode_nop)" "br_stats b' = \<lparr>st_ticks = 1, st_orders = 0, st_acks = 0, st_nops = 1\<rparr>"
    using a by (auto simp: bridge_new_def BridgeStats_init_def)
  from bridge_refines_session [of "demo_socket [encode_tick Tick_init, encode_bye] (length encode_nop)" fp_exact
      "on_tick fp_exact" ?st b' encode_nop 0] b'
  show ?thesis by auto
qed

text \<open>C32. End to end: a client that sends ticks and then \<open>bye\<close> is answered by exactly one line for
  each tick, in order, an order numbered consecutively from 1 when the strategy fires and a \<open>nop\<close>
  otherwise; the server stops at the \<open>bye\<close> with statistics that count them.\<close>

theorem bridge_answers_ticks:
  assumes "fp_nearest fp" "\<forall>t \<in> set ts. good_tick fp t" "no_timeouts s"
    and "pending s = concat (map encode_tick ts) @ encode_bye @ rest" "takes (length (concat (answers ont strat 1 ts))) s"
  shows "\<exists>s'. run_bridge fp ont strat mx s =
           (\<lparr>st_ticks = length ts, st_orders = fired ont strat ts, st_acks = 0, st_nops = length ts - fired ont strat ts\<rparr>, s') \<and>
         ls_sent s' = ls_sent s @ concat (answers ont strat 1 ts) \<and> length (answers ont strat 1 ts) = length ts"
proof -
  from session_ticks [OF assms(1,2), of ont rest "bridge_new strat"]
  obtain b' where b': "session fp ont (lines_of (pending s)) (bridge_new strat) = (b', concat (answers ont strat 1 ts))"
      "br_stats b' = \<lparr>st_ticks = length ts, st_orders = fired ont strat ts, st_acks = 0, st_nops = length ts - fired ont strat ts\<rparr>"
    by (auto simp: bridge_new_def BridgeStats_init_def assms(4))
  from bridge_loop_session [OF assms(3) b'(1) assms(5), of mx] b'(2) length_answers show ?thesis
    by (auto simp: run_bridge_def)
qed

theorem bridge_answers_ticks_witness:
  "\<exists>s' n. run_bridge fp_exact (on_tick fp_exact) (strategy_new (Fin 1) (Fin 1)) 0
       (demo_socket [encode_tick Tick_init, encode_tick (Tick_init\<lparr>tk_bid := Fin 2, tk_ask := Fin 2\<rparr>) @ encode_bye] n) =
     (\<lparr>st_ticks = 2, st_orders = 1, st_acks = 0, st_nops = 1\<rparr>, s') \<and>
     ls_sent s' = encode_nop @ encode_order (mt5_order_init\<lparr>mo_id := 1, mo_side := Buy, mo_volume := Fin 1\<rparr>)"
proof -
  let ?t = "Tick_init\<lparr>tk_bid := Fin 2, tk_ask := Fin 2\<rparr>"
  let ?st = "strategy_new (Fin 1) (Fin 1)" and ?on = "on_tick fp_exact"
  have good: "\<forall>t \<in> set [Tick_init, ?t]. good_tick fp_exact t"
    using is_decimal_exact [of 0 0] is_decimal_exact [of 2 0] by (simp add: good_tick_def Tick_init_def)
  have a: "answers ?on ?st 1 [Tick_init, ?t] =
      [encode_nop, encode_order (mt5_order_init\<lparr>mo_id := 1, mo_side := Buy, mo_volume := Fin 1\<rparr>)]"
      "fired ?on ?st [Tick_init, ?t] = 1"
    by (simp_all add: on_tick_def strategy_new_def make_order_def mt5_order_init_def Tick_init_def Let_def dsub_def
        round_dbl_def dbl_limit_def)
  let ?n = "length (concat (answers ?on ?st 1 [Tick_init, ?t]))"
  from bridge_answers_ticks [OF fp_exact_nearest good, of "demo_socket [encode_tick Tick_init, encode_tick ?t @ encode_bye] ?n" "[]" ?on ?st 0]
  show ?thesis unfolding a by (auto simp: numeral_2_eq_2)
qed

text \<open>Accounting and silence, for every strategy and every connection, timeouts and failing sends
  included: the ticks counted are the orders plus the \<open>nop\<close>s; and when an idle limit is set, that
  many timeouts in a row end the session, however much the peer would still have sent.\<close>

theorem bridge_accounting:
  "(case run_bridge fp ont strat mx s of (st, s') \<Rightarrow> st_ticks st = st_orders st + st_nops st) \<and>
   (CHR 0x0A \<notin> set (ls_buf s) \<and> ls_rx s = replicate (nat mx) Timeout @ es \<and> 0 < mx \<longrightarrow>
      (\<exists>s'. run_bridge fp ont strat mx s = (BridgeStats_init, s') \<and> ls_rx s' = es))"
proof (intro conjI impI)
  have "accounted (bridge_new strat)" by (simp add: accounted_def bridge_new_def BridgeStats_init_def)
  from accounted_loop [OF this, of fp ont mx s] show "case run_bridge fp ont strat mx s of (st, s') \<Rightarrow> st_ticks st = st_orders st + st_nops st"
    by (auto simp: run_bridge_def accounted_def split: prod.splits)
  assume a: "CHR 0x0A \<notin> set (ls_buf s) \<and> ls_rx s = replicate (nat mx) Timeout @ es \<and> 0 < mx"
  then obtain n where n: "nat mx = Suc n" "int (Suc n) = mx" using gr0_implies_Suc [of "nat mx"] by auto
  from bridge_loop_silent [of s n es "bridge_new strat" mx fp ont] a n
  show "\<exists>s'. run_bridge fp ont strat mx s = (BridgeStats_init, s') \<and> ls_rx s' = es"
    by (auto simp: run_bridge_def bridge_new_def)
qed

theorem bridge_accounting_witness:
  "\<exists>s'. run_bridge fp_exact (on_tick fp_exact) (strategy_new (Fin 1) (Fin 1)) 2
     \<lparr>ls_timed_out = False, ls_buf = ''x'', ls_rx = [Timeout, Timeout, Data encode_bye], ls_tx = [], ls_sent = []\<rparr> =
       (BridgeStats_init, s') \<and> ls_rx s' = [Data encode_bye]"
  using bridge_accounting [of fp_exact "on_tick fp_exact" "strategy_new (Fin 1) (Fin 1)" 2
      "\<lparr>ls_timed_out = False, ls_buf = ''x'', ls_rx = [Timeout, Timeout, Data encode_bye], ls_tx = [], ls_sent = []\<rparr>" "[Data encode_bye]"]
  by (simp add: numeral_2_eq_2)

end
