(* ===== verification/App_Base.thy ===== *)
theory App_Base
  imports Book_Set Mt5_Protocol "HOL-Library.Multiset"
begin

text \<open>
  What the command-line programs share. A program is a function of its arguments and of what it
  receives from the operating system; an outcome is its exit code and what it writes to its two
  streams. A \<^verbatim>\<open>long\<close> has 64 bits. A program that runs over the books of a set sees them in the
  order of the hash table, which the locale \<open>book_iteration\<close> leaves open.
\<close>

section \<open>Outcomes and arguments\<close>

record outcome =
  exit_code :: int
  cout :: string
  cerr :: string

definition strtol :: "string \<Rightarrow> int" where
  "strtol s = fst (strtoll s)"

definition nl :: string where "nl = [CHR 0x0A]"

definition nat_string :: "nat \<Rightarrow> string" where
  "nat_string n = to_string (int n)"

definition fails :: "int \<Rightarrow> string \<Rightarrow> outcome" where
  "fails code msg = \<lparr>exit_code = code, cout = [], cerr = msg\<rparr>"

text \<open>The first character of an empty argument is the terminating zero.\<close>

definition is_option :: "string \<Rightarrow> bool" where
  "is_option a \<longleftrightarrow> a \<noteq> [] \<and> hd a = CHR ''-''"

lemma strtol_nat: "n < 2 ^ 63 \<Longrightarrow> strtol (nat_string n) = int n"
  using strtoll_fits [of "int n" "[]"] by (simp add: strtol_def nat_string_def fits_ll_def)

lemma nat_string_not_option: "\<not> is_option (nat_string n)"
  using dec_digits [of n] digit_not_special(2) by (cases "dec n") (auto simp: is_option_def nat_string_def to_string_def)

lemma u64_string_nat: "n < 2 ^ 64 \<Longrightarrow> u64_string (of_nat n) = nat_string n"
  using unat_of_nat_small [of n, where ?'a = 64] by (simp add: u64_string_def nat_string_def uint_nat)

section \<open>Iterating over the books\<close>

definition book_keys :: "book_set \<Rightarrow> u16 list" where
  "book_keys bs = map fst (bs_books bs)"

fun find_locate :: "book_set \<Rightarrow> string \<Rightarrow> u16 list \<Rightarrow> u16 option" where
  "find_locate bs focus [] = None"
| "find_locate bs focus (l # ls) = (if bs_symbol bs l = focus then Some l else find_locate bs focus ls)"

lemma find_locate_None: "find_locate bs focus ls = None \<longleftrightarrow> (\<forall>l \<in> set ls. bs_symbol bs l \<noteq> focus)"
  by (induction ls) auto

lemma find_locate_Some: "find_locate bs focus ls = Some l \<Longrightarrow> l \<in> set ls \<and> bs_symbol bs l = focus"
  by (induction ls) (auto split: if_splits)

lemma book_keys_iff: "l \<in> set (book_keys bs) \<longleftrightarrow> bs_book bs l \<noteq> None"
  by (auto simp: book_keys_def bs_book_def map_of_eq_None_iff)

locale book_iteration =
  fixes order :: "book_set \<Rightarrow> u16 list"
  assumes order_keys: "mset (order bs) = mset (book_keys bs)"
begin

lemma set_order: "set (order bs) = set (book_keys bs)"
  by (metis order_keys set_mset_mset)

lemma length_order: "length (order bs) = book_count bs"
  by (metis order_keys size_mset book_count_def book_keys_def length_map)

lemma found_has_book: "find_locate bs focus (order bs) = Some l \<Longrightarrow> bs_book bs l \<noteq> None \<and> bs_symbol bs l = focus"
  using find_locate_Some set_order book_keys_iff by metis

text \<open>The answer depends on the order only when two books carry the name.\<close>

lemma found_unique:
  assumes "bs_book bs l \<noteq> None" "bs_symbol bs l = focus"
    and "\<And>l'. bs_book bs l' \<noteq> None \<Longrightarrow> bs_symbol bs l' = focus \<Longrightarrow> l' = l"
  shows "find_locate bs focus (order bs) = Some l"
  using assms found_has_book set_order book_keys_iff find_locate_None by (metis option.exhaust)

end

interpretation in_order: book_iteration book_keys
  by unfold_locales simp

interpretation reversed: book_iteration "\<lambda>bs. rev (book_keys bs)"
  by unfold_locales simp

end
