(* ===== verification/Apps.thy ===== *)
theory Apps
  imports App_Base Mold Synthetic Fix_Codec Mt5_Bridge
begin

text \<open>
  The smaller programs of \<^verbatim>\<open>apps/\<close>: \<^verbatim>\<open>gencap\<close>, \<^verbatim>\<open>mdrecv\<close>, \<^verbatim>\<open>mt5d\<close> and \<^verbatim>\<open>fixsim\<close>, and the fuzzing entry
  \<^verbatim>\<open>fuzz/decode_fuzz.cpp\<close>.
\<close>

section \<open>gencap\<close>

text \<open>\<open>writable\<close> says how the output file behaves: it cannot be opened, it cannot be written, or it
  takes the bytes, which are the second result.\<close>

datatype sink = No_open | No_write | Takes_all

definition gencap :: "string list \<Rightarrow> (string \<Rightarrow> sink) \<Rightarrow> outcome \<times> bytes option" where
  "gencap args writable =
     (case args of
        [a, path] \<Rightarrow>
          (let n = strtol a
           in if n \<le> 0 then (fails 2 (''error: N must be positive'' @ nl), None)
              else let data = make_synthetic_itch mt_next (nat n) (mt_seed 1)
                   in case writable path of
                        No_open \<Rightarrow> (fails 1 (''error: cannot write '' @ path @ nl), None)
                      | No_write \<Rightarrow> (fails 1 (''error: write failed'' @ nl), None)
                      | Takes_all \<Rightarrow>
                          (\<lparr>exit_code = 0,
                            cout = ''wrote '' @ nat_string (length data) @ '' bytes ('' @ to_string n @ '' messages) to '' @ path @ nl,
                            cerr = []\<rparr>, Some data))
      | _ \<Rightarrow> (fails 2 (''usage: gencap <N messages> <out.itch>'' @ nl), None))"

section \<open>mdrecv\<close>

record md_opts =
  md_self :: bool
  md_listen :: bool
  md_n :: int
  md_port :: int
  md_ms :: int
  md_pin :: int

definition md_defaults :: md_opts where
  "md_defaults = \<lparr>md_self = False, md_listen = False, md_n = 20000, md_port = 0, md_ms = 2000, md_pin = - 1\<rparr>"

function md_args :: "string list \<Rightarrow> md_opts \<Rightarrow> md_opts" where
  "md_args as p =
     (case as of
        [] \<Rightarrow> p
      | a # r \<Rightarrow>
          if a = ''--self'' then
            (let p = p\<lparr>md_self := True\<rparr>
             in if r \<noteq> [] \<and> \<not> is_option (hd r) then md_args (tl r) (p\<lparr>md_n := strtol (hd r)\<rparr>) else md_args r p)
          else if a = ''--listen'' \<and> r \<noteq> [] then md_args (tl r) (p\<lparr>md_listen := True, md_port := strtol (hd r)\<rparr>)
          else if a = ''--ms'' \<and> r \<noteq> [] then md_args (tl r) (p\<lparr>md_ms := strtol (hd r)\<rparr>)
          else if a = ''--pin'' \<and> r \<noteq> [] then md_args (tl r) (p\<lparr>md_pin := strtol (hd r)\<rparr>)
          else md_args r p)"
  by pat_completeness auto
termination by (relation "measure (\<lambda>(as, p). length as)") auto

declare md_args.simps [simp del]

lemma md_args_Nil [simp]: "md_args [] p = p"
  by (subst md_args.simps) simp

definition print_stats :: "MoldSession \<Rightarrow> book_set \<Rightarrow> string" where
  "print_stats s b =
     ''  packets='' @ u64_string (ms_packets s) @ '' messages='' @ u64_string (ms_messages s) @
     '' gaps='' @ u64_string (ms_gaps s) @ '' books='' @ nat_string (book_count b) @
     '' orders='' @ nat_string (total_orders b) @ nl"

text \<open>The lambda both modes hand to \<open>on_packet\<close>.\<close>

definition md_sink :: "u64 \<Rightarrow> Message \<Rightarrow> book_set \<Rightarrow> book_set" where
  "md_sink seq m b = bs_apply m b"

definition md_self_run :: "int \<Rightarrow> MoldSession \<times> book_set" where
  "md_self_run n =
     (let framed = make_synthetic_itch mt_next (nat (if n > 0 then n else 1)) (mt_seed 7);
          packets = packetize_mold ''HFTOB-SYN'' framed (length framed) 8
      in fold (\<lambda>p. on_packet p (length p) md_sink) packets (MoldSession_init, bs_new))"

text \<open>The receive loop: the datagrams that arrive before the idle timeout, cut off at the size of the
  buffer. A result of 0, an empty datagram, ends the loop as a timeout does.\<close>

fun md_listen_run :: "bytes list \<Rightarrow> MoldSession \<times> book_set \<Rightarrow> MoldSession \<times> book_set" where
  "md_listen_run [] st = st"
| "md_listen_run (d # ds) st =
     (let buf = take 2048 d
      in if buf = [] then st
         else let st' = on_packet buf (length buf) md_sink st
              in if ms_ended (fst st') then st' else md_listen_run ds st')"

text \<open>\<open>pin_thread\<close> stands for \<open>pin_this_thread\<close>, \<open>bind_loopback\<close> for creating and binding the socket:
  the port it was bound to, or the message of the exception it raised. \<open>rx\<close> are the datagrams that
  arrive.\<close>

definition mdrecv :: "string list \<Rightarrow> (u32 \<Rightarrow> bool) \<Rightarrow> (u16 \<Rightarrow> string + u16) \<Rightarrow> bytes list \<Rightarrow> outcome" where
  "mdrecv args pin_thread bind_loopback rx =
     (let p = md_args args md_defaults;
          p = (if \<not> md_self p \<and> \<not> md_listen p then p\<lparr>md_self := True\<rparr> else p);
          pin = (if md_pin p \<ge> 0
                 then ''pin to core '' @ to_string (md_pin p) @ '': '' @ (if pin_thread (of_int (md_pin p)) then ''ok'' else ''unsupported'') @ nl
                 else [])
      in if md_self p
         then let (s, b) = md_self_run (md_n p)
              in \<lparr>exit_code = 0,
                  cout = ''mdrecv --self '' @ to_string (md_n p) @ '' (MoldUDP64 packetize + parse, no socket)'' @ nl @ print_stats s b,
                  cerr = pin\<rparr>
         else case bind_loopback (of_int (md_port p)) of
                Inl e \<Rightarrow> \<lparr>exit_code = 1, cout = [], cerr = pin @ ''mdrecv error: '' @ e @ nl\<rparr>
              | Inr port \<Rightarrow>
                  (let (s, b) = md_listen_run rx (MoldSession_init, bs_new)
                   in \<lparr>exit_code = 0, cout = ''mdrecv done'' @ nl @ print_stats s b,
                       cerr = pin @ ''mdrecv listening on UDP 127.0.0.1:'' @ nat_string (unat port) @ '' (idle '' @
                         to_string (md_ms p) @ '' ms)'' @ nl\<rparr>))"

section \<open>mt5d\<close>

text \<open>The sessions served before \<open>accept\<close> fails with the message \<open>e\<close>.\<close>

definition mt5d_session :: "fp_env \<Rightarrow> line_socket \<Rightarrow> string" where
  "mt5d_session fp conn =
     (let strat = strategy_new (round_dbl fp (1 / 1000)) (round_dbl fp (1 / 10));
          st = fst (run_bridge fp (on_tick fp) strat 12 conn)
      in ''client connected'' @ nl @ ''session ended: ticks='' @ nat_string (st_ticks st) @ '' orders='' @
         nat_string (st_orders st) @ '' acks='' @ nat_string (st_acks st) @ '' nops='' @ nat_string (st_nops st) @ nl)"

definition mt5d :: "fp_env \<Rightarrow> string list \<Rightarrow> (u16 \<Rightarrow> string + u16) \<Rightarrow> line_socket list \<Rightarrow> string \<Rightarrow> outcome" where
  "mt5d fp args listener conns e =
     (let p = (if args \<noteq> [] then strtol (hd args) else 9009)
      in if args \<noteq> [] \<and> (p \<le> 0 \<or> p > 65535) then fails 2 (''usage: mt5d [port]'' @ nl)
         else case listener (of_int p) of
                Inl msg \<Rightarrow> fails 1 (''mt5d error: '' @ msg @ nl)
              | Inr port \<Rightarrow>
                  \<lparr>exit_code = 1,
                   cout = ''mt5d listening on 127.0.0.1:'' @ nat_string (unat port) @ ''  (Ctrl-C to stop)'' @ nl @
                     concat (map (mt5d_session fp) conns),
                   cerr = ''mt5d error: '' @ e @ nl\<rparr>)"

section \<open>fixsim\<close>

definition printable :: "string \<Rightarrow> string" where
  "printable s = map (\<lambda>c. if c = SOH then CHR ''|'' else c) s"

definition yes_no :: "bool \<Rightarrow> string" where
  "yes_no b = (if b then ''yes'' else ''no'')"

definition fixsim_order :: string where
  "fixsim_order = new_order_single ''HFTOB'' ''EXCH'' 1 ''CLORD-1'' ''AAPL'' FIX_Buy 100 Limit (15025 / 100)"

definition fixsim_report :: string where
  "fixsim_report = execution_report ''EXCH'' ''HFTOB'' 1 ''OID-1'' ''CLORD-1'' ''AAPL'' FIX_Buy ET_Fill OS_Filled 100 0 (15025 / 100)"

definition fixsim :: outcome where
  "fixsim =
     (let m = snd (fix_parse fixsim_order)
      in \<lparr>exit_code = 0,
          cout = ''NewOrderSingle (35=D):'' @ nl @ ''  '' @ printable fixsim_order @ nl @
            ''  checksum valid: '' @ yes_no (valid_checksum fixsim_order) @ nl @
            ''  parsed '' @ nat_string (length m) @ '' fields; symbol='' @ get_or m SymbolTag [] @
            '' side='' @ get_or m SideTag [] @ '' qty='' @ get_or m OrderQty [] @ '' px='' @ get_or m PriceTag [] @ nl @ nl @
            ''ExecutionReport (35=8):'' @ nl @ ''  '' @ printable fixsim_report @ nl @
            ''  checksum valid: '' @ yes_no (valid_checksum fixsim_report) @ nl,
          cerr = []\<rparr>)"

section \<open>The fuzzing entry\<close>

definition fuzz_one_input :: "bytes \<Rightarrow> int \<times> book_set \<times> (bool \<times> Message) option" where
  "fuzz_one_input data =
     (let (off, book) = for_each_framed_message data (length data) bs_apply bs_new;
          r = (if length data > 0 then Some (decode (Some data) (length data) Message_init) else None)
      in (0, book, r))"

section \<open>One symbol, one book\<close>

lemma book_run_snoc: "book_run LS (ms @ [m]) = book_apply LS m (book_run LS ms)"
  by (simp add: book_run_def)

lemma bs_run_single:
  assumes "\<forall>m \<in> set ms. stock_locate m = l"
  shows "bs_books (bs_run ms bs_new) = (if list_ex opens_book ms then [(l, book_run MapLevels ms)] else []) \<and>
         (\<not> list_ex opens_book ms \<longrightarrow> book_run MapLevels ms = book_new MapLevels)"
  using assms
proof (induction ms rule: rev_induct)
  case Nil
  then show ?case by (simp add: bs_run_def bs_new_def book_run_def)
next
  case (snoc m ms)
  have run: "bs_run (ms @ [m]) bs_new = bs_apply m (bs_run ms bs_new)" by (simp add: bs_run_def)
  have loc: "stock_locate m = l" using snoc.prems by simp
  have ih: "bs_books (bs_run ms bs_new) = (if list_ex opens_book ms then [(l, book_run MapLevels ms)] else [])"
      "\<not> list_ex opens_book ms \<longrightarrow> book_run MapLevels ms = book_new MapLevels"
    using snoc by simp_all
  have ref: "book_ref (bs_books (bs_run ms bs_new)) l = book_run MapLevels ms" using ih by (simp add: book_ref_def)
  have dir: "msg_type m = StockDirectory \<Longrightarrow> book_apply MapLevels m b = b" for b
    by (rule book_apply_other) (simp add: order_types_def)
  show ?case unfolding run
    using ih ref dir book_apply_other [of m MapLevels]
    by (cases "opens_book m") (auto simp: bs_apply_def loc Let_def opens_book_def [of m] book_run_snoc)
qed

lemma order_count_run:
  assumes "feed_allowed ms Map.empty"
  shows "order_count (book_run MapLevels ms) = card (dom (fold spec_apply ms Map.empty))"
  using map_store.book_run_shows [OF assms] by (simp add: book_shows_def)

lemma order_count_new: "order_count (book_new MapLevels) = 0"
  by (simp add: order_count_def book_new_def)

section \<open>The receiver\<close>

lemma fold_md_sink: "fold (\<lambda>(q, m). md_sink q m) xs b = bs_run (map snd xs) b"
  by (induction xs arbitrary: b) (auto simp: bs_run_def md_sink_def)

lemma md_listen_packets:
  assumes "\<forall>c \<in> set cs. (\<forall>f \<in> set c. length f < 2 ^ 16) \<and> length c < 0xFFFF"
    and "\<forall>d \<in> set (mold_packets sn seq cs). length d \<le> 2048" and "\<not> ms_ended (fst st)"
  shows "md_listen_run (mold_packets sn seq cs @ ds) st =
         md_listen_run ds (receive (mold_packets sn seq cs) md_sink st)"
  using assms
proof (induction cs arbitrary: seq st)
  case (Cons c cs)
  obtain ms b where st: "st = (ms, b)" by fastforce
  let ?d = "encode_mold_packet sn seq (of_nat (length c)) (frames c)"
  have op: "on_packet ?d (length ?d) md_sink (ms, b) =
      (after_packet ms seq c, fold (\<lambda>(q, m). md_sink q m) (deliver seq c) b)"
    using Cons.prems(1) by (intro on_packet_spec [OF refl]) auto
  have ended: "\<not> ms_ended (after_packet ms seq c)" using Cons.prems(3) st by (simp add: after_packet_def)
  have d: "take 2048 ?d = ?d" "?d \<noteq> []"
    using Cons.prems(2) parse_encode_mold [of ?d sn seq "of_nat (length c)" "frames c" "length ?d"]
    by auto
  show ?case
    using Cons.IH [of "seq + of_nat (length c)" "(after_packet ms seq c, fold (\<lambda>(q, m). md_sink q m) (deliver seq c) b)"]
      Cons.prems ended d
    by (simp add: receive_def op st)
qed (simp add: receive_def)

lemma eos_packet:
  assumes "d = encode_mold_packet sn seq kMoldEndOfSession []"
  shows "on_packet d (length d) sink (ms, b) = (ms\<lparr>ms_packets := ms_packets ms + 1, ms_ended := True\<rparr>, b)" "length d = 20"
  using parse_encode_mold(1) [OF assms refl, of MoldHeader_init] parse_encode_mold(3) [OF assms refl] by (simp_all add: on_packet_def)

lemma packetized_chunks_ok:
  assumes "mpp \<noteq> 0" "mpp \<noteq> 0xFFFF"
  shows "\<forall>c \<in> set (chunks (unat (mpp :: u16)) (deframe framed)). (\<forall>f \<in> set c. length f < 2 ^ 16) \<and> length c < 0xFFFF"
proof (intro ballI conjI)
  have mpp: "unat mpp \<noteq> 0" "unat mpp < 0xFFFF"
  proof -
    show "unat mpp \<noteq> 0" using assms(1) by (simp add: unat_eq_0)
    have "unat mpp \<noteq> unat (0xFFFF :: u16)" using assms(2) by (metis unsigned_word_eqI)
    then show "unat mpp < 0xFFFF" using unsigned_less [of mpp, where ?'a = nat] by simp
  qed
  fix c f assume c: "c \<in> set (chunks (unat mpp) (deframe framed))"
  then show "length c < 0xFFFF" using length_chunk [OF c] mpp(2) by simp
  assume "f \<in> set c"
  with c have "f \<in> set (concat (chunks (unat mpp) (deframe framed)))" by auto
  then have "f \<in> set (deframe framed)" by (simp only: concat_chunks [OF mpp(1)])
  then show "length f < 2 ^ 16" using deframe_frameable by (simp add: frameable_def)
qed

lemma receive_books:
  assumes "mpp \<noteq> 0" "mpp \<noteq> 0xFFFF" "pk = packetize_mold sn framed (length framed) mpp"
  shows "snd (receive pk md_sink (MoldSession_init, b)) = bs_run (framed_messages framed) b"
    and "fst (receive pk md_sink (MoldSession_init, b)) =
      (if deframe framed = [] then MoldSession_init
       else MoldSession_init\<lparr>ms_expected := 1 + of_nat (length (deframe framed)), ms_packets := of_nat (length pk),
              ms_messages := of_nat (length (framed_messages framed)), ms_started := True\<rparr>)"
  using receive_packetized [OF assms(1,2), of sn framed md_sink b] assms(3)
  by (simp_all add: fold_md_sink map_snd_deliver framed_messages_def)

section \<open>Properties\<close>

text \<open>The self test of \<^verbatim>\<open>mdrecv\<close>, from the command line to the printed line: with \<open>--self N\<close> it
  generates \<open>N\<close> messages, cuts them into datagrams of eight, receives them and exits with 0 after
  reporting \<open>N / 8\<close> packets rounded up, \<open>N\<close> messages, no gap, and as many resting orders as the
  abstract book of the generated messages holds.\<close>

theorem mdrecv_self_report:
  assumes "0 < n" "n \<le> 4000000" and "ms = framed_messages (make_synthetic_itch mt_next n (mt_seed 7))"
  shows "mdrecv [''--self'', nat_string n] pin_thread bind_loopback rx =
     \<lparr>exit_code = 0,
      cout = ''mdrecv --self '' @ nat_string n @ '' (MoldUDP64 packetize + parse, no socket)'' @ nl @
        ''  packets='' @ nat_string ((n + 7) div 8) @ '' messages='' @ nat_string n @ '' gaps=0 books='' @
        nat_string (if list_ex opens_book ms then 1 else 0) @
        '' orders='' @ nat_string (card (dom (fold spec_apply ms Map.empty))) @ nl,
      cerr = []\<rparr>"
proof -
  let ?f = "make_synthetic_itch mt_next n (mt_seed 7)"
  let ?pk = "packetize_mold ''HFTOB-SYN'' ?f (length ?f) 8"
  have gf: "length (deframe ?f) = n" "length ms = n" "\<forall>m \<in> set ms. stock_locate m = 1" "feed_allowed ms Map.empty"
    using good_feed_single [OF itch_ok_stream [OF assms(2), of mt_next "mt_seed 7"]] unfolding assms(3) by auto
  have run: "md_self_run (int n) = receive ?pk md_sink (MoldSession_init, bs_new)"
    using assms(1) by (simp add: md_self_run_def receive_def Let_def)
  have pk: "length ?pk = (n + 7) div 8"
    by (simp add: packetize_mold_chunks length_mold_packets length_chunks gf(1))
  have ne: "deframe ?f \<noteq> []" using gf(1) assms(1) by auto
  note rb = receive_books [of 8 ?pk "''HFTOB-SYN''" ?f bs_new, folded run assms(3)]
  have small: "n < 2 ^ 63" "n < 2 ^ 64" "(n + 7) div 8 < 2 ^ 64" using assms(2) by auto
  note single = bs_run_single [OF gf(3)]
  have books: "book_count (bs_run ms bs_new) = (if list_ex opens_book ms then 1 else 0)"
    using single by (simp add: book_count_def)
  have orders: "total_orders (bs_run ms bs_new) = card (dom (fold spec_apply ms Map.empty))"
    using single order_count_run [OF gf(4)] order_count_new by (auto simp: total_orders_def split: if_splits)
  have z: "u64_string 0 = ''0''" by (simp add: u64_string_def to_string_def dec.simps digit_def char_of_def bit_iff_odd)
  have st: "print_stats (fst (md_self_run (int n))) (snd (md_self_run (int n))) =
      ''  packets='' @ nat_string ((n + 7) div 8) @ '' messages='' @ nat_string n @ '' gaps=0 books='' @
        nat_string (if list_ex opens_book ms then 1 else 0) @
        '' orders='' @ nat_string (card (dom (fold spec_apply ms Map.empty))) @ nl"
    using rb ne by (simp add: print_stats_def books orders pk gf(2) u64_string_nat [OF small(2)] u64_string_nat [OF small(3)]
      z MoldSession_init_def)
  have a: "md_args [''--self'', nat_string n] md_defaults = md_defaults\<lparr>md_self := True, md_n := int n\<rparr>"
    by (subst md_args.simps) (simp add: nat_string_not_option strtol_nat [OF small(1)])
  obtain s b where sb: "md_self_run (int n) = (s, b)" by fastforce
  show ?thesis using st unfolding mdrecv_def a Let_def sb
    by (simp add: md_defaults_def sb nat_string_def [of n, symmetric])
qed

theorem mdrecv_self_report_witness:
  "mdrecv [''--self'', nat_string 3] (\<lambda>_. True) Inr [] =
     \<lparr>exit_code = 0,
      cout = ''mdrecv --self '' @ nat_string 3 @ '' (MoldUDP64 packetize + parse, no socket)'' @ nl @
        ''  packets='' @ nat_string 1 @ '' messages='' @ nat_string 3 @ '' gaps=0 books='' @
        nat_string (if list_ex opens_book (framed_messages (make_synthetic_itch mt_next 3 (mt_seed 7))) then 1 else 0) @
        '' orders='' @ nat_string (card (dom (fold spec_apply (framed_messages (make_synthetic_itch mt_next 3 (mt_seed 7))) Map.empty))) @ nl,
      cerr = []\<rparr>"
  using mdrecv_self_report [of 3, OF _ _ refl, of "\<lambda>_. True" Inr "[]"] by simp

text \<open>C39. The listening receiver builds the sender's books: when the datagrams of a packetized capture
  arrive in order, each within the 2048 bytes of the buffer, followed by the end of the session, the
  loop stops there, whatever arrives after it, with the books of a single-threaded replay of the
  capture, every message counted and no gap.\<close>

theorem mdrecv_listen_lossless:
  assumes "mpp \<noteq> 0" "mpp \<noteq> 0xFFFF" "pk = packetize_mold sn framed (length framed) mpp"
    and "\<forall>d \<in> set pk. length d \<le> 2048" and "eos = encode_mold_packet sn seq kMoldEndOfSession []"
    and "md_listen_run (pk @ eos # rest) (MoldSession_init, bs_new) = (s, b)"
  shows "b = bs_run (framed_messages framed) bs_new \<and> ms_ended s \<and> ms_gaps s = 0 \<and>
    ms_messages s = of_nat (length (framed_messages framed))"
proof -
  let ?r = "receive pk md_sink (MoldSession_init, bs_new)"
  have cut: "pk = mold_packets sn 1 (chunks (unat mpp) (deframe framed))"
    using assms(1,3) by (simp add: packetize_mold_chunks)
  have "md_listen_run (pk @ eos # rest) (MoldSession_init, bs_new) = md_listen_run (eos # rest) ?r"
    unfolding cut using packetized_chunks_ok [OF assms(1,2)] assms(4) cut
    by (intro md_listen_packets) (auto simp: MoldSession_init_def)
  moreover have "md_listen_run (eos # rest) ?r = ((fst ?r)\<lparr>ms_packets := ms_packets (fst ?r) + 1, ms_ended := True\<rparr>, snd ?r)"
    using eos_packet(1) [OF assms(5), of md_sink "fst ?r" "snd ?r"] eos_packet(2) [OF assms(5)] by (auto simp: Let_def)
  ultimately have sb: "s = (fst ?r)\<lparr>ms_packets := ms_packets (fst ?r) + 1, ms_ended := True\<rparr>" "b = snd ?r"
    using assms(6) by simp_all
  note rb = receive_books [OF assms(1-3), of bs_new]
  show ?thesis using sb rb by (simp add: MoldSession_init_def framed_messages_def)
qed

theorem mdrecv_listen_lossless_witness:
  "let framed = [0, 1, 0x53, 0, 1, 0x54]; pk = packetize_mold ''S'' framed (length framed) 1;
       eos = encode_mold_packet ''S'' 3 kMoldEndOfSession []
   in ms_ended (fst (md_listen_run (pk @ [eos]) (MoldSession_init, bs_new))) \<and>
      ms_gaps (fst (md_listen_run (pk @ [eos]) (MoldSession_init, bs_new))) = 0"
proof -
  have "\<forall>d \<in> set (packetize_mold ''S'' [0, 1, 0x53, 0, 1, 0x54] (length [0, 1, 0x53, 0, 1, 0x54 :: u8]) 1). length d \<le> 2048"
    by code_simp
  from mdrecv_listen_lossless [OF _ _ refl this refl prod.collapse [symmetric], of 3 "[]"]
  show ?thesis by (simp add: Let_def)
qed

text \<open>An empty datagram ends the receiver as silence does, whatever follows.\<close>

lemma md_listen_empty_datagram: "md_listen_run ([] # ds) st = st"
  by simp

lemma gencap_writes:
  assumes "0 < n" "n \<le> 4000000" "writable path = Takes_all" "gencap [nat_string n, path] writable = (r, d)"
  shows "exit_code r = 0" "\<exists>data. d = Some data \<and> length (framed_messages data) = n"
proof -
  have n: "strtol (nat_string n) = int n" using assms(2) by (intro strtol_nat) simp
  show "exit_code r = 0" "\<exists>data. d = Some data \<and> length (framed_messages data) = n"
    using assms n good_feed_single [OF itch_ok_stream [OF assms(2), of mt_next "mt_seed 1"]] by (auto simp: gencap_def Let_def)
qed

text \<open>The demo of the order-entry codec reports both checksums valid and reads back the order it wrote.\<close>

lemma fixsim_output:
  "cout fixsim = ''NewOrderSingle (35=D):'' @ nl @ ''  '' @ printable fixsim_order @ nl @ ''  checksum valid: yes'' @ nl @
     ''  parsed 13 fields; symbol=AAPL side=1 qty=100 px=150.2500'' @ nl @ nl @
     ''ExecutionReport (35=8):'' @ nl @ ''  '' @ printable fixsim_report @ nl @ ''  checksum valid: yes'' @ nl"
proof -
  let ?body = "[(SenderCompID, ''HFTOB''), (TargetCompID, ''EXCH''), (MsgSeqNum, to_string 1), (ClOrdID, ''CLORD-1''),
        (SymbolTag, ''AAPL''), (SideTag, [side_char FIX_Buy]), (OrderQty, to_string 100),
        (OrdTypeTag, [ord_type_char Limit]), (PriceTag, price_str (15025 / 100))]"
  have ord: "fixsim_order = fix_encode ''FIX.4.4'' ''D'' ?body"
    by (simp add: fixsim_order_def new_order_single_def fix_set_defs Let_def)
  have digits: "dec 150 = ''150''" "zero_pad 4 2500 = ''2500''" by code_simp+
  have px: "price_str (601 / 4) = ''150.2500''"
    by (simp add: price_str_def print_fixed_def round_half_even_def Let_def digits)
  have num: "to_string 1 = ''1''" "to_string 100 = ''100''" by code_simp+
  have "\<forall>f \<in> set ?body. SOH \<notin> set (snd f)" by (simp add: px num SOH_def)
  from fix_parse_encode [OF _ _ this, of "''FIX.4.4''" "''D''"]
  have m: "snd (fix_parse fixsim_order) = enc_fields ''FIX.4.4'' ''D'' ?body" by (auto simp: ord SOH_def)
  have valid: "valid_checksum fixsim_order" "valid_checksum fixsim_report"
    by (simp_all only: ord fixsim_report_def execution_report_def Let_def fix_encode_valid)
  let ?m = "snd (fix_parse fixsim_order)"
  have get: "get_or ?m SymbolTag [] = ''AAPL''" "get_or ?m SideTag [] = ''1''" "get_or ?m OrderQty [] = ''100''"
      "get_or ?m PriceTag [] = ''150.2500''"
    unfolding m by (simp_all add: get_or_def enc_fields_def enc_head_def enc_body_def tag_defs px num)
  have "length ?m = 13" unfolding m by (simp add: enc_fields_def enc_head_def enc_body_def)
  moreover have "nat_string 13 = ''13''" by code_simp
  ultimately show ?thesis by (simp add: fixsim_def Let_def valid get yes_no_def)
qed

end
