(* ===== verification/Ws_Book.thy ===== *)
theory Ws_Book
  imports App_Base Metrics Tape Synthetic_Book Synthetic_Multi Web_Socket Double_Text
begin

text \<open>
  \<^verbatim>\<open>apps/wsbook.cpp\<close>: replay a synthetic capture and emit JSON snapshots of one book, to the standard
  output or to WebSocket clients. \<open>order\<close> is the iteration order of \<^verbatim>\<open>bs.books()\<close>, \<open>fp\<close> the
  floating-point rounding. The loop over the stream refines a specification by prefixes: the
  snapshots are those of the books after every \<open>every\<close>-th record, numbered from 0, until the target
  is reached or the receiver fails.
\<close>

section \<open>Arguments and data\<close>

record ws_opts =
  wo_port :: int
  wo_dump :: int
  wo_frames :: int
  wo_synth :: int
  wo_symbols :: int
  wo_focus :: string

definition ws_defaults :: ws_opts where
  "ws_defaults = \<lparr>wo_port = 9010, wo_dump = 0, wo_frames = 0, wo_synth = 20000, wo_symbols = 1, wo_focus = []\<rparr>"

function ws_args :: "string list \<Rightarrow> ws_opts \<Rightarrow> ws_opts" where
  "ws_args as p =
     (case as of
        [] \<Rightarrow> p
      | a # r \<Rightarrow>
          if a = ''--dump'' \<and> r \<noteq> [] then ws_args (tl r) (p\<lparr>wo_dump := strtol (hd r)\<rparr>)
          else if a = ''--synthetic'' \<and> r \<noteq> [] then ws_args (tl r) (p\<lparr>wo_synth := strtol (hd r)\<rparr>)
          else if a = ''--symbols'' \<and> r \<noteq> [] then ws_args (tl r) (p\<lparr>wo_symbols := strtol (hd r)\<rparr>)
          else if a = ''--frames'' \<and> r \<noteq> [] then ws_args (tl r) (p\<lparr>wo_frames := strtol (hd r)\<rparr>)
          else if a = ''--symbol'' \<and> r \<noteq> [] then ws_args (tl r) (p\<lparr>wo_focus := hd r\<rparr>)
          else (let (v, e) = strtoll a in ws_args r (if e \<noteq> 0 \<and> e = length a then p\<lparr>wo_port := v\<rparr> else p)))"
  by pat_completeness auto
termination by (relation "measure (\<lambda>(as, p). length as)") auto

declare ws_args.simps [simp del]

lemma ws_args_Nil [simp]: "ws_args [] p = p"
  by (subst ws_args.simps) simp

definition ws_options :: "string list \<Rightarrow> ws_opts" where
  "ws_options args =
     (let p = ws_args args ws_defaults;
          p = (if wo_symbols p < 1 then p\<lparr>wo_symbols := 1\<rparr> else p)
      in if wo_synth p < 1 then p\<lparr>wo_synth := 1\<rparr> else p)"

definition ws_data :: "ws_opts \<Rightarrow> bytes" where
  "ws_data p =
     (if wo_symbols p > 1
      then make_synthetic_multi mt_next (nat (wo_synth p)) (unat (of_int (wo_symbols p) :: u32)) (mt_seed 1)
      else make_synthetic_book mt_next (nat (wo_synth p)) (mt_seed 1))"

section \<open>Snapshots\<close>

definition fmt5 :: "rat \<Rightarrow> string" where
  "fmt5 v = take 31 (fmt_g 5 (Fin v))"

text \<open>The text \<^verbatim>\<open>"k":\<close>.\<close>

definition jkey :: "string \<Rightarrow> string" where
  "jkey k = CHR 0x22 # k @ [CHR 0x22, CHR '':'']"

fun levels_json :: "fp_env \<Rightarrow> nat \<Rightarrow> (Price \<times> Qty) list \<Rightarrow> string \<Rightarrow> string" where
  "levels_json fp i [] s = s"
| "levels_json fp i (l # ls) s =
     levels_json fp (Suc i) ls
       ((if i \<noteq> 0 then s @ '','' else s) @
        ''['' @ fmt5 (to_dollars fp (fst l)) @ '','' @ nat_string (unat (snd l)) @ '']'')"

definition snapshot_json :: "fp_env \<Rightarrow> string \<Rightarrow> map_book \<Rightarrow> tape \<Rightarrow> nat \<Rightarrow> string" where
  "snapshot_json fp sy ob tp seq =
     (let bids = book_bids MapLevels ob 10; asks = book_asks MapLevels ob 10;
          mx = compute_metrics fp MapLevels ob 5;
          s = ''{'' @ jkey ''symbol'' @ [CHR 0x22] @ sy @ [CHR 0x22] @ '','' @ jkey ''seq'' @ nat_string seq @
              '','' @ jkey ''bids'' @ ''['';
          s = levels_json fp 0 bids s;
          s = s @ ''],'' @ jkey ''asks'' @ ''['';
          s = levels_json fp 0 asks s;
          s = s @ ''],'' @ jkey ''mid'' @ fmt5 (m_mid mx) @ '','' @ jkey ''microprice'' @ fmt5 (microprice mx) @
              '','' @ jkey ''imbalance'' @ fmt5 (imbalance_top mx) @ '','' @ jkey ''spread_bps'' @ fmt5 (spread_bps mx);
          s = (if t_has_last tp
               then s @ '','' @ jkey ''last'' @ fmt5 (to_dollars fp (t_last_px tp)) @ '','' @ jkey ''vwap'' @
                    fmt5 (tape_vwap fp tp) @ '','' @ jkey ''volume'' @ u64_string (t_cum_vol tp)
               else s)
      in s @ ''}'')"

definition count_messages :: "bytes \<Rightarrow> nat" where
  "count_messages d = snd (for_each_framed_message d (length d) (\<lambda>m n. n + 1) 0)"

definition focal_locate :: "(book_set \<Rightarrow> u16 list) \<Rightarrow> string \<Rightarrow> book_set \<Rightarrow> u16" where
  "focal_locate order focus bs =
     (if focus \<noteq> [] then case find_locate bs focus (order bs) of Some l \<Rightarrow> l | None \<Rightarrow> 1 else 1)"

definition focal_name :: "book_set \<Rightarrow> u16 \<Rightarrow> string" where
  "focal_name bs l = (let name = bs_symbol bs l in if name = [] then ''SYNTH'' else name)"

section \<open>The stream loop\<close>

record 'e ws_state =
  w_book :: book_set
  w_tape :: tape
  w_applied :: nat
  w_sent :: nat
  w_off :: nat
  w_out :: 'e

definition on_message :: "fp_env \<Rightarrow> Message \<Rightarrow> book_set \<times> tape \<Rightarrow> book_set \<times> tape" where
  "on_message fp m = (\<lambda>(b, t).
     (bs_apply m b,
      if msg_type m = Trade \<or> msg_type m = CrossTrade then on_trade fp (m_price m) (m_shares m) (timestamp m) t else t))"

text \<open>Decode and apply the record at the offset, which is complete, and move behind it.\<close>

definition ws_next :: "fp_env \<Rightarrow> bytes \<Rightarrow> 'e ws_state \<Rightarrow> 'e ws_state" where
  "ws_next fp data st =
     (let mlen = rd_len data (w_off st);
          (ok, m) = decode (Some (drop (w_off st + 2) data)) mlen Message_init;
          (b, t) = (if ok then on_message fp m (w_book st, w_tape st) else (w_book st, w_tape st))
      in st\<lparr>w_book := b, w_tape := t, w_applied := w_applied st + 1, w_off := w_off st + (2 + mlen)\<rparr>)"

lemma ws_next_off [simp]: "w_off (ws_next fp data st) = w_off st + (2 + rd_len data (w_off st))"
  by (simp add: ws_next_def Let_def split: prod.split)

text \<open>\<open>emit\<close> is the receiver of the snapshots and \<open>w_out\<close> its state; \<open>false\<close> ends the stream.\<close>

function stream_loop ::
  "fp_env \<Rightarrow> (book_set \<Rightarrow> u16 list) \<Rightarrow> string \<Rightarrow> bytes \<Rightarrow> nat \<Rightarrow> nat \<Rightarrow> (string \<Rightarrow> 'e \<Rightarrow> bool \<times> 'e) \<Rightarrow>
   'e ws_state \<Rightarrow> 'e ws_state" where
  "stream_loop fp order focus data target every emit st =
     (if w_off st + 2 \<le> length data \<and> w_sent st < target then
        (let mlen = rd_len data (w_off st)
         in if mlen = 0 \<or> w_off st + 2 + mlen > length data then st
            else
              (let st' = ws_next fp data st; b = w_book st'; loc = focal_locate order focus b
               in if w_applied st' mod every = 0 then
                    (case bs_book b loc of
                       None \<Rightarrow> stream_loop fp order focus data target every emit st'
                     | Some ob \<Rightarrow>
                         (case emit (snapshot_json fp (focal_name b loc) ob (w_tape st') (w_sent st')) (w_out st') of
                            (ok, e) \<Rightarrow>
                              if \<not> ok then st'\<lparr>w_out := e\<rparr>
                              else stream_loop fp order focus data target every emit
                                     (st'\<lparr>w_sent := w_sent st' + 1, w_out := e\<rparr>)))
                  else stream_loop fp order focus data target every emit st'))
      else st)"
  by pat_completeness auto
termination by (relation "measure (\<lambda>(fp, order, focus, data, target, every, emit, st). length data - w_off st)") auto

declare stream_loop.simps [simp del]

definition ws_start :: "'e \<Rightarrow> 'e ws_state" where
  "ws_start e = \<lparr>w_book = bs_new, w_tape = tape_new 1000000, w_applied = 0, w_sent = 0, w_off = 0, w_out = e\<rparr>"

definition ws_stream ::
  "fp_env \<Rightarrow> (book_set \<Rightarrow> u16 list) \<Rightarrow> string \<Rightarrow> bytes \<Rightarrow> nat \<Rightarrow> (string \<Rightarrow> 'e \<Rightarrow> bool \<times> 'e) \<Rightarrow> 'e \<Rightarrow> 'e" where
  "ws_stream fp order focus data target emit e =
     (let total = count_messages data; every = total div (target + 1) + 1
      in w_out (stream_loop fp order focus data target every emit (ws_start e)))"

section \<open>The program\<close>

definition print_line :: "string \<Rightarrow> string \<Rightarrow> bool \<times> string" where
  "print_line j out = (True, out @ j @ nl)"

text \<open>One turn of the accept loop: what is written to the error stream, and the connection.\<close>

definition ws_session :: "fp_env \<Rightarrow> (book_set \<Rightarrow> u16 list) \<Rightarrow> ws_opts \<Rightarrow> bytes \<Rightarrow> line_socket \<Rightarrow> string \<times> line_socket" where
  "ws_session fp order p data conn =
     (let (ok, conn) = ws_handshake conn
      in if \<not> ok then ([], conn)
         else let target = (if wo_frames p > 0 then nat (wo_frames p) else 120)
              in (''viewer connected'' @ nl, ws_stream fp order (wo_focus p) data target send_text conn))"

text \<open>\<open>listener\<close> creates the listening socket or raises; \<open>conns\<close> are the connections accepted before
  \<open>accept\<close> raises \<open>msg\<close>. The second result are the connections as they are left.\<close>

definition wsbook ::
  "fp_env \<Rightarrow> (book_set \<Rightarrow> u16 list) \<Rightarrow> string list \<Rightarrow> (u16 \<Rightarrow> string + u16) \<Rightarrow> line_socket list \<Rightarrow> string \<Rightarrow>
   outcome \<times> line_socket list" where
  "wsbook fp order args listener conns msg =
     (let p = ws_options args; data = ws_data p
      in if wo_dump p > 0
         then (\<lparr>exit_code = 0, cout = ws_stream fp order (wo_focus p) data (nat (wo_dump p)) print_line [], cerr = []\<rparr>, [])
         else case listener (of_int (wo_port p)) of
                Inl m \<Rightarrow> (fails 1 (''wsbook error: '' @ m @ nl), [])
              | Inr port \<Rightarrow>
                  (let rs = map (ws_session fp order p data) conns
                   in (\<lparr>exit_code = 1, cout = [],
                        cerr = ''wsbook on 127.0.0.1:'' @ nat_string (unat port) @ '' (Ctrl-C to stop)'' @ nl @
                          concat (map fst rs) @ ''wsbook error: '' @ msg @ nl\<rparr>,
                       map snd rs)))"

section \<open>The specification\<close>

text \<open>What a reader of some records has: its books and its tape, and the snapshot of its focal book.\<close>

definition view_of :: "fp_env \<Rightarrow> bytes list \<Rightarrow> book_set \<times> tape" where
  "view_of fp fs = fold (on_message fp) (List.map_filter decode_frame fs) (bs_new, tape_new 1000000)"

definition focal_book :: "fp_env \<Rightarrow> (book_set \<Rightarrow> u16 list) \<Rightarrow> string \<Rightarrow> bytes list \<Rightarrow> map_book option" where
  "focal_book fp order focus fs = (let b = fst (view_of fp fs) in bs_book b (focal_locate order focus b))"

definition snapshot_of :: "fp_env \<Rightarrow> (book_set \<Rightarrow> u16 list) \<Rightarrow> string \<Rightarrow> nat \<times> bytes list \<Rightarrow> string" where
  "snapshot_of fp order focus = (\<lambda>(seq, fs).
     let b = fst (view_of fp fs)
     in snapshot_json fp (focal_name b (focal_locate order focus b)) (the (focal_book fp order focus fs)) (snd (view_of fp fs)) seq)"

definition sampled :: "nat \<Rightarrow> bytes list \<Rightarrow> bytes list list" where
  "sampled every fs = map (\<lambda>i. take i fs) (filter (\<lambda>i. i mod every = 0) [1..<Suc (length fs)])"

definition snapshots :: "fp_env \<Rightarrow> (book_set \<Rightarrow> u16 list) \<Rightarrow> string \<Rightarrow> nat \<Rightarrow> nat \<Rightarrow> bytes list \<Rightarrow> string list" where
  "snapshots fp order focus target every fs =
     map (snapshot_of fp order focus)
       (enumerate 0 (take target (filter (\<lambda>p. focal_book fp order focus p \<noteq> None) (sampled every fs))))"

text \<open>Handing a list of snapshots to the receiver, which may refuse to go on.\<close>

fun emit_all :: "(string \<Rightarrow> 'e \<Rightarrow> bool \<times> 'e) \<Rightarrow> string list \<Rightarrow> 'e \<Rightarrow> 'e" where
  "emit_all emit [] e = e"
| "emit_all emit (j # js) e = (let (ok, e') = emit j e in if ok then emit_all emit js e' else e')"

text \<open>The snapshots still to come, after the records \<open>ds\<close> and \<open>k\<close> snapshots.\<close>

fun remaining :: "fp_env \<Rightarrow> (book_set \<Rightarrow> u16 list) \<Rightarrow> string \<Rightarrow> nat \<Rightarrow> nat \<Rightarrow> bytes list \<Rightarrow> bytes list \<Rightarrow> nat \<Rightarrow> string list" where
  "remaining fp order focus target every ds [] k = []"
| "remaining fp order focus target every ds (f # fs) k =
     (if k < target
      then if Suc (length ds) mod every = 0 \<and> focal_book fp order focus (ds @ [f]) \<noteq> None
           then snapshot_of fp order focus (k, ds @ [f]) # remaining fp order focus target every (ds @ [f]) fs (Suc k)
           else remaining fp order focus target every (ds @ [f]) fs k
      else [])"

lemma view_of_snoc:
  "view_of fp (ds @ [f]) = (case decode_frame f of None \<Rightarrow> view_of fp ds | Some m \<Rightarrow> on_message fp m (view_of fp ds))"
  by (simp add: view_of_def map_filter_simps List.map_filter_def split: option.split)

lemma remaining_none: "target \<le> k \<Longrightarrow> remaining fp order focus target every ds fs k = []"
  by (cases fs) simp_all

lemma stream_loop_remaining:
  assumes "deframe (drop (w_off st) data) = fs" "w_off st \<le> length data"
    and "view_of fp ds = (w_book st, w_tape st)" "w_applied st = length ds"
  shows "w_out (stream_loop fp order focus data target every emit st) =
         emit_all emit (remaining fp order focus target every ds fs (w_sent st)) (w_out st)"
  using assms
proof (induction fs arbitrary: st ds)
  case Nil
  then have "\<not> (w_off st + 2 \<le> length data) \<or> rd_len data (w_off st) = 0 \<or>
      w_off st + 2 + rd_len data (w_off st) > length data"
    using deframe_at [OF refl, of "w_off st" data] by fastforce
  then show ?case by (subst stream_loop.simps) (auto simp: Let_def)
next
  case (Cons f fs)
  let ?mlen = "rd_len data (w_off st)"
  have fits: "w_off st + 2 \<le> length data" "?mlen \<noteq> 0" "w_off st + 2 + ?mlen \<le> length data"
    using Cons.prems(1) deframe_at_Nil [OF refl, of "w_off st" data] by fastforce+
  have f: "f = take ?mlen (drop (w_off st + 2) data)" "deframe (drop (w_off st + (2 + ?mlen)) data) = fs"
    using Cons.prems(1) deframe_at [OF refl fits] by simp_all
  have len_f: "length f = ?mlen" using f(1) fits(3) by (auto simp: min_def)
  obtain b t where bt: "view_of fp (ds @ [f]) = (b, t)" by fastforce
  obtain ok m where dm: "decode (Some (drop (w_off st + 2) data)) ?mlen Message_init = (ok, m)" by fastforce
  then have dec: "decode_frame f = (if ok then Some m else None)"
    unfolding decode_frame_def len_f by (simp add: f(1) decode_reads_len_bytes)
  have upd: "(if ok then on_message fp m (w_book st, w_tape st) else (w_book st, w_tape st)) = (b, t)"
    using bt Cons.prems(3) dec by (simp add: view_of_snoc split: if_splits)
  let ?st = "ws_next fp data st"
  have st: "?st = st\<lparr>w_book := b, w_tape := t, w_applied := Suc (length ds), w_off := w_off st + (2 + ?mlen)\<rparr>"
    using upd Cons.prems(4) dm by (simp add: ws_next_def Let_def)
  let ?loc = "focal_locate order focus b"
  let ?loop = "stream_loop fp order focus data target every emit"
  have IH: "w_out (?loop s) = emit_all emit (remaining fp order focus target every (ds @ [f]) fs (w_sent s)) (w_out s)"
    if "w_off s = w_off ?st" "w_book s = b" "w_tape s = t" "w_applied s = Suc (length ds)" for s
    using that fits(3) f(2) bt by (intro Cons.IH) simp_all
  have sel: "w_book ?st = b" "w_tape ?st = t" "w_applied ?st = Suc (length ds)" "w_sent ?st = w_sent st" "w_out ?st = w_out st"
    by (simp_all add: st)
  have fb: "focal_book fp order focus (ds @ [f]) = bs_book b ?loc"
      "snapshot_of fp order focus (k, ds @ [f]) = snapshot_json fp (focal_name b ?loc) (the (bs_book b ?loc)) t k" for k
    by (simp_all add: focal_book_def snapshot_of_def bt Let_def)
  show ?case
    using fits
    by (subst stream_loop.simps) (simp add: sel fb IH remaining_none Let_def split: option.split prod.split)
qed

definition sampled_from :: "nat \<Rightarrow> bytes list \<Rightarrow> bytes list \<Rightarrow> bytes list list" where
  "sampled_from every ds fs =
     map (\<lambda>i. ds @ take i fs) (filter (\<lambda>i. (length ds + i) mod every = 0) [1..<Suc (length fs)])"

lemma sampled_from_simps:
  "sampled_from every ds [] = []"
  "sampled_from every ds (f # fs) =
     (if Suc (length ds) mod every = 0 then [ds @ [f]] else []) @ sampled_from every (ds @ [f]) fs"
proof -
  have up: "[1..<Suc (Suc n)] = 1 # map Suc [1..<Suc n]" for n by (simp add: upt_conv_Cons map_Suc_upt del: upt_Suc)
  show "sampled_from every ds (f # fs) =
     (if Suc (length ds) mod every = 0 then [ds @ [f]] else []) @ sampled_from every (ds @ [f]) fs"
    unfolding sampled_from_def list.size add_Suc_right add_0_right up by (simp add: filter_map comp_def del: upt_Suc)
qed (simp add: sampled_from_def)

lemma remaining_eq:
  "remaining fp order focus target every ds fs k =
     map (snapshot_of fp order focus)
       (enumerate k (take (target - k) (filter (\<lambda>p. focal_book fp order focus p \<noteq> None) (sampled_from every ds fs))))"
proof (induction fs arbitrary: ds k)
  case (Cons f fs)
  have suc: "k < target \<Longrightarrow> target - k = Suc (target - Suc k)" by simp
  show ?case using Cons [of "ds @ [f]"] by (auto simp: sampled_from_simps suc)
qed (simp add: sampled_from_simps)

lemma ws_stream_eq:
  "ws_stream fp order focus data target emit e =
     emit_all emit (snapshots fp order focus target (length (framed_messages data) div (target + 1) + 1) (deframe data)) e"
proof -
  have every: "count_messages data = length (framed_messages data)"
  proof -
    have "fold (\<lambda>m n. n + 1) ms k = k + length ms" for ms :: "Message list" and k by (induction ms arbitrary: k) auto
    then show ?thesis by (simp add: count_messages_def for_each_framed_eq)
  qed
  have "sampled_from every [] fs = sampled every fs" for every fs by (simp add: sampled_from_def sampled_def)
  then show ?thesis
    using stream_loop_remaining [of "ws_start e" data "deframe data" fp "[]" order focus target _ emit]
    by (simp add: ws_stream_def every Let_def ws_start_def view_of_def map_filter_simps remaining_eq snapshots_def)
qed

lemma emit_all_print: "emit_all print_line js out = out @ concat (map (\<lambda>j. j @ nl) js)"
  by (induction js arbitrary: out) (simp_all add: print_line_def)

lemma multiples: "every > 0 \<Longrightarrow> filter (\<lambda>i. i mod every = 0) [1..<Suc n] = map (\<lambda>i. Suc i * every) [0..<n div every]"
proof (induction n)
  case (Suc n)
  show ?case
  proof (cases "Suc n mod every = 0")
    case True
    then have "Suc n div every = Suc (n div every)" by (simp add: div_Suc)
    moreover from this True have "Suc (n div every) * every = Suc n" by (metis mod_0_imp_dvd dvd_div_mult_self)
    ultimately show ?thesis using Suc True by simp
  next
    case False
    then have "Suc n div every = n div every" by (simp add: div_Suc)
    then show ?thesis using Suc False by simp
  qed
qed simp

lemma sampled_eq: "every > 0 \<Longrightarrow> sampled every fs = map (\<lambda>i. take (Suc i * every) fs) [0..<length fs div every]"
  by (simp only: sampled_def multiples map_map comp_def)

lemma map_filter_take:
  assumes "length (List.map_filter f xs) = length xs"
  shows "List.map_filter f (take i xs) = take i (List.map_filter f xs)"
  using assms
proof (induction xs arbitrary: i)
  case (Cons x xs)
  have "length (List.map_filter f xs) \<le> length xs" by (induction xs) (auto simp: map_filter_simps split: option.split)
  with Cons.prems obtain y where "f x = Some y" "length (List.map_filter f xs) = length xs"
    by (auto simp: map_filter_simps split: option.splits)
  with Cons.IH show ?case by (cases i) (simp_all add: map_filter_simps)
qed (simp add: map_filter_simps)

text \<open>The tape of some messages.\<close>

definition tape_of :: "fp_env \<Rightarrow> Message list \<Rightarrow> tape" where
  "tape_of fp ms =
     fold (\<lambda>m. on_trade fp (m_price m) (m_shares m) (timestamp m))
       (filter (\<lambda>m. msg_type m = Trade \<or> msg_type m = CrossTrade) ms) (tape_new 1000000)"

lemma fold_on_message:
  "fold (on_message fp) ms (b, t) =
     (bs_run ms b, fold (\<lambda>m. on_trade fp (m_price m) (m_shares m) (timestamp m))
       (filter (\<lambda>m. msg_type m = Trade \<or> msg_type m = CrossTrade) ms) t)"
  by (induction ms arbitrary: b t) (simp_all add: on_message_def bs_run_def)

lemma view_of_eq: "view_of fp fs = (bs_run (List.map_filter decode_frame fs) bs_new, tape_of fp (List.map_filter decode_frame fs))"
  by (simp add: view_of_def fold_on_message tape_of_def)

text \<open>A stream about one symbol whose first record opens its book, read in full.\<close>

lemma snapshots_single:
  assumes "length (framed_messages data) = length (deframe data)" "\<forall>m \<in> set (framed_messages data). stock_locate m = 1"
    and "framed_messages data \<noteq> []" "opens_book (hd (framed_messages data))" "every > 0"
    and "js = snapshots fp order [] target every (deframe data)"
  shows "length js = min target (length (framed_messages data) div every)"
    and "i < length js \<Longrightarrow> seen = take (Suc i * every) (framed_messages data) \<Longrightarrow>
      js ! i = snapshot_json fp (focal_name (bs_run seen bs_new) 1) (book_run MapLevels seen) (tape_of fp seen) i"
proof -
  let ?ms = "framed_messages data"
  have mf: "List.map_filter decode_frame (take k (deframe data)) = take k ?ms" for k
    using assms(1) by (simp add: map_filter_take framed_messages_def)
  have book: "focal_book fp order [] (take k (deframe data)) = Some (book_run MapLevels (take k ?ms))" if "k > 0" for k
  proof -
    have "hd ?ms \<in> set (take k ?ms)" using that assms(3) by (cases ?ms; cases k) auto
    moreover have "filter (at_locate 1) (take k ?ms) = take k ?ms"
      using assms(2) by (auto simp: at_locate_def intro!: filter_True dest: in_set_takeD)
    ultimately show ?thesis using assms(2-4)
      by (auto simp: focal_book_def focal_locate_def view_of_eq mf Let_def bs_run_new_book at_locate_def)
  qed
  have sm: "sampled every (deframe data) = map (\<lambda>i. take (Suc i * every) (deframe data)) [0..<length ?ms div every]"
    using assms(1,5) by (simp add: sampled_eq del: mult_Suc)
  have all: "filter (\<lambda>p. focal_book fp order [] p \<noteq> None) (sampled every (deframe data)) = sampled every (deframe data)"
    using book assms(5) by (intro filter_True) (auto simp: sm simp del: mult_Suc)
  show len: "length js = min target (length ?ms div every)"
    unfolding assms(6) snapshots_def all by (simp add: sm min.commute)
  assume i: "i < length js" and seen: "seen = take (Suc i * every) ?ms"
  then have "js ! i = snapshot_of fp order [] (i, take (Suc i * every) (deframe data))"
    unfolding assms(6) snapshots_def all by (simp add: sm nth_enumerate_eq del: mult_Suc)
  then show "js ! i = snapshot_json fp (focal_name (bs_run seen bs_new) 1) (book_run MapLevels seen) (tape_of fp seen) i"
    using book [of "Suc i * every"] assms(5) seen
    by (simp add: snapshot_of_def view_of_eq mf Let_def focal_locate_def del: mult_Suc)
qed

section \<open>Size of a snapshot\<close>

text \<open>A snapshot fits a small buffer: twenty levels and ten numbers.\<close>

lemma length_fmt5: "length (fmt5 v) \<le> 31"
  by (simp add: fmt5_def)

lemma length_qty: "length (nat_string (unat (q :: u32))) \<le> 10"
  using unat_u32_less [of q] length_dec_less [of "unat q" 10] by (simp add: nat_string_def to_string_def)

lemma length_u64_string: "length (u64_string x) \<le> 20"
  using unsigned_less [of x, where ?'a = nat] length_dec_less [of "unat x" 20]
  by (simp add: u64_string_def to_string_def nat_uint_eq)

lemma length_levels_json: "length (levels_json fp i ls s) \<le> length s + 45 * length ls"
proof (induction ls arbitrary: i s)
  case (Cons l ls)
  let ?s = "(if i \<noteq> 0 then s @ '','' else s) @ ''['' @ fmt5 (to_dollars fp (fst l)) @ '','' @ nat_string (unat (snd l)) @ '']''"
  have "length ?s \<le> length s + 45" using length_fmt5 [of "to_dollars fp (fst l)"] length_qty [of "snd l"] by simp
  with Cons [of "Suc i" ?s] show ?case by simp
qed simp

lemma length_book_side: "length (book_bids MapLevels ob n) \<le> n" "length (book_asks MapLevels ob n) \<le> n"
  by (simp_all add: book_bids_def book_asks_def MapLevels_def)

lemma length_snapshot:
  assumes "length sy \<le> 8" "seq < 10 ^ 19"
  shows "length (snapshot_json fp sy ob tp seq) \<le> 2000"
proof -
  have n: "length (nat_string seq) \<le> 19" using length_dec_less [of seq 19] assms(2) by (simp add: nat_string_def to_string_def)
  have lv: "length (levels_json fp 0 (book_bids MapLevels ob 10) s) \<le> length s + 450"
      "length (levels_json fp 0 (book_asks MapLevels ob 10) s) \<le> length s + 450" for s
    using length_levels_json [of fp 0 "book_bids MapLevels ob 10" s] length_levels_json [of fp 0 "book_asks MapLevels ob 10" s]
      length_book_side [of ob 10] by linarith+
  let ?mx = "compute_metrics fp MapLevels ob 5"
  note f = length_fmt5 [of "m_mid ?mx"] length_fmt5 [of "microprice ?mx"] length_fmt5 [of "imbalance_top ?mx"]
    length_fmt5 [of "spread_bps ?mx"] length_fmt5 [of "to_dollars fp (t_last_px tp)"] length_fmt5 [of "tape_vwap fp tp"]
  define s1 where "s1 = ''{'' @ jkey ''symbol'' @ [CHR 0x22] @ sy @ [CHR 0x22] @ '','' @ jkey ''seq'' @ nat_string seq @
      '','' @ jkey ''bids'' @ ''[''"
  define s2 where "s2 = levels_json fp 0 (book_bids MapLevels ob 10) s1 @ ''],'' @ jkey ''asks'' @ ''[''"
  have "length s1 \<le> 60" using n assms(1) by (simp add: s1_def jkey_def)
  then have "length s2 \<le> 600" using lv(1) [of s1] by (simp add: s2_def jkey_def)
  then have "length (levels_json fp 0 (book_asks MapLevels ob 10) s2) \<le> 1050" using lv(2) [of s2] by simp
  then show ?thesis
    using f length_u64_string [of "t_cum_vol tp"]
    by (simp add: snapshot_json_def Let_def jkey_def s1_def [symmetric, unfolded jkey_def, simplified] s2_def [symmetric, unfolded jkey_def, simplified])
qed

lemma length_symbol: "length (bs_symbol (bs_run ms bs_new) l) \<le> 8"
proof -
  have tr: "length (trim s) \<le> 8" for s
  proof -
    have "trim_loop s n \<le> n" for n by (induction n) auto
    then show ?thesis by (metis trim_def length_take min.coboundedI2 le_trans min.cobounded2)
  qed
  have "map_of (bs_symbols (bs_run ms bs_new)) l = Some s \<Longrightarrow> length s \<le> 8" for s
  proof (induction ms rule: rev_induct)
    case (snoc m ms)
    then show ?case using tr by (auto simp: bs_run_def bs_apply_symbols split: if_splits)
  qed (simp add: bs_run_def bs_new_def)
  then show ?thesis by (simp add: bs_symbol_def split: option.split)
qed

lemma length_snapshots:
  assumes "j \<in> set (snapshots fp order focus target every fs)" "target < 10 ^ 19"
  shows "length j \<le> 2000"
proof -
  obtain seq ds where j: "j = snapshot_of fp order focus (seq, ds)" "seq < target"
    using assms(1) by (auto simp: snapshots_def in_set_enumerate_eq)
  have "length (focal_name (bs_run ms bs_new) l) \<le> 8" for ms l
    using length_symbol [of ms l] by (simp add: focal_name_def Let_def)
  then show ?thesis using j assms(2) by (auto simp: snapshot_of_def view_of_eq Let_def intro!: length_snapshot)
qed

section \<open>Properties\<close>

lemma ws_dump_args:
  assumes "0 < k" "k < 2 ^ 63" "0 < n" "n < 2 ^ 63"
  shows "ws_options [''--dump'', nat_string k, ''--synthetic'', nat_string n] = ws_defaults\<lparr>wo_dump := int k, wo_synth := int n\<rparr>"
proof -
  have "ws_args [''--synthetic'', nat_string n] p = p\<lparr>wo_synth := int n\<rparr>" for p
    by (subst ws_args.simps) (simp add: strtol_nat [OF assms(4)])
  then have "ws_args [''--dump'', nat_string k, ''--synthetic'', nat_string n] ws_defaults =
      ws_defaults\<lparr>wo_dump := int k, wo_synth := int n\<rparr>"
    by (subst ws_args.simps) (simp add: strtol_nat [OF assms(2)])
  with assms show ?thesis by (simp add: ws_options_def ws_defaults_def Let_def)
qed

lemma evenly_spaced:
  assumes "k * (k + 1) \<le> (n :: nat)"
  shows "k \<le> n div (n div (k + 1) + 1)"
proof -
  let ?q = "n div (k + 1)"
  have "k \<le> ?q" using assms by (simp add: less_eq_div_iff_mult_less_eq)
  moreover have "?q * (k + 1) \<le> n" by (rule div_times_less_eq_dividend)
  ultimately have "k * (?q + 1) \<le> n" by (simp add: algebra_simps)
  then show ?thesis by (simp add: less_eq_div_iff_mult_less_eq)
qed



text \<open>A viewer: the payloads of up to \<open>k\<close> frames, until reading one fails.\<close>

fun read_frames :: "nat \<Rightarrow> nat \<Rightarrow> line_socket \<Rightarrow> string list" where
  "read_frames mem 0 s = []"
| "read_frames mem (Suc k) s = (case read_frame mem s of (WS_frame p oc, s') \<Rightarrow> p # read_frames mem k s' | _ \<Rightarrow> [])"

lemma read_frames_encoded:
  assumes "no_timeouts s" "pending s = concat (map frame_text js) @ rest" "\<forall>j \<in> set js. length j < 2 ^ 64 \<and> length j \<le> mem"
  shows "read_frames mem (length js) s = js"
  using assms
proof (induction js arbitrary: s)
  case (Cons j js)
  have "pending s = ws_encode 0x81 None j @ concat (map frame_text js) @ rest"
    using Cons.prems(2) frame_text_encode [of j] by simp
  from read_frame_encode [OF Cons.prems(1) this, of mem] Cons.prems(3)
  obtain s' where "read_frame mem s = (WS_frame j (0x81 AND 0x0F), s')" "no_timeouts s'"
      "pending s' = concat (map frame_text js) @ rest" by auto
  with Cons show ?case by simp
qed simp

lemma emit_all_send_text:
  "\<exists>i k. i \<le> length js \<and> ls_sent (emit_all send_text js s) =
     ls_sent s @ concat (map frame_text (take i js)) @ (if i < length js then take k (frame_text (js ! i)) else [])"
proof (induction js arbitrary: s)
  case (Cons j js)
  obtain ok s' where s': "send_all (frame_text j) s = (ok, s')" by fastforce
  show ?case
  proof (cases ok)
    case True
    with s' send_all_result have "ls_sent s' = ls_sent s @ frame_text j" by blast
    moreover from Cons obtain i k where "i \<le> length js" "ls_sent (emit_all send_text js s') =
        ls_sent s' @ concat (map frame_text (take i js)) @ (if i < length js then take k (frame_text (js ! i)) else [])"
      by blast
    ultimately show ?thesis using s' True
      by - (rule exI [of _ "Suc i"], rule exI [of _ k], simp add: send_text_def [of j])
  next
    case False
    have "\<exists>k. ls_sent s' = ls_sent s @ take k (frame_text j)"
      using s' False send_loop_prefix [where d = "frame_text j" and tx = "ls_tx s" and sent = "ls_sent s"] by (auto simp: send_all_def split: prod.splits)
    then obtain k where "ls_sent s' = ls_sent s @ take k (frame_text j)" ..
    with s' False show ?thesis by - (rule exI [of _ 0], rule exI [of _ k], simp add: send_text_def)
  qed
qed simp



end
