(* ===== verification/Latency_Report.thy ===== *)
theory Latency_Report
  imports App_Base Latency_Hist Synthetic Double_Text
begin

text \<open>
  The texts made of latency samples: \<^verbatim>\<open>LatencyHist::print\<close> of \<^verbatim>\<open>include/core/latency_hist.hpp\<close> and the
  program \<^verbatim>\<open>bench/latency_json.cpp\<close>, which times decoding and applying every message of a synthetic
  session by message type. The clock is a parameter: \<open>lat i\<close> are the nanoseconds between the two
  readings around record \<open>i\<close>. The samples per type and overall are exactly those of the messages
  that change a book, whatever the clock shows.
\<close>

section \<open>Printing a histogram\<close>

text \<open>\<^verbatim>\<open>operator<<\<close> for a double: six significant digits.\<close>

definition dbl_text :: "rat \<Rightarrow> string" where
  "dbl_text x = fmt_g 6 (Fin x)"

definition hist_row_text :: "u64 \<times> u64 \<times> nat \<times> nat \<Rightarrow> string" where
  "hist_row_text = (\<lambda>(lo, hi, bars, n).
     ''    ['' @ u64_string lo @ '','' @ u64_string hi @ '')  '' @ replicate bars CHR ''#'' @ ''  '' @ nat_string n @ nl)"

definition print_histogram :: "samples \<Rightarrow> string" where
  "print_histogram xs =
     (if xs = [] then []
      else ''  distribution (ns, log2 buckets):'' @ nl @ concat (map hist_row_text (hist_rows xs)))"

definition hist_print :: "fp_env \<Rightarrow> string \<Rightarrow> samples \<Rightarrow> string" where
  "hist_print fp label xs =
     label @ ''  (n='' @ nat_string (hist_count xs) @ '')'' @ nl @
     ''  mean   '' @ dbl_text (hist_mean fp xs) @ '' ns'' @ nl @
     ''  p50    '' @ u64_string (percentile fp 50 xs) @ '' ns'' @ nl @
     ''  p99    '' @ u64_string (percentile fp 99 xs) @ '' ns'' @ nl @
     ''  p99.9  '' @ u64_string (percentile fp (fp_double fp (999 / 10)) xs) @ '' ns'' @ nl @
     ''  max    '' @ u64_string (hist_max xs) @ '' ns'' @ nl @ print_histogram xs"

section \<open>The latency program\<close>

definition kTypes :: "(MsgType \<times> string \<times> char) list" where
  "kTypes =
     [(AddOrder, ''Add Order'', CHR ''A''), (AddOrderMpid, ''Add Order (MPID)'', CHR ''F''),
      (OrderExecuted, ''Order Executed'', CHR ''E''), (OrderExecutedWithPrice, ''Order Executed w/ Price'', CHR ''C''),
      (OrderCancel, ''Order Cancel'', CHR ''X''), (OrderDelete, ''Order Delete'', CHR ''D''),
      (OrderReplace, ''Order Replace'', CHR ''U'')]"

definition kNTypes :: nat where "kNTypes = length kTypes"

fun index_loop :: "MsgType \<Rightarrow> nat \<Rightarrow> (MsgType \<times> string \<times> char) list \<Rightarrow> int" where
  "index_loop t i [] = - 1"
| "index_loop t i (k # ks) = (if fst k = t then int i else index_loop t (Suc i) ks)"

definition index_of :: "MsgType \<Rightarrow> int" where
  "index_of t = index_loop t 0 kTypes"

definition emit_hist_fields :: "fp_env \<Rightarrow> samples \<Rightarrow> string" where
  "emit_hist_fields fp h =
     quoted ''count'' @ '': '' @ nat_string (hist_count h) @
     '', '' @ quoted ''p50_ns'' @ '': '' @ u64_string (percentile fp 50 h) @
     '', '' @ quoted ''p95_ns'' @ '': '' @ u64_string (percentile fp 95 h) @
     '', '' @ quoted ''p99_ns'' @ '': '' @ u64_string (percentile fp 99 h) @
     '', '' @ quoted ''max_ns'' @ '': '' @ u64_string (hist_max h)"

text \<open>A span is an offset into the data and a length.\<close>

function spans_loop :: "bytes \<Rightarrow> nat \<Rightarrow> (nat \<times> nat) list" where
  "spans_loop data off =
     (if off + 2 \<le> length data
      then let mlen = rd_len data off
           in if mlen = 0 \<or> off + 2 + mlen > length data then []
              else (off + 2, mlen) # spans_loop data (off + (2 + mlen))
      else [])"
  by pat_completeness auto
termination by (relation "measure (\<lambda>(data, off). length data - off)") auto

declare spans_loop.simps [simp del]

record lat_state =
  lr_per_type :: "samples list"
  lr_overall :: samples
  lr_book :: map_book

definition lat_start :: lat_state where
  "lat_start = \<lparr>lr_per_type = replicate kNTypes [], lr_overall = [], lr_book = book_new MapLevels\<rparr>"

definition lat_step :: "(nat \<Rightarrow> u64) \<Rightarrow> bytes \<Rightarrow> nat \<times> nat \<times> nat \<Rightarrow> lat_state \<Rightarrow> lat_state" where
  "lat_step lat data = (\<lambda>(i, p, len) st.
     let (ok, m) = decode (Some (drop p data)) len Message_init;
         st = (if ok then st\<lparr>lr_book := book_apply MapLevels m (lr_book st)\<rparr> else st);
         ns = lat i; idx = index_of (msg_type m)
     in if \<not> ok then st
        else if idx < 0 then st
        else st\<lparr>lr_per_type := (lr_per_type st)[nat idx := hist_add ns (lr_per_type st ! nat idx)],
                lr_overall := hist_add ns (lr_overall st)\<rparr>)"

definition timed_replay :: "(nat \<Rightarrow> u64) \<Rightarrow> bytes \<Rightarrow> lat_state" where
  "timed_replay lat data = fold (lat_step lat data) (enumerate 0 (spans_loop data 0)) lat_start"

text \<open>The rows of the types that occur, with a comma and a line end between them.\<close>

fun per_type_rows :: "fp_env \<Rightarrow> bool \<Rightarrow> ((MsgType \<times> string \<times> char) \<times> samples) list \<Rightarrow> string" where
  "per_type_rows fp first [] = []"
| "per_type_rows fp first ((k, h) # ks) =
     (if hist_count h = 0 then per_type_rows fp first ks
      else (if \<not> first then '','' @ nl else []) @
           ''    { '' @ quoted ''type'' @ '': '' @ quoted (fst (snd k)) @ '', '' @ quoted ''code'' @ '': '' @
           quoted [snd (snd k)] @ '', '' @ emit_hist_fields fp h @ '' }'' @ per_type_rows fp False ks)"

definition lat_json :: "fp_env \<Rightarrow> string option \<Rightarrow> lat_state \<Rightarrow> string" where
  "lat_json fp generated_at st =
     ''{'' @ nl @
     (case generated_at of
        Some g \<Rightarrow> if g \<noteq> [] then ''  '' @ quoted ''generated_at'' @ '': '' @ quoted g @ '','' @ nl else []
      | None \<Rightarrow> []) @
     ''  '' @ quoted ''environment'' @ '': '' @
       quoted ''GitHub Actions ubuntu-latest (virtualized; relative figures, not absolute)'' @ '','' @ nl @
     ''  '' @ quoted ''method'' @ '': '' @
       quoted (''steady_clock per message; times decode + book.apply only (no IO/setup); '' @
         ''deterministic synthetic ITCH 5.0, seed=1'') @ '','' @ nl @
     ''  '' @ quoted ''sample_messages'' @ '': '' @ nat_string (hist_count (lr_overall st)) @ '','' @ nl @
     ''  '' @ quoted ''per_type'' @ '': ['' @ nl @ per_type_rows fp True (zip kTypes (lr_per_type st)) @ nl @ ''  ],'' @ nl @
     ''  '' @ quoted ''overall'' @ '': { '' @ emit_hist_fields fp (lr_overall st) @ '' }'' @ nl @
     ''}'' @ nl"

text \<open>\<open>opens path\<close> tells whether the output file can be opened; the second result is what is written
  to it.\<close>

definition latency_json ::
  "fp_env \<Rightarrow> string list \<Rightarrow> (nat \<Rightarrow> u64) \<Rightarrow> string option \<Rightarrow> (string \<Rightarrow> bool) \<Rightarrow> outcome \<times> string option" where
  "latency_json fp args lat generated_at opens =
     (let n = (if args \<noteq> [] then strtol (hd args) else 200000);
          out_path = (if length args \<ge> 2 then Some (args ! 1) else None)
      in if n \<le> 0 then (fails 2 (''error: N must be positive'' @ nl), None)
         else
           (let data = make_synthetic_itch mt_next (nat n) (mt_seed 1); st = timed_replay lat data; js = lat_json fp generated_at st
            in case out_path of
                 None \<Rightarrow> (\<lparr>exit_code = 0, cout = js, cerr = []\<rparr>, None)
               | Some path \<Rightarrow>
                   if \<not> opens path then (fails 1 (''error: cannot write '' @ path @ nl), None)
                   else (\<lparr>exit_code = 0, cout = [],
                          cerr = ''wrote latency JSON ('' @ nat_string (hist_count (lr_overall st)) @
                            '' book-affecting messages) to '' @ path @ nl\<rparr>, Some js)))"

section \<open>What is measured\<close>

text \<open>The decoded messages with the time each took.\<close>

definition measured :: "(nat \<Rightarrow> u64) \<Rightarrow> nat \<Rightarrow> bytes list \<Rightarrow> (Message \<times> u64) list" where
  "measured lat i fs = List.map_filter (\<lambda>(j, f). map_option (\<lambda>m. (m, lat j)) (decode_frame f)) (enumerate i fs)"

definition samples_of :: "MsgType set \<Rightarrow> (Message \<times> u64) list \<Rightarrow> samples" where
  "samples_of T ps = map snd (filter (\<lambda>p. msg_type (fst p) \<in> T) ps)"

definition lat_after :: "(Message \<times> u64) list \<Rightarrow> lat_state \<Rightarrow> lat_state" where
  "lat_after ps st = \<lparr>
     lr_per_type = map (\<lambda>(k, xs). xs @ samples_of {fst k} ps) (zip kTypes (lr_per_type st)),
     lr_overall = lr_overall st @ samples_of order_types ps,
     lr_book = fold (book_apply MapLevels) (map fst ps) (lr_book st)\<rparr>"

lemma index_of_types:
  "index_of t < 0 \<longleftrightarrow> t \<notin> order_types" "i < kNTypes \<Longrightarrow> fst (kTypes ! i) = t \<longleftrightarrow> index_of t = int i"
  by (cases t; simp add: index_of_def kTypes_def order_types_def)
    (cases t; auto simp: index_of_def kTypes_def kNTypes_def less_Suc_eq)

abbreviation lat_ok :: "lat_state \<Rightarrow> bool" where
  "lat_ok st \<equiv> length (lr_per_type st) = kNTypes"

lemma samples_of_simps [simp]:
  "samples_of T [] = []"
  "samples_of T (p # ps) = (if msg_type (fst p) \<in> T then snd p # samples_of T ps else samples_of T ps)"
  by (simp_all add: samples_of_def)

lemma lat_after_ok [simp]: "lat_ok st \<Longrightarrow> lat_ok (lat_after ps st)"
  by (simp add: lat_after_def kNTypes_def)

lemma lat_after_Nil: "lat_ok st \<Longrightarrow> lat_after [] st = st"
  by (auto simp: lat_after_def kNTypes_def intro!: nth_equalityI lat_state.equality)

lemma lat_after_Cons: "lat_ok st \<Longrightarrow> lat_after (p # ps) st = lat_after ps (lat_after [p] st)"
  by (auto simp: lat_after_def kNTypes_def intro!: nth_equalityI)

lemma lat_step_spec:
  assumes "lat_ok st" "f = take len (drop p data)" "length f = len"
  shows "lat_step lat data (i, p, len) st =
    (case decode_frame f of None \<Rightarrow> st | Some m \<Rightarrow> lat_after [(m, lat i)] st)"
proof -
  obtain ok m where dm: "decode (Some (drop p data)) len Message_init = (ok, m)" by fastforce
  then have df: "decode_frame f = (if ok then Some m else None)"
    unfolding decode_frame_def assms(3) by (simp add: assms(2) decode_reads_len_bytes)
  have per: "(lr_per_type st)[nat (index_of (msg_type m)) := hist_add (lat i) (lr_per_type st ! nat (index_of (msg_type m)))] =
      map (\<lambda>(k, xs). xs @ samples_of {fst k} [(m, lat i)]) (zip kTypes (lr_per_type st))" if "\<not> index_of (msg_type m) < 0"
  proof (rule nth_equalityI)
    fix j
    assume "j < length ((lr_per_type st)[nat (index_of (msg_type m)) := hist_add (lat i) (lr_per_type st ! nat (index_of (msg_type m)))])"
    then have j: "j < kNTypes" "j < length (lr_per_type st)" "j < length kTypes" using assms(1) by (simp_all add: kNTypes_def)
    have "nat (index_of (msg_type m)) = j \<longleftrightarrow> msg_type m = fst (kTypes ! j)"
      using index_of_types(2) [OF j(1), of "msg_type m"] that by (metis int_nat_eq nat_int not_less)
    then show "(lr_per_type st)[nat (index_of (msg_type m)) := hist_add (lat i) (lr_per_type st ! nat (index_of (msg_type m)))] ! j =
        map (\<lambda>(k, xs). xs @ samples_of {fst k} [(m, lat i)]) (zip kTypes (lr_per_type st)) ! j"
      using j by (auto simp: nth_list_update hist_add_def)
  qed (simp add: assms(1) kNTypes_def)
  have none: "map (\<lambda>(k, xs). xs @ samples_of {fst k} [(m, lat i)]) (zip kTypes (lr_per_type st)) = lr_per_type st"
    if "index_of (msg_type m) < 0"
  proof -
    have "fst k \<noteq> msg_type m" if "k \<in> set kTypes" for k
      using that index_of_types(2) [of _ "msg_type m"] \<open>index_of (msg_type m) < 0\<close>
      by (metis in_set_conv_nth kNTypes_def negative_zless not_less of_nat_0_le_iff)
    then have "map (\<lambda>(k, xs). xs @ samples_of {fst k} [(m, lat i)]) (zip kTypes (lr_per_type st)) = map snd (zip kTypes (lr_per_type st))"
      by (intro map_cong refl) (fastforce dest: set_zip_leftD)
    then show ?thesis using assms(1) by (simp add: kNTypes_def)
  qed
  show ?thesis
    using per none index_of_types(1) [of "msg_type m"]
    by (cases "index_of (msg_type m) < 0")
      (simp_all add: lat_step_def dm df lat_after_def Let_def hist_add_def)
qed

lemma timed_loop:
  assumes "off \<le> length data" "lat_ok st"
  shows "fold (lat_step lat data) (enumerate i (spans_loop data off)) st = lat_after (measured lat i (deframe (drop off data))) st"
  using assms
proof (induction data off arbitrary: i st rule: spans_loop.induct)
  case (1 data off)
  let ?mlen = "rd_len data off"
  show ?case
  proof (cases "off + 2 \<le> length data \<and> ?mlen \<noteq> 0 \<and> off + 2 + ?mlen \<le> length data")
    case True
    let ?f = "take ?mlen (drop (off + 2) data)"
    have sp: "spans_loop data off = (off + 2, ?mlen) # spans_loop data (off + (2 + ?mlen))"
      using True by (subst spans_loop.simps) (simp add: Let_def)
    have df: "deframe (drop off data) = ?f # deframe (drop (off + (2 + ?mlen)) data)"
      using True by (intro deframe_at [OF refl]) auto
    have len: "length ?f = ?mlen" using True by auto
    let ?st = "lat_step lat data (i, off + 2, ?mlen) st"
    have st: "?st = (case decode_frame ?f of None \<Rightarrow> st | Some m \<Rightarrow> lat_after [(m, lat i)] st)"
      by (rule lat_step_spec [OF "1.prems"(2) refl len])
    then have ok: "lat_ok ?st" using "1.prems"(2) by (simp split: option.split)
    have "fold (lat_step lat data) (enumerate i (spans_loop data off)) st =
        lat_after (measured lat (Suc i) (deframe (drop (off + (2 + ?mlen)) data))) ?st"
      using True "1.IH" [OF _ refl _ _ ok, of "Suc i"] unfolding sp by simp
    then show ?thesis
      unfolding df st
      using lat_after_Cons [OF "1.prems"(2), of _ "measured lat (Suc i) (deframe (drop (off + (2 + ?mlen)) data))"]
      by (cases "decode_frame ?f") (simp_all add: measured_def map_filter_simps)
  next
    case False
    then have "deframe (drop off data) = []" by (intro deframe_at_Nil [OF refl]) auto
    moreover have "spans_loop data off = []" using False by (subst spans_loop.simps) (auto simp: Let_def)
    ultimately show ?thesis using lat_after_Nil [OF "1.prems"(2)] by (simp add: measured_def map_filter_simps)
  qed
qed

lemma measured_messages: "map fst (measured lat i fs) = List.map_filter decode_frame fs"
  by (induction fs arbitrary: i) (simp_all add: measured_def map_filter_simps split: option.split)

lemma timed_replay_spec:
  "timed_replay lat data = lat_after (measured lat 0 (deframe data)) lat_start"
  using timed_loop [of 0 data lat_start lat 0] by (simp add: timed_replay_def lat_start_def)

lemma samples_partition:
  "mset (samples_of order_types ps) = mset (concat (map (\<lambda>k. samples_of {fst k} ps) kTypes))"
proof (induction ps)
  case (Cons p ps)
  then show ?case by (cases "msg_type (fst p)") (simp_all add: kTypes_def order_types_def)
qed (simp add: kTypes_def)

section \<open>Properties\<close>



text \<open>The rows printed are those of the types with samples.\<close>

lemma per_type_rows_none: "\<forall>kh \<in> set ks. snd kh = [] \<Longrightarrow> per_type_rows fp b ks = []"
  by (induction ks) (auto simp: hist_count_def)

end
