(* ===== verification/Ob_Replay.thy ===== *)
theory Ob_Replay
  imports App_Base Latency_Report Metrics Tape Pipeline Synthetic_Multi
begin

text \<open>
  \<^verbatim>\<open>apps/obreplay.cpp\<close>: replay a capture into a book set, on one thread or sharded, and report the
  counts, the busiest symbols, one focal book with its signals and tape, and the latencies.
  Parameters are the floating-point rounding \<open>fp\<close>, the iteration order of \<^verbatim>\<open>book.books()\<close>, the result
  \<open>rank\<close> of \<^verbatim>\<open>std::sort\<close> (which may order equal counts as it likes), what the file system holds,
  the final state of the sharded threads and the clock: \<open>wall\<close> nanoseconds for the replay,
  \<open>lat i\<close> for record \<open>i\<close>.
\<close>

section \<open>Input\<close>

definition ends_with :: "string \<Rightarrow> string \<Rightarrow> bool" where
  "ends_with s suf \<longleftrightarrow> length s \<ge> length suf \<and> drop (length s - length suf) s = suf"

text \<open>\<open>gz\<close> is \<open>None\<close> in a build without zlib; otherwise it gives what can be decompressed from a
  file, if it can be opened, as \<open>plain\<close> gives the bytes of a file.\<close>

definition load_file ::
  "(string \<Rightarrow> bytes option) option \<Rightarrow> (string \<Rightarrow> bytes option) \<Rightarrow> string \<Rightarrow> string + bytes" where
  "load_file gz plain path =
     (if ends_with path ''.gz'' then
        (case gz of
           Some g \<Rightarrow> (case g path of None \<Rightarrow> Inl (''error: cannot open '' @ path @ nl) | Some d \<Rightarrow> Inr d)
         | None \<Rightarrow>
             Inl (''error: '' @ path @ '' is gzip but this build has no zlib.'' @ nl @
                  ''       gunzip it first, or rebuild with zlib available.'' @ nl))
      else case plain path of None \<Rightarrow> Inl (''error: cannot open '' @ path @ nl) | Some d \<Rightarrow> Inr d)"

definition usage :: string where
  "usage =
     ''usage:'' @ nl @
     ''  obreplay <capture.itch | capture.gz> [--symbol SYM] [--bars] [--threads W]'' @ nl @
     ''  obreplay --synthetic <N> [--symbols K] [--symbol SYM] [--bars] [--threads W]'' @ nl"

record ob_opts =
  oo_focus :: string
  oo_synth :: int
  oo_file :: string
  oo_bars :: bool
  oo_threads :: int
  oo_symbols :: int

definition ob_defaults :: ob_opts where
  "ob_defaults = \<lparr>oo_focus = [], oo_synth = 0, oo_file = [], oo_bars = False, oo_threads = 1, oo_symbols = 1\<rparr>"

function ob_args :: "string list \<Rightarrow> ob_opts \<Rightarrow> ob_opts option" where
  "ob_args as p =
     (case as of
        [] \<Rightarrow> Some p
      | a # r \<Rightarrow>
          if a = ''--symbol'' \<and> r \<noteq> [] then ob_args (tl r) (p\<lparr>oo_focus := hd r\<rparr>)
          else if a = ''--synthetic'' \<and> r \<noteq> [] then ob_args (tl r) (p\<lparr>oo_synth := strtol (hd r)\<rparr>)
          else if a = ''--threads'' \<and> r \<noteq> [] then ob_args (tl r) (p\<lparr>oo_threads := strtol (hd r)\<rparr>)
          else if a = ''--symbols'' \<and> r \<noteq> [] then ob_args (tl r) (p\<lparr>oo_symbols := strtol (hd r)\<rparr>)
          else if a = ''--bars'' then ob_args r (p\<lparr>oo_bars := True\<rparr>)
          else if a \<noteq> [] \<and> hd a \<noteq> CHR ''-'' then ob_args r (p\<lparr>oo_file := a\<rparr>)
          else None)"
  by pat_completeness auto
termination by (relation "measure (\<lambda>(as, p). length as)") auto

declare ob_args.simps [simp del]

lemma ob_args_Nil [simp]: "ob_args [] p = Some p"
  by (subst ob_args.simps) simp

text \<open>The data and the name of their source, or the exit code and the message.\<close>

definition ob_source ::
  "(string \<Rightarrow> bytes option) option \<Rightarrow> (string \<Rightarrow> bytes option) \<Rightarrow> ob_opts \<Rightarrow> (int \<times> string) + (bytes \<times> string)" where
  "ob_source gz plain p =
     (if oo_synth p > 0 then
        Inr (if oo_symbols p > 1
             then make_synthetic_multi mt_next (nat (oo_synth p)) (unat (of_int (oo_symbols p) :: u32)) (mt_seed 1)
             else make_synthetic_itch mt_next (nat (oo_synth p)) (mt_seed 1),
             ''synthetic('' @ to_string (oo_synth p) @
             (if oo_symbols p > 1 then '', '' @ to_string (oo_symbols p) @ '' symbols)'' else '')''))
      else if oo_file p \<noteq> [] then
        (case load_file gz plain (oo_file p) of Inl e \<Rightarrow> Inl (1, e) | Inr d \<Rightarrow> Inr (d, oo_file p))
      else Inl (2, usage))"

section \<open>Passes over the data\<close>

definition count_bs_apply :: "Message \<Rightarrow> book_set \<times> nat \<Rightarrow> book_set \<times> nat" where
  "count_bs_apply m = (\<lambda>(b, n). (bs_apply m b, n + 1))"

text \<open>\<open>sharded data W\<close> is the result of the replay on \<open>W\<close> threads.\<close>

definition ob_pass1 :: "(bytes \<Rightarrow> u32 \<Rightarrow> nat \<times> book_set) \<Rightarrow> bytes \<Rightarrow> int \<Rightarrow> nat \<times> book_set" where
  "ob_pass1 sharded data threads =
     (if threads > 1 then sharded data (of_int threads)
      else let (off, (b, n)) = for_each_framed_message data (length data) count_bs_apply (bs_new, 0) in (n, b))"

definition tapes_step :: "fp_env \<Rightarrow> Message \<Rightarrow> (u16 \<times> tape) list \<Rightarrow> (u16 \<times> tape) list" where
  "tapes_step fp m tapes =
     (if msg_type m = Trade \<or> msg_type m = CrossTrade then
        let l = stock_locate m; t = (case map_of tapes l of Some t \<Rightarrow> t | None \<Rightarrow> tape_new 1000000)
        in AList.update l (on_trade fp (m_price m) (m_shares m) (timestamp m) t) tapes
      else tapes)"

definition ob_tapes :: "fp_env \<Rightarrow> bytes \<Rightarrow> (u16 \<times> tape) list" where
  "ob_tapes fp data = snd (for_each_framed_message data (length data) (tapes_step fp) [])"

function ob_pass2 :: "(nat \<Rightarrow> u64) \<Rightarrow> bytes \<Rightarrow> nat \<Rightarrow> nat \<Rightarrow> book_set \<times> samples \<Rightarrow> book_set \<times> samples" where
  "ob_pass2 lat data i off st =
     (if off + 2 \<le> length data then
        (let mlen = rd_len data off
         in if mlen = 0 \<or> off + 2 + mlen > length data then st
            else let (ok, m) = decode (Some (drop (off + 2) data)) mlen Message_init;
                     b2 = (if ok then bs_apply m (fst st) else fst st)
                 in ob_pass2 lat data (Suc i) (off + (2 + mlen)) (b2, hist_add (lat i) (snd st)))
      else st)"
  by pat_completeness auto
termination by (relation "measure (\<lambda>(lat, data, i, off, st). length data - off)") auto

declare ob_pass2.simps [simp del]

section \<open>The report\<close>

definition label :: "book_set \<Rightarrow> u16 \<Rightarrow> string" where
  "label bs l = (let s = bs_symbol bs l in if s = [] then ''locate '' @ nat_string (unat l) else s)"

definition best_text :: "fp_env \<Rightarrow> string \<Rightarrow> (Price \<times> Qty) option \<Rightarrow> string" where
  "best_text fp side b =
     (case b of
        Some (p, q) \<Rightarrow> side @ '' '' @ dbl_text (to_dollars fp p) @ '' x '' @ nat_string (unat q)
      | None \<Rightarrow> side @ '' (empty)'')"

definition print_top :: "fp_env \<Rightarrow> book_set \<Rightarrow> u16 \<Rightarrow> string" where
  "print_top fp bs l =
     (case bs_book bs l of
        None \<Rightarrow> []
      | Some ob \<Rightarrow>
          ''  ['' @ label bs l @ '']  '' @ best_text fp ''bid'' (best_bid MapLevels ob) @ ''  |  '' @
          best_text fp ''ask'' (best_ask MapLevels ob) @ ''   ('' @ nat_string (order_count ob) @ '' orders, '' @
          nat_string (bid_levels MapLevels ob) @ '' bid / '' @ nat_string (ask_levels MapLevels ob) @ '' ask levels)'' @ nl)"

text \<open>Quotients of doubles, whose divisor may be 0 (positive) when the clock shows no time.\<close>

definition ddiv :: "fp_env \<Rightarrow> rat \<Rightarrow> rat \<Rightarrow> dbl" where
  "ddiv fp x y = (if y = 0 then if x = 0 then NaN else Infty (x < 0) else round_dbl fp (x / y))"

definition head_text :: "fp_env \<Rightarrow> string \<Rightarrow> bytes \<Rightarrow> nat \<Rightarrow> nat \<Rightarrow> string" where
  "head_text fp source data n wall =
     (let ns = fp_double fp (of_nat wall)
      in ''obreplay  source='' @ source @ nl @
         ''  bytes        '' @ nat_string (length data) @ nl @
         ''  messages     '' @ nat_string n @ nl @
         ''  wall time    '' @ fmt_g 6 (ddiv fp ns 1000000) @ '' ms'' @ nl @
         ''  throughput   '' @ fmt_g 6 (ddiv fp (fp_double fp (of_nat n)) (fp_double fp (ns / 1000000000))) @ '' msg/s'' @ nl @
         ''  per message  '' @ fmt_g 6 (ddiv fp ns (fp_double fp (of_nat (if n \<noteq> 0 then n else 1)))) @
         '' ns (amortized)'' @ nl @ nl)"

definition ob_ranked :: "(book_set \<Rightarrow> u16 list) \<Rightarrow> ((u16 \<times> nat) list \<Rightarrow> (u16 \<times> nat) list) \<Rightarrow> book_set \<Rightarrow> (u16 \<times> nat) list" where
  "ob_ranked order rank bs =
     rank (map (\<lambda>l. (l, case bs_book bs l of Some ob \<Rightarrow> order_count ob | None \<Rightarrow> 0)) (order bs))"

definition top_text :: "fp_env \<Rightarrow> book_set \<Rightarrow> (u16 \<times> nat) list \<Rightarrow> string" where
  "top_text fp bs ranked =
     ''books: '' @ nat_string (book_count bs) @ '' symbol(s), '' @ nat_string (total_orders bs) @ '' resting orders'' @ nl @
     (let show = min (length ranked) 10
      in (if show \<noteq> 0 then nl @ ''top symbols by resting orders:'' @ nl else []) @
         concat (map (\<lambda>i. print_top fp bs (fst (ranked ! i))) [0..<show]))"

text \<open>The focal symbol, and what is printed when the one asked for is not found.\<close>

definition ob_focus :: "(book_set \<Rightarrow> u16 list) \<Rightarrow> string \<Rightarrow> book_set \<Rightarrow> (u16 \<times> nat) list \<Rightarrow> string \<times> u16 option" where
  "ob_focus order focus bs ranked =
     (let asked =
            (if focus = [] then ([], None)
             else case find_locate bs focus (order bs) of
                    Some l \<Rightarrow> ([], Some l)
                  | None \<Rightarrow>
                      (let (v, e) = strtoll focus
                       in if e \<noteq> 0 \<and> bs_book bs (of_int v) \<noteq> None then ([], Some (of_int v))
                          else (nl @ ''(symbol '' @ quoted focus @ '' not found; showing the busiest)'' @ nl, None)))
      in (fst asked,
          case snd asked of
            Some l \<Rightarrow> Some l
          | None \<Rightarrow> if ranked \<noteq> [] then Some (fst (hd ranked)) else None))"

definition side_text :: "fp_env \<Rightarrow> (Price \<times> Qty) list \<Rightarrow> string" where
  "side_text fp ls =
     concat (map (\<lambda>l. ''  '' @ dbl_text (to_dollars fp (fst l)) @ ''x'' @ nat_string (unat (snd l))) ls) @
     (if ls = [] then ''  (empty)'' else [])"

definition bar_text :: "fp_env \<Rightarrow> Bar \<Rightarrow> string" where
  "bar_text fp bar =
     ''    o '' @ dbl_text (to_dollars fp (bar_open bar)) @ ''  h '' @ dbl_text (to_dollars fp (bar_high bar)) @
     ''  l '' @ dbl_text (to_dollars fp (bar_low bar)) @ ''  c '' @ dbl_text (to_dollars fp (bar_close bar)) @
     ''  v '' @ u64_string (bar_volume bar) @ ''  vwap '' @ dbl_text (bar_vwap bar) @ nl"

definition tape_text :: "fp_env \<Rightarrow> bool \<Rightarrow> tape \<Rightarrow> string" where
  "tape_text fp show_bars tp =
     ''tape:'' @ nl @
     ''  last         '' @ dbl_text (to_dollars fp (t_last_px tp)) @ nl @
     ''  volume       '' @ u64_string (t_cum_vol tp) @ nl @
     ''  vwap         '' @ dbl_text (tape_vwap fp tp) @ nl @
     (if show_bars
      then let bars = tape_bars fp True tp
           in ''  OHLCV bars ('' @ nat_string (length bars) @ ''):'' @ nl @ concat (map (bar_text fp) bars)
      else [])"

text \<open>The report on the focal book; \<open>None\<close> when there is no book at the locate, where the program
  dereferences a null pointer.\<close>

definition focus_text :: "fp_env \<Rightarrow> bool \<Rightarrow> book_set \<Rightarrow> (u16 \<times> tape) list \<Rightarrow> u16 \<Rightarrow> string option" where
  "focus_text fp show_bars bs tapes l =
     (case bs_book bs l of
        None \<Rightarrow> None
      | Some ob \<Rightarrow>
          (let mx = compute_metrics fp MapLevels ob 5
           in Some (
             nl @ ''depth (best 5) for '' @ label bs l @ '':'' @ nl @ ''  bids:'' @ side_text fp (book_bids MapLevels ob 5) @
             nl @ ''  asks:'' @ side_text fp (book_asks MapLevels ob 5) @ nl @
             (if two_sided mx
              then ''signals:'' @ nl @
                   ''  mid          '' @ dbl_text (m_mid mx) @ nl @
                   ''  micro-price  '' @ dbl_text (microprice mx) @ nl @
                   ''  spread       '' @ to_string (spread_ticks mx) @ '' ticks  ('' @ dbl_text (spread_bps mx) @ '' bps)'' @ nl @
                   ''  imbalance    top '' @ dbl_text (imbalance_top mx) @ ''  / 5-level '' @ dbl_text (imbalance_n mx) @ nl
              else []) @
             (case map_of tapes l of
                Some tp \<Rightarrow> if t_has_last tp then tape_text fp show_bars tp else []
              | None \<Rightarrow> []))))"

definition obreplay ::
  "fp_env \<Rightarrow> (book_set \<Rightarrow> u16 list) \<Rightarrow> ((u16 \<times> nat) list \<Rightarrow> (u16 \<times> nat) list) \<Rightarrow>
   (string \<Rightarrow> bytes option) option \<Rightarrow> (string \<Rightarrow> bytes option) \<Rightarrow> (bytes \<Rightarrow> u32 \<Rightarrow> nat \<times> book_set) \<Rightarrow> nat \<Rightarrow> (nat \<Rightarrow> u64) \<Rightarrow>
   string list \<Rightarrow> outcome option" where
  "obreplay fp order rank gz plain sharded wall lat args =
     (case ob_args args ob_defaults of
        None \<Rightarrow> Some (fails 2 usage)
      | Some p \<Rightarrow>
          (let p = (if oo_threads p < 1 then p\<lparr>oo_threads := 1\<rparr> else p)
           in case ob_source gz plain p of
                Inl (code, e) \<Rightarrow> Some (fails code e)
              | Inr (data, source) \<Rightarrow>
                  if data = [] then Some (fails 1 (''error: empty input'' @ nl))
                  else
                    (let (n, book) = ob_pass1 sharded data (oo_threads p);
                         tapes = ob_tapes fp data;
                         hist = snd (ob_pass2 lat data 0 0 (bs_new, []));
                         ranked = ob_ranked order rank book;
                         (note, focus) = ob_focus order (oo_focus p) book ranked;
                         part = (case focus of None \<Rightarrow> Some [] | Some l \<Rightarrow> focus_text fp (oo_bars p) book tapes l)
                     in map_option (\<lambda>ft.
                          \<lparr>exit_code = 0,
                           cout = head_text fp source data n wall @ top_text fp book ranked @ note @ ft @ nl @
                             hist_print fp ''per-message decode+apply latency [includes timer overhead; see README]'' hist,
                           cerr = []\<rparr>) part)))"

section \<open>The passes\<close>

lemma ob_pass1_single:
  assumes "threads \<le> 1"
  shows "ob_pass1 sharded data threads = (length (framed_messages data), bs_run (framed_messages data) bs_new)"
proof -
  have "fold count_bs_apply ms (b, n) = (bs_run ms b, n + length ms)" for ms b n
    by (induction ms arbitrary: b n) (simp_all add: count_bs_apply_def bs_run_def)
  then show ?thesis using assms by (simp add: ob_pass1_def for_each_framed_eq)
qed

text \<open>The threads of the sharded replay have run to their end, in whatever order.\<close>

definition shards_finish :: "(bytes \<Rightarrow> u32 \<Rightarrow> nat \<times> book_set) \<Rightarrow> bool" where
  "shards_finish sharded \<longleftrightarrow>
     (\<forall>data W. \<exists>f0 f. sharded_start (sharded_workers W) = Some f0 \<and> sharded_steps (sharded_workers W) data f0 f \<and>
        fan_final f \<and> sharded data W = sharded_result f bs_new)"

lemma distinct_bs_run: "distinct (map fst (bs_books bs)) \<Longrightarrow> distinct (map fst (bs_books (bs_run ms bs)))"
proof (induction ms arbitrary: bs)
  case (Cons m ms)
  have "distinct (map fst (bs_books (bs_apply m bs)))"
    using Cons.prems by (simp add: bs_apply_def Let_def distinct_update)
  with Cons.IH show ?case by (simp add: bs_run_def)
qed (simp add: bs_run_def)

lemma distinct_merge_all: "distinct (map fst (bs_books out)) \<Longrightarrow> distinct (map fst (bs_books (merge_all ss out)))"
proof (induction ss arbitrary: out)
  case (Cons s ss)
  then have "distinct (map fst (bs_books (fst (merge_from out s))))" by (simp add: merge_from_def distinct_emplace)
  with Cons.IH show ?case by (simp add: merge_all_def)
qed (simp add: merge_all_def)

abbreviation keyed :: "book_set \<Rightarrow> bool" where
  "keyed bs \<equiv> distinct (book_keys bs)"

lemma ob_pass1_result:
  assumes "shards_finish sharded" "ob_pass1 sharded data threads = (n, b)"
  shows "n = length (framed_messages data) \<and> same_set b (bs_run (framed_messages data) bs_new) \<and> keyed b"
proof (cases "threads > 1")
  case True
  let ?W = "of_int threads :: u32"
  obtain f0 f where f: "sharded_start (sharded_workers ?W) = Some f0" "sharded_steps (sharded_workers ?W) data f0 f"
      "fan_final f" "sharded data ?W = sharded_result f bs_new"
    using assms(1) unfolding shards_finish_def by blast
  from sharded_parity [OF refl f(1-3)] f(4) True assms(2) distinct_merge_all [of bs_new "states f"]
  show ?thesis by (auto simp: ob_pass1_def for_each_framed_eq bs_run_def sharded_result_def book_keys_def bs_new_def)
next
  case False
  then show ?thesis
    using assms(2) distinct_bs_run [of bs_new "framed_messages data"]
    by (auto simp: ob_pass1_single same_set_def book_keys_def bs_new_def)
qed

lemma ob_pass2_samples:
  assumes "off \<le> length data"
  shows "snd (ob_pass2 lat data i off st) = snd st @ map lat [i..<i + length (deframe (drop off data))]"
  using assms
proof (induction lat data i off st rule: ob_pass2.induct)
  case (1 lat data i off st)
  let ?mlen = "rd_len data off"
  show ?case
  proof (cases "off + 2 \<le> length data \<and> ?mlen \<noteq> 0 \<and> off + 2 + ?mlen \<le> length data")
    case True
    obtain ok m where dm: "decode (Some (drop (off + 2) data)) ?mlen Message_init = (ok, m)" by fastforce
    let ?st = "(if ok then bs_apply m (fst st) else fst st, hist_add (lat i) (snd st))"
    have step: "ob_pass2 lat data i off st = ob_pass2 lat data (Suc i) (off + (2 + ?mlen)) ?st"
      using True dm by (subst ob_pass2.simps) (simp add: Let_def)
    have df: "deframe (drop off data) = take ?mlen (drop (off + 2) data) # deframe (drop (off + (2 + ?mlen)) data)"
      using True by (intro deframe_at [OF refl]) auto
    have "snd (ob_pass2 lat data (Suc i) (off + (2 + ?mlen)) ?st) =
        snd ?st @ map lat [Suc i..<Suc i + length (deframe (drop (off + (2 + ?mlen)) data))]"
      using True dm by (intro "1.IH" [OF _ refl _ dm [symmetric] refl]) auto
    then show ?thesis unfolding step df by (simp add: hist_add_def upt_conv_Cons del: upt_Suc)
  next
    case False
    then have "deframe (drop off data) = []" by (intro deframe_at_Nil [OF refl]) auto
    with False show ?thesis by (subst ob_pass2.simps) (auto simp: Let_def)
  qed
qed

definition trades_at :: "u16 \<Rightarrow> Message list \<Rightarrow> Message list" where
  "trades_at l ms = filter (\<lambda>m. at_locate l m \<and> (msg_type m = Trade \<or> msg_type m = CrossTrade)) ms"

lemma ob_tapes_lookup:
  "map_of (ob_tapes fp data) l =
     (let ts = trades_at l (framed_messages data)
      in if ts = [] then None
         else Some (tape_run fp 1000000 (map (\<lambda>m. (m_price m, m_shares m, timestamp m)) ts)))"
proof -
  have "map_of (fold (tapes_step fp) ms tapes) l =
      (let ts = trades_at l ms
       in if ts = [] then map_of tapes l
          else Some (fold (\<lambda>(px, q, t). on_trade fp px q t) (map (\<lambda>m. (m_price m, m_shares m, timestamp m)) ts)
                 (case map_of tapes l of Some t \<Rightarrow> t | None \<Rightarrow> tape_new 1000000)))" for ms tapes
    by (induction ms arbitrary: tapes)
      (auto simp: tapes_step_def trades_at_def at_locate_def Let_def update_conv' split: option.split)
  then show ?thesis by (simp add: ob_tapes_def for_each_framed_eq tape_run_def Let_def)
qed

section \<open>Equal sets give equal reports\<close>

lemma same_set_text:
  assumes "same_set a b"
  shows "label a l = label b l" "print_top fp a l = print_top fp b l"
    "focus_text fp bars a tapes l = focus_text fp bars b tapes l"
proof -
  have eq: "bs_book a l = bs_book b l" "bs_symbol a l = bs_symbol b l"
    using assms by (simp_all add: same_set_def bs_symbol_def)
  then show lab: "label a l = label b l" by (simp add: label_def)
  show "print_top fp a l = print_top fp b l" "focus_text fp bars a tapes l = focus_text fp bars b tapes l"
    unfolding print_top_def focus_text_def eq lab by (rule refl)+
qed

definition order_counts :: "book_set \<Rightarrow> u16 \<Rightarrow> nat" where
  "order_counts bs l = (case bs_book bs l of Some ob \<Rightarrow> order_count ob | None \<Rightarrow> 0)"

lemma total_orders_keys: "keyed bs \<Longrightarrow> total_orders bs = (\<Sum>l \<in> set (book_keys bs). order_counts bs l)"
proof -
  assume k: "keyed bs"
  have "fold (\<lambda>kv n. n + order_count (snd kv)) kvs c = c + (\<Sum>kv\<leftarrow>kvs. order_count (snd kv))"
    for kvs :: "(u16 \<times> map_book) list" and c
    by (induction kvs arbitrary: c) auto
  then have "total_orders bs = (\<Sum>kv\<leftarrow>bs_books bs. order_count (snd kv))" by (simp add: total_orders_def)
  also have "\<dots> = (\<Sum>kv\<leftarrow>bs_books bs. order_counts bs (fst kv))"
    using k by (intro arg_cong [of _ _ sum_list] map_cong refl) (auto simp: order_counts_def bs_book_def book_keys_def)
  also have "\<dots> = (\<Sum>l\<leftarrow>book_keys bs. order_counts bs l)" by (simp add: book_keys_def comp_def)
  finally show ?thesis using k by (simp add: sum_list_distinct_conv_sum_set)
qed

lemma same_set_counts:
  assumes "same_set a b" "keyed a" "keyed b"
  shows "book_count a = book_count b" "total_orders a = total_orders b"
proof -
  have s: "set (book_keys a) = set (book_keys b)" using assms(1) book_keys_iff by (auto simp: same_set_def)
  have "card (set (book_keys a)) = book_count a" "card (set (book_keys b)) = book_count b"
    using distinct_card [OF assms(2)] distinct_card [OF assms(3)] by (simp_all add: book_count_def book_keys_def)
  with s show "book_count a = book_count b" by simp
  have "order_counts a = order_counts b" using assms(1) by (simp add: same_set_def order_counts_def fun_eq_iff)
  with s show "total_orders a = total_orders b" by (simp add: total_orders_keys assms(2,3))
qed

section \<open>Ranking\<close>

text \<open>The contract of \<^verbatim>\<open>std::sort\<close> with the comparison by descending counts: a permutation in
  descending order, equal counts in any order.\<close>

locale replay_report = book_iteration order for order :: "book_set \<Rightarrow> u16 list" +
  fixes rank :: "(u16 \<times> nat) list \<Rightarrow> (u16 \<times> nat) list"
  assumes rank_mset: "mset (rank xs) = mset xs"
    and rank_sorted: "sorted_wrt (\<lambda>a b. snd a \<ge> snd b) (rank xs)"
begin

lemma ranked_eq: "ob_ranked order rank bs = rank (map (\<lambda>l. (l, order_counts bs l)) (order bs))"
  by (simp add: ob_ranked_def order_counts_def)

lemma set_ranked: "set (ob_ranked order rank bs) = (\<lambda>l. (l, order_counts bs l)) ` {l. bs_book bs l \<noteq> None}"
proof -
  have "set (ob_ranked order rank bs) = set (map (\<lambda>l. (l, order_counts bs l)) (order bs))"
    unfolding ranked_eq by (metis rank_mset set_mset_mset)
  then show ?thesis using set_order book_keys_iff by auto
qed

lemma ranked_Nil: "ob_ranked order rank bs = [] \<longleftrightarrow> bs_books bs = []"
proof -
  have "ob_ranked order rank bs = [] \<longleftrightarrow> {l. bs_book bs l \<noteq> None} = {}"
    by (simp only: set_empty [symmetric] set_ranked image_is_empty)
  also have "{l. bs_book bs l \<noteq> None} = set (book_keys bs)" by (simp add: set_eq_iff book_keys_iff)
  finally show ?thesis by (simp add: book_keys_def)
qed

lemma ranked_front:
  assumes "ob_ranked order rank bs \<noteq> []"
  shows "order_counts bs l \<le> order_counts bs (fst (hd (ob_ranked order rank bs)))"
proof (cases "bs_book bs l")
  case None
  then show ?thesis by (simp add: order_counts_def)
next
  case (Some ob)
  obtain x xs where r: "ob_ranked order rank bs = x # xs" using assms by (cases "ob_ranked order rank bs") auto
  have "(l, order_counts bs l) \<in> set (x # xs)" using Some set_ranked [of bs] r by auto
  moreover have "\<forall>y \<in> set xs. snd y \<le> snd x" using rank_sorted r unfolding ranked_eq by (metis sorted_wrt.simps(2))
  moreover have "x \<in> set (ob_ranked order rank bs)" using r by simp
  then have "snd x = order_counts bs (fst x)" unfolding set_ranked by auto
  ultimately show ?thesis using r by auto
qed

lemma focus_has_book:
  assumes "ob_focus order focus bs (ob_ranked order rank bs) = (note, Some l)"
  shows "bs_book bs l \<noteq> None"
proof -
  have "x \<in> set (ob_ranked order rank bs) \<Longrightarrow> bs_book bs (fst x) \<noteq> None" for x unfolding set_ranked by auto
  then have front: "ob_ranked order rank bs \<noteq> [] \<Longrightarrow> bs_book bs (fst (hd (ob_ranked order rank bs))) \<noteq> None" by simp
  show ?thesis
    using assms front found_has_book [of bs focus]
    by (auto simp: ob_focus_def Let_def split: if_splits option.splits prod.splits)
qed

lemma focus_found: "find_locate bs focus (order bs) = Some l \<Longrightarrow> focus \<noteq> [] \<Longrightarrow> ob_focus order focus bs r = ([], Some l)"
  by (simp add: ob_focus_def Let_def)

lemma focus_exists:
  "bs_books bs \<noteq> [] \<Longrightarrow> \<exists>l. snd (ob_focus order focus bs (ob_ranked order rank bs)) = Some l"
  using ranked_Nil [of bs] by (auto simp: ob_focus_def Let_def split: option.split prod.split)

end

definition by_count :: "(u16 \<times> nat) list \<Rightarrow> (u16 \<times> nat) list" where
  "by_count xs = rev (sort_key snd xs)"

interpretation report: replay_report book_keys by_count
proof
  show "mset (by_count xs) = mset xs" for xs by (simp add: by_count_def)
  have "sorted_wrt (\<lambda>a b. snd a \<le> snd b) (sort_key snd xs)" for xs :: "(u16 \<times> nat) list"
    using sorted_sort_key [of snd xs] by (simp add: sorted_wrt_map)
  then show "sorted_wrt (\<lambda>a b. snd a \<ge> snd b) (by_count xs)" for xs by (simp add: by_count_def sorted_wrt_rev)
qed

section \<open>Properties\<close>

lemma replay_reportI:
  assumes "\<And>bs. mset (order bs) = mset (book_keys bs)" "\<And>xs. mset (rank xs) = mset xs"
    and "\<And>xs. sorted_wrt (\<lambda>a b. snd a \<ge> snd b) (rank xs)"
  shows "replay_report order rank"
  using assms by unfold_locales

lemma focus_part:
  assumes "replay_report order rank"
  shows "\<exists>ft. (case snd (ob_focus order focus bs (ob_ranked order rank bs)) of
     None \<Rightarrow> Some [] | Some l \<Rightarrow> focus_text fp bars bs tapes l) = Some ft"
  using replay_report.focus_has_book [OF assms, of focus bs]
  by (cases "ob_focus order focus bs (ob_ranked order rank bs)")
    (auto simp: focus_text_def Let_def split: option.split)

lemma obreplay_run:
  assumes "ob_args args ob_defaults = Some p" "\<not> oo_threads p < 1" "ob_source gz plain p = Inr (data, source)" "data \<noteq> []"
    and "ob_pass1 sharded data (oo_threads p) = (n, b)"
    and "ob_focus order (oo_focus p) b (ob_ranked order rank b) = (nt, focus)"
    and "(case focus of None \<Rightarrow> Some [] | Some l \<Rightarrow> focus_text fp (oo_bars p) b (ob_tapes fp data) l) = Some ft"
  shows "obreplay fp order rank gz plain sharded wall lat args = Some
    \<lparr>exit_code = 0,
     cout = head_text fp source data n wall @ top_text fp b (ob_ranked order rank b) @ nt @ ft @ nl @
       hist_print fp ''per-message decode+apply latency [includes timer overhead; see README]''
         (snd (ob_pass2 lat data 0 0 (bs_new, []))), cerr = []\<rparr>"
  using assms by (simp add: obreplay_def Let_def)

lemma load_file_message: "load_file gz plain path = Inl e \<Longrightarrow> e \<noteq> []"
  by (auto simp: load_file_def nl_def split: if_splits option.splits)



lemma sorted_desc_unique:
  assumes "mset xs = mset ys" "sorted_wrt (\<ge>) xs" "sorted_wrt (\<ge>) (ys :: nat list)"
  shows "xs = ys"
proof -
  have "sorted (rev xs)" "sorted (rev ys)" using assms(2,3) by (simp_all add: sorted_wrt_rev)
  then have "rev xs = rev ys" using assms(1) by (metis mset_rev properties_for_sort)
  then show ?thesis by simp
qed

lemma ranked_counts:
  assumes "replay_report order rank" "same_set a b" "keyed a" "keyed b"
  shows "map snd (ob_ranked order rank a) = map snd (ob_ranked order rank b)"
proof -
  note rr = replay_report.ranked_eq [OF assms(1)] replay_report.rank_mset [OF assms(1)] replay_report.rank_sorted [OF assms(1)]
  have bi: "book_iteration order" using assms(1) by (simp add: replay_report_def)
  have "set (book_keys a) = set (book_keys b)" using assms(2) book_keys_iff by (auto simp: same_set_def)
  then have keys: "mset (order a) = mset (order b)"
    using book_iteration.order_keys [OF bi] assms(3,4) set_eq_iff_mset_eq_distinct by metis
  have "order_counts a = order_counts b" using assms(2) by (simp add: same_set_def order_counts_def fun_eq_iff)
  then have "mset (ob_ranked order rank a) = mset (ob_ranked order rank b)" by (simp add: rr(1,2) keys)
  then have eq: "mset (map snd (ob_ranked order rank a)) = mset (map snd (ob_ranked order rank b))" by simp
  have sorted: "sorted_wrt (\<ge>) (map snd (ob_ranked order rank x))" for x
    using rr(3) by (simp add: rr(1) sorted_wrt_map)
  show ?thesis by (rule sorted_desc_unique [OF eq sorted sorted])
qed


text \<open>Every number of threads has a schedule that finishes, so that the hypothesis can be met.\<close>

definition run_shards :: "bytes \<Rightarrow> u32 \<Rightarrow> nat \<times> book_set" where
  "run_shards data W = (length (framed_messages data), merge_all (shard_sets (shard_of (sharded_workers W)) (unat (sharded_workers W)) (framed_messages data)) bs_new)"

lemma run_shards_finish: "shards_finish run_shards"
  unfolding shards_finish_def
proof (intro allI)
  fix data W
  let ?W = "sharded_workers W"
  have W: "?W \<noteq> 0" by (simp add: sharded_workers_def)
  obtain r where "ring_new Message_init 4096 = Some r" by (rule ring_new_ok [of 4096 Message_init]) simp
  then obtain f0 where f0: "sharded_start ?W = Some f0" by (simp add: sharded_start_def)
  have s0: "sharded_steps ?W data f0 f0" by (simp add: sharded_steps_def)
  obtain f where f: "sharded_steps ?W data f0 f" "fan_final f"
    using ring_feed.fan_completes [OF sharded_ok [OF f0 s0 W]] shard_of_less [OF W] by (auto simp: sharded_steps_def)
  have "run_shards data W = sharded_result f bs_new"
    using sharded_final [OF f0 f(1) W f(2)] by (simp add: run_shards_def sharded_result_def)
  with f0 f show "\<exists>f0 f. sharded_start ?W = Some f0 \<and> sharded_steps ?W data f0 f \<and> fan_final f \<and>
      run_shards data W = sharded_result f bs_new" by blast
qed


text \<open>C35. Replaying a capture file, \<open>obreplay path\<close>: with the file readable and not empty the program
  exits with 0 and reports the number of decodable messages, the books they build, one latency
  sample per record, and as its focal book one with the most resting orders, together with the tape
  of exactly that symbol's trades.\<close>

theorem obreplay_file_report:
  assumes "\<And>bs. mset (order bs) = mset (book_keys bs)" "\<And>xs. mset (rank xs) = mset xs"
    and "\<And>xs. sorted_wrt (\<lambda>a b. snd a \<ge> snd b) (rank xs)"
    and "path \<noteq> []" "hd path \<noteq> CHR ''-''" "\<not> ends_with path ''.gz''" "plain path = Some data" "data \<noteq> []"
    and "ms = framed_messages data" "b = bs_run ms bs_new"
  shows "\<exists>r ft. obreplay fp order rank gz plain sharded wall lat [path] = Some r \<and> exit_code r = 0 \<and>
    cout r = head_text fp path data (length ms) wall @ top_text fp b (ob_ranked order rank b) @ ft @ nl @
      hist_print fp ''per-message decode+apply latency [includes timer overhead; see README]''
        (map lat [0..<length (deframe data)]) \<and>
    (if bs_books b = [] then ft = []
     else \<exists>l tapes. focus_text fp False b tapes l = Some ft \<and> (\<forall>l'. order_counts b l' \<le> order_counts b l) \<and>
       map_of tapes l = (let ts = trades_at l ms in if ts = [] then None
         else Some (tape_run fp 1000000 (map (\<lambda>m. (m_price m, m_shares m, timestamp m)) ts))))"
proof -
  note rr = replay_reportI [OF assms(1-3)]
  let ?ranked = "ob_ranked order rank b" and ?tapes = "ob_tapes fp data"
  let ?focus = "if ?ranked \<noteq> [] then Some (fst (hd ?ranked)) else None"
  have args: "ob_args [path] ob_defaults = Some (ob_defaults\<lparr>oo_file := path\<rparr>)"
    using assms(4,5) by (subst ob_args.simps) auto
  have src: "ob_source gz plain (ob_defaults\<lparr>oo_file := path\<rparr>) = Inr (data, path)"
    using assms(4,6,7) by (simp add: ob_source_def ob_defaults_def load_file_def)
  have foc: "ob_focus order [] b ?ranked = ([], ?focus)" by (simp add: ob_focus_def)
  have p1: "ob_pass1 sharded data 1 = (length ms, b)" using ob_pass1_single [of 1] assms(9,10) by simp
  have p2: "snd (ob_pass2 lat data 0 0 (bs_new, [])) = map lat [0..<length (deframe data)]"
    using ob_pass2_samples [of 0 data lat 0 "(bs_new, [])"] by simp
  obtain ft where ft: "(case ?focus of None \<Rightarrow> Some [] | Some l \<Rightarrow> focus_text fp False b ?tapes l) = Some ft"
    using focus_part [OF rr, where focus = "[]" and bs = b and fp = fp and bars = False and tapes = ?tapes] foc by auto
  note none = replay_report.ranked_Nil [OF rr, of b] and max = replay_report.ranked_front [OF rr, of b]
  have run: "obreplay fp order rank gz plain sharded wall lat [path] = Some
      \<lparr>exit_code = 0, cout = head_text fp path data (length ms) wall @ top_text fp b ?ranked @ ft @ nl @
        hist_print fp ''per-message decode+apply latency [includes timer overhead; see README]''
          (map lat [0..<length (deframe data)]), cerr = []\<rparr>"
  proof -
    have d: "oo_threads (ob_defaults\<lparr>oo_file := path\<rparr>) = 1" "oo_focus (ob_defaults\<lparr>oo_file := path\<rparr>) = []"
        "oo_bars (ob_defaults\<lparr>oo_file := path\<rparr>) = False" by (simp_all add: ob_defaults_def)
    from obreplay_run [OF args _ src assms(8), unfolded d, OF _ p1 foc ft] p2 show ?thesis by simp
  qed
  have foc: "if bs_books b = [] then ft = []
     else \<exists>l tapes. focus_text fp False b tapes l = Some ft \<and> (\<forall>l'. order_counts b l' \<le> order_counts b l) \<and>
       map_of tapes l = (let ts = trades_at l ms in if ts = [] then None
         else Some (tape_run fp 1000000 (map (\<lambda>m. (m_price m, m_shares m, timestamp m)) ts)))"
  proof (cases "?ranked = []")
    case True
    then show ?thesis using ft none by simp
  next
    case False
    then have "focus_text fp False b ?tapes (fst (hd ?ranked)) = Some ft" using ft by simp
    with False none max ob_tapes_lookup [of fp data "fst (hd ?ranked)", folded assms(9)] show ?thesis by auto
  qed
  show ?thesis by (rule exI, rule exI [of _ ft], rule conjI [OF run]) (simp add: foc)
qed

theorem obreplay_file_report_witness:
  "\<exists>r. obreplay fp_exact book_keys by_count None (\<lambda>_. Some demo_stream) run_shards 5 (\<lambda>_. 7) [''x.itch''] = Some r \<and>
     exit_code r = 0"
proof -
  have "''x.itch'' \<noteq> []" "hd ''x.itch'' \<noteq> CHR ''-''" "\<not> ends_with ''x.itch'' ''.gz''" by (simp_all add: ends_with_def)
  moreover have "demo_stream \<noteq> []" by (simp add: demo_stream_def frame_def be16_def)
  ultimately show ?thesis
    using obreplay_file_report [of book_keys by_count "''x.itch''" "\<lambda>_. Some demo_stream" demo_stream,
        OF refl report.rank_mset report.rank_sorted _ _ _ refl _ refl refl, of fp_exact None run_shards 5 "\<lambda>_. 7"] by blast
qed

end
