(* ===== verification/Sockets.thy ===== *)
theory Sockets
  imports Prelude "HOL-Library.Multiset" "HOL-Library.Signed_Division"
begin

text \<open>
  Ownership of file descriptors by the socket classes: \<^verbatim>\<open>LineSocket\<close> and \<^verbatim>\<open>Listener\<close> of
  \<^verbatim>\<open>include/mt5/tcp.hpp\<close> and \<^verbatim>\<open>UdpSocket\<close> of \<^verbatim>\<open>include/feed/udp.hpp\<close>, with their constructors and every
  exception in them, moves, destructors, and the timeout they hand to the kernel. The answers of
  the system calls are arguments. The kernel keeps the open descriptors and counts the calls of
  \<^verbatim>\<open>close\<close> on a descriptor that is not open. In every sequence of operations on any number of
  objects, each open descriptor has exactly one owner and none is closed twice.
\<close>

section \<open>The kernel\<close>

record os =
  os_open :: "int list"
  os_bad_closes :: nat

text \<open>\<^verbatim>\<open>socket\<close> and \<^verbatim>\<open>accept\<close> return a new descriptor or a negative number.\<close>

definition sys_open :: "int \<Rightarrow> os \<Rightarrow> os" where
  "sys_open fd k = (if fd < 0 then k else k\<lparr>os_open := fd # os_open k\<rparr>)"

definition sys_close :: "int \<Rightarrow> os \<Rightarrow> os" where
  "sys_close fd k =
     (if fd \<in> set (os_open k) then k\<lparr>os_open := remove1 fd (os_open k)\<rparr>
      else k\<lparr>os_bad_closes := os_bad_closes k + 1\<rparr>)"

text \<open>What the system calls of one operation answer; \<open>na_name\<close> is the port that \<^verbatim>\<open>getsockname\<close> reports.\<close>

record net_answers =
  na_socket :: int
  na_pton :: bool
  na_connect :: bool
  na_bind :: bool
  na_listen :: bool
  na_name :: "u16 option"

section \<open>The classes\<close>

record line_obj =
  lo_fd :: int
  lo_timed_out :: bool
  lo_buf :: string

definition line_obj_new :: "int \<Rightarrow> line_obj" where
  "line_obj_new fd = \<lparr>lo_fd = fd, lo_timed_out = False, lo_buf = []\<rparr>"

definition line_valid :: "line_obj \<Rightarrow> bool" where
  "line_valid s \<longleftrightarrow> lo_fd s \<ge> 0"

definition line_close :: "line_obj \<Rightarrow> os \<Rightarrow> line_obj \<times> os" where
  "line_close s k = (if lo_fd s \<ge> 0 then (s\<lparr>lo_fd := - 1\<rparr>, sys_close (lo_fd s) k) else (s, k))"

definition line_connect :: "net_answers \<Rightarrow> string \<Rightarrow> os \<Rightarrow> (string + line_obj) \<times> os" where
  "line_connect a host k =
     (let fd = na_socket a; k = sys_open fd k
      in if fd < 0 then (Inl ''socket() failed'', k)
         else if \<not> na_pton a then (Inl (''inet_pton() failed for '' @ host), sys_close fd k)
         else if \<not> na_connect a then (Inl ''connect() failed'', sys_close fd k)
         else (Inr (line_obj_new fd), k))"

text \<open>The move constructor: the new object and what is left of the old one. \<open>rest\<close> is whatever the
  library leaves in a string that was moved from.\<close>

definition line_move :: "string \<Rightarrow> line_obj \<Rightarrow> line_obj \<times> line_obj" where
  "line_move rest s =
     (\<lparr>lo_fd = lo_fd s, lo_timed_out = False, lo_buf = lo_buf s\<rparr>, s\<lparr>lo_fd := - 1, lo_buf := rest\<rparr>)"

text \<open>The move assignment between two different objects.\<close>

definition line_assign :: "string \<Rightarrow> line_obj \<Rightarrow> line_obj \<Rightarrow> os \<Rightarrow> line_obj \<times> line_obj \<times> os" where
  "line_assign rest this other k =
     (let (this, k) = line_close this k
      in (this\<lparr>lo_fd := lo_fd other, lo_buf := lo_buf other\<rparr>, other\<lparr>lo_fd := - 1, lo_buf := rest\<rparr>, k))"

record listener_obj =
  li_fd :: int
  li_port :: u16

definition listener_new :: "net_answers \<Rightarrow> os \<Rightarrow> (string + listener_obj) \<times> os" where
  "listener_new a k =
     (let fd = na_socket a; k = sys_open fd k
      in if fd < 0 then (Inl ''socket() failed'', k)
         else if \<not> na_bind a then (Inl ''bind() failed'', sys_close fd k)
         else if \<not> na_listen a then (Inl ''listen() failed'', sys_close fd k)
         else (Inr \<lparr>li_fd = fd, li_port = (case na_name a of Some p \<Rightarrow> p | None \<Rightarrow> 0)\<rparr>, k))"

definition listener_destroy :: "listener_obj \<Rightarrow> os \<Rightarrow> os" where
  "listener_destroy l k = (if li_fd l \<ge> 0 then sys_close (li_fd l) k else k)"

text \<open>\<open>c\<close> is the answer of \<^verbatim>\<open>accept\<close>.\<close>

definition listener_accept :: "int \<Rightarrow> os \<Rightarrow> (string + line_obj) \<times> os" where
  "listener_accept c k =
     (let k = sys_open c k in if c < 0 then (Inl ''accept() failed'', k) else (Inr (line_obj_new c), k))"

record udp_obj =
  ud_fd :: int

definition udp_new :: "net_answers \<Rightarrow> os \<Rightarrow> (string + udp_obj) \<times> os" where
  "udp_new a k =
     (let fd = na_socket a; k = sys_open fd k
      in if fd < 0 then (Inl ''udp socket() failed'', k) else (Inr \<lparr>ud_fd = fd\<rparr>, k))"

definition udp_destroy :: "udp_obj \<Rightarrow> os \<Rightarrow> os" where
  "udp_destroy u k = (if ud_fd u \<ge> 0 then sys_close (ud_fd u) k else k)"

definition bind_loopback :: "net_answers \<Rightarrow> u16 \<Rightarrow> string + u16" where
  "bind_loopback a port =
     (if \<not> na_bind a then Inl ''udp bind() failed''
      else case na_name a of Some p \<Rightarrow> Inr p | None \<Rightarrow> Inr port)"

text \<open>Sending a datagram succeeds when \<^verbatim>\<open>sendto\<close> answers its length, receiving answers at most the
  size of the buffer; \<open>r\<close> is the answer.\<close>

definition send_to :: "int \<Rightarrow> bytes \<Rightarrow> bool" where
  "send_to r d \<longleftrightarrow> r = int (length d)"

text \<open>The \<^verbatim>\<open>timeval\<close> of \<open>set_recv_timeout\<close>: C++ division truncates.\<close>

definition timeval_of :: "int \<Rightarrow> int \<times> int" where
  "timeval_of ms = (ms sdiv 1000, (ms smod 1000) * 1000)"

section \<open>Programs over the classes\<close>

text \<open>The objects of a program, by their place in a list; a destroyed object leaves \<open>Dead\<close> behind.\<close>

datatype net_obj = Line line_obj | Lst listener_obj | Udp udp_obj | Dead

fun fd_of :: "net_obj \<Rightarrow> int" where
  "fd_of (Line s) = lo_fd s"
| "fd_of (Lst l) = li_fd l"
| "fd_of (Udp u) = ud_fd u"
| "fd_of Dead = - 1"

fun destroy :: "net_obj \<Rightarrow> os \<Rightarrow> os" where
  "destroy (Line s) k = snd (line_close s k)"
| "destroy (Lst l) k = listener_destroy l k"
| "destroy (Udp u) k = udp_destroy u k"
| "destroy Dead k = k"

definition created :: "('a \<Rightarrow> net_obj) \<Rightarrow> string + 'a \<Rightarrow> net_obj list" where
  "created c r = (case r of Inl e \<Rightarrow> [] | Inr x \<Rightarrow> [c x])"

text \<open>A descriptor the kernel hands out is not open yet.\<close>

abbreviation fresh_fd :: "int \<Rightarrow> os \<Rightarrow> bool" where
  "fresh_fd fd k \<equiv> fd \<notin> set (os_open k)"

inductive net_step :: "net_obj list \<times> os \<Rightarrow> net_obj list \<times> os \<Rightarrow> bool" where
  connect: "line_connect a host k = (r, k') \<Longrightarrow> fresh_fd (na_socket a) k \<Longrightarrow> net_step (xs, k) (xs @ created Line r, k')"
| listen: "listener_new a k = (r, k') \<Longrightarrow> fresh_fd (na_socket a) k \<Longrightarrow> net_step (xs, k) (xs @ created Lst r, k')"
| accept: "i < length xs \<Longrightarrow> xs ! i = Lst l \<Longrightarrow> listener_accept c k = (r, k') \<Longrightarrow> fresh_fd c k \<Longrightarrow>
    net_step (xs, k) (xs @ created Line r, k')"
| udp: "udp_new a k = (r, k') \<Longrightarrow> fresh_fd (na_socket a) k \<Longrightarrow> net_step (xs, k) (xs @ created Udp r, k')"
| move: "i < length xs \<Longrightarrow> xs ! i = Line s \<Longrightarrow> line_move rest s = (t, s') \<Longrightarrow> net_step (xs, k) (xs[i := Line s'] @ [Line t], k)"
| assign: "i < length xs \<Longrightarrow> j < length xs \<Longrightarrow> i \<noteq> j \<Longrightarrow> xs ! i = Line s \<Longrightarrow> xs ! j = Line t \<Longrightarrow>
    line_assign rest s t k = (s', t', k') \<Longrightarrow> net_step (xs, k) (xs[i := Line s', j := Line t'], k')"
| self_assign: "net_step (xs, k) (xs, k)"
| transfer: "i < length xs \<Longrightarrow> xs ! i = Line s \<Longrightarrow>
    net_step (xs, k) (xs[i := Line (s\<lparr>lo_timed_out := b, lo_buf := buf\<rparr>)], k)"
| destroy: "i < length xs \<Longrightarrow> net_step (xs, k) (xs[i := Dead], destroy (xs ! i) k)"

inductive net_reachable :: "net_obj list \<times> os \<Rightarrow> bool" where
  start: "net_reachable ([], \<lparr>os_open = [], os_bad_closes = 0\<rparr>)"
| step: "net_reachable w \<Longrightarrow> net_step w w' \<Longrightarrow> net_reachable w'"

inductive_cases net_stepE: "net_step (xs, k) w"

section \<open>Ownership\<close>

definition own :: "net_obj \<Rightarrow> int multiset" where
  "own x = (if fd_of x \<ge> 0 then {#fd_of x#} else {#})"

definition owned :: "net_obj list \<Rightarrow> int multiset" where
  "owned xs = (\<Sum>x\<leftarrow>xs. own x)"

definition net_ok :: "net_obj list \<times> os \<Rightarrow> bool" where
  "net_ok w \<longleftrightarrow> owned (fst w) = mset (os_open (snd w)) \<and> distinct (os_open (snd w)) \<and> os_bad_closes (snd w) = 0"

lemma owned_simps [simp]: "owned [] = {#}" "owned (xs @ ys) = owned xs + owned ys" "owned [x] = own x"
  by (simp_all add: owned_def)

lemma owned_update: "i < length xs \<Longrightarrow> owned (xs[i := x]) + own (xs ! i) = owned xs + own x"
proof -
  assume i: "i < length xs"
  have "owned xs = owned (take i xs) + own (xs ! i) + owned (drop (Suc i) xs)"
    using id_take_nth_drop [OF i] by (metis append_Cons append_Nil owned_simps(2,3) add.assoc)
  moreover have "owned (xs[i := x]) = owned (take i xs) + own x + owned (drop (Suc i) xs)"
    using upd_conv_take_nth_drop [OF i, of x] by (metis append_Cons append_Nil owned_simps(2,3) add.assoc)
  ultimately show ?thesis by (simp add: ac_simps)
qed

lemma owned_member: "i < length xs \<Longrightarrow> own (xs ! i) \<subseteq># owned xs"
proof -
  assume "i < length xs"
  from owned_update [OF this, of Dead] have "owned xs = owned (xs[i := Dead]) + own (xs ! i)" by (simp add: own_def)
  then show ?thesis by simp
qed

text \<open>Closing the descriptor of an object that then owns none.\<close>

lemma net_ok_close:
  assumes "net_ok (xs, k)" "i < length xs" "fd_of (xs ! i) \<ge> 0" "fd_of y < 0"
  shows "net_ok (xs[i := y], sys_close (fd_of (xs ! i)) k)"
proof -
  let ?fd = "fd_of (xs ! i)"
  have own: "own (xs ! i) = {#?fd#}" "own y = {#}" using assms(3,4) by (simp_all add: own_def)
  then have "?fd \<in># owned xs" using owned_member [OF assms(2)] by simp
  then have "?fd \<in> set (os_open k)" using assms(1) by (simp add: net_ok_def)
  moreover have "owned (xs[i := y]) = owned xs - {#?fd#}" using owned_update [OF assms(2), of y] own
    by (metis add_diff_cancel_right' add.right_neutral)
  ultimately show ?thesis using assms(1) by (simp add: net_ok_def sys_close_def)
qed

lemma net_ok_same:
  assumes "net_ok (xs, k)" "i < length xs" "fd_of y = fd_of (xs ! i)"
  shows "net_ok (xs[i := y], k)"
proof -
  have "own y = own (xs ! i)" using assms(3) by (simp add: own_def)
  with owned_update [OF assms(2), of y] assms(1) show ?thesis by (simp add: net_ok_def)
qed

lemma net_ok_move:
  assumes "net_ok (xs, k)" "i < length xs" "fd_of y = fd_of (xs ! i)" "fd_of x < 0"
  shows "net_ok (xs[i := x] @ [y], k)"
  using assms owned_update [OF assms(2), of x] by (simp add: net_ok_def own_def split: if_splits)

text \<open>An object that owns nothing takes over the descriptor of another.\<close>

lemma net_ok_take_over:
  assumes "net_ok (xs, k)" "i < length xs" "j < length xs" "i \<noteq> j" "fd_of (xs ! i) < 0"
    and "fd_of x = fd_of (xs ! j)" "fd_of y < 0"
  shows "net_ok (xs[i := x, j := y], k)"
proof -
  have "owned (xs[i := x]) = owned xs + own x" using owned_update [OF assms(2), of x] assms(5) by (simp add: own_def)
  moreover have "owned (xs[i := x, j := y]) + own (xs ! j) = owned (xs[i := x])"
    using owned_update [of j "xs[i := x]" y] assms(3,4,7) by (simp add: own_def)
  moreover have "own (xs ! j) = own x" using assms(6) by (simp add: own_def)
  ultimately show ?thesis using assms(1) by (simp add: net_ok_def)
qed

lemma net_ok_assign:
  assumes "net_ok (xs, k)" "i < length xs" "j < length xs" "i \<noteq> j" "xs ! i = Line s" "xs ! j = Line t"
    and "line_assign rest s t k = (s', t', k')"
  shows "net_ok (xs[i := Line s', j := Line t'], k')"
proof -
  obtain s1 where s1: "line_close s k = (s1, k')" "s' = s1\<lparr>lo_fd := lo_fd t, lo_buf := lo_buf t\<rparr>" "lo_fd t' = - 1"
    using assms(7) by (auto simp: line_assign_def split: prod.splits)
  have "net_ok (xs[i := Line s1], k')" "lo_fd s1 < 0"
    using s1(1) net_ok_close [OF assms(1,2), of "Line s1"] net_ok_same [OF assms(1,2), of "Line s1"] assms(5)
    by (auto simp: line_close_def split: if_splits)
  from net_ok_take_over [OF this(1), of i j "Line s'" "Line t'"] this(2) show ?thesis
    using assms(2-6) s1(2,3) by simp
qed

lemma net_ok_destroy:
  assumes "net_ok (xs, k)" "i < length xs"
  shows "net_ok (xs[i := Dead], destroy (xs ! i) k)"
proof (cases "fd_of (xs ! i) \<ge> 0")
  case True
  then have "destroy (xs ! i) k = sys_close (fd_of (xs ! i)) k"
    by (cases "xs ! i") (simp_all add: line_close_def listener_destroy_def udp_destroy_def)
  then show ?thesis using net_ok_close [OF assms True, of Dead] by simp
next
  case False
  then have "destroy (xs ! i) k = k"
    by (cases "xs ! i") (simp_all add: line_close_def listener_destroy_def udp_destroy_def)
  then show ?thesis using owned_update [OF assms(2), of Dead] assms(1) False by (simp add: net_ok_def own_def)
qed

lemma net_ok_create:
  assumes "net_ok (xs, k)"
  shows "line_connect a host k = (r1, k') \<Longrightarrow> fresh_fd (na_socket a) k \<Longrightarrow> net_ok (xs @ created Line r1, k')"
    and "listener_new a k = (r2, k') \<Longrightarrow> fresh_fd (na_socket a) k \<Longrightarrow> net_ok (xs @ created Lst r2, k')"
    and "listener_accept c k = (r1, k') \<Longrightarrow> fresh_fd c k \<Longrightarrow> net_ok (xs @ created Line r1, k')"
    and "udp_new a k = (r3, k') \<Longrightarrow> fresh_fd (na_socket a) k \<Longrightarrow> net_ok (xs @ created Udp r3, k')"
  using assms
  by (auto simp: net_ok_def sys_close_def line_connect_def listener_new_def listener_accept_def udp_new_def created_def Let_def own_def
      line_obj_new_def sys_open_def split: if_splits)

lemma net_ok_step:
  assumes "net_step w w'" "net_ok w"
  shows "net_ok w'"
  using assms
proof (induction rule: net_step.induct)
  case (transfer i xs s k b buf)
  then show ?case by (intro net_ok_same) simp_all
next
  case (move i xs s rest t s' k)
  then show ?case by (intro net_ok_move) (auto simp: line_move_def)
qed (blast intro: net_ok_create net_ok_assign net_ok_destroy)+

lemma net_ok_reachable: "net_reachable w \<Longrightarrow> net_ok w"
proof (induction rule: net_reachable.induct)
  case start
  show ?case by (simp add: net_ok_def)
qed (rule net_ok_step)

lemma set_owned: "set_mset (owned xs) = {fd. fd \<ge> 0 \<and> (\<exists>i < length xs. fd_of (xs ! i) = fd)}"
proof -
  have "set_mset (owned xs) = {fd. fd \<ge> 0 \<and> fd \<in> fd_of ` set xs}"
    by (induction xs) (auto simp: owned_def own_def)
  also have "fd_of ` set xs = {fd_of (xs ! i) | i. i < length xs}" by (auto simp: set_conv_nth)
  finally show ?thesis by auto
qed

lemma owner_unique:
  assumes "net_ok (xs, k)" "i < length xs" "j < length xs" "fd_of (xs ! i) \<ge> 0" "fd_of (xs ! i) = fd_of (xs ! j)"
  shows "i = j"
proof (rule ccontr)
  let ?fd = "fd_of (xs ! i)"
  assume "i \<noteq> j"
  then have "own (xs ! j) \<subseteq># owned (xs[i := Dead])" using owned_member [of j "xs[i := Dead]"] assms(3) by simp
  then have "?fd \<in># owned (xs[i := Dead])" using assms(4,5) by (simp add: own_def)
  moreover have "owned xs = owned (xs[i := Dead]) + {#?fd#}"
    using owned_update [OF assms(2), of Dead] assms(4) by (simp add: own_def)
  moreover have "count (owned xs) ?fd \<le> 1" using assms(1) by (simp add: net_ok_def distinct_count_atmost_1)
  ultimately show False by (simp flip: count_greater_zero_iff)
qed

section \<open>Properties\<close>

text \<open>C38. No descriptor is leaked or closed twice: after any sequence of connecting, listening, accepting,
  creating, moving, assigning, using and destroying sockets, failures and exceptions included, the
  descriptors the kernel has open are exactly those the live objects hold, each held by one object;
  no call of \<^verbatim>\<open>close\<close> has named a descriptor that was not open; and once every object is destroyed
  nothing is open.\<close>

theorem sockets_own_descriptors:
  assumes "net_reachable (xs, k)"
  shows "set (os_open k) = {fd. fd \<ge> 0 \<and> (\<exists>i < length xs. fd_of (xs ! i) = fd)} \<and> distinct (os_open k) \<and>
    (\<forall>i < length xs. \<forall>j < length xs. fd_of (xs ! i) \<ge> 0 \<and> fd_of (xs ! i) = fd_of (xs ! j) \<longrightarrow> i = j) \<and>
    os_bad_closes k = 0 \<and> ((\<forall>x \<in> set xs. x = Dead) \<longrightarrow> os_open k = [])"
proof -
  have ok: "net_ok (xs, k)" using assms by (rule net_ok_reachable)
  then have k: "set_mset (owned xs) = set (os_open k)" "distinct (os_open k)" "os_bad_closes k = 0"
    by (simp_all add: net_ok_def)
  moreover have "os_open k = []" if "\<forall>x \<in> set xs. x = Dead"
  proof -
    have "owned xs = {#}" using that by (induction xs) (simp_all add: owned_def own_def)
    then have "set (os_open k) = {}" using k(1) by simp
    then show ?thesis by simp
  qed
  ultimately show ?thesis using owner_unique [OF ok] set_owned [of xs] by auto
qed

text \<open>A listener that cannot bind, then a UDP socket.\<close>

theorem sockets_own_descriptors_witness:
  "set (os_open \<lparr>os_open = [3], os_bad_closes = 0\<rparr>) = {fd. fd \<ge> 0 \<and> (\<exists>i < length [Udp \<lparr>ud_fd = 3\<rparr>]. fd_of ([Udp \<lparr>ud_fd = 3\<rparr>] ! i) = fd)}"
proof -
  let ?k = "\<lparr>os_open = [], os_bad_closes = 0\<rparr>"
  let ?a = "\<lparr>na_socket = 3, na_pton = False, na_connect = False, na_bind = False, na_listen = False, na_name = None\<rparr>"
  have "listener_new ?a ?k = (Inl ''bind() failed'', ?k)"
    by (simp add: listener_new_def sys_open_def sys_close_def)
  from net_step.listen [OF this, of "[]"] have s1: "net_step ([], ?k) ([], ?k)" by (simp add: created_def)
  have "udp_new ?a ?k = (Inr \<lparr>ud_fd = 3\<rparr>, \<lparr>os_open = [3], os_bad_closes = 0\<rparr>)" by (simp add: udp_new_def sys_open_def)
  from net_step.udp [OF this, of "[]"]
  have s2: "net_step ([], ?k) ([Udp \<lparr>ud_fd = 3\<rparr>], \<lparr>os_open = [3], os_bad_closes = 0\<rparr>)" by (simp add: created_def)
  have "net_reachable ([Udp \<lparr>ud_fd = 3\<rparr>], \<lparr>os_open = [3], os_bad_closes = 0\<rparr>)"
    by (rule net_reachable.step [OF net_reachable.step [OF net_reachable.start s1] s2])
  from sockets_own_descriptors [OF this] show ?thesis by (rule conjunct1)
qed

text \<open>The timeout handed to the kernel is exact and well-formed for every time that is not negative; a
  negative one that is no multiple of a second has a negative number of microseconds, which the
  kernel refuses.\<close>

lemma timeval_exact:
  assumes "0 \<le> ms"
  shows "fst (timeval_of ms) * 1000000 + snd (timeval_of ms) = ms * 1000" "0 \<le> snd (timeval_of ms)" "snd (timeval_of ms) < 1000000"
proof -
  have d: "timeval_of ms = (ms div 1000, ms mod 1000 * 1000)"
    using assms by (simp add: timeval_of_def signed_divide_int_def signed_modulo_int_def sgn_if minus_mult_div_eq_mod [symmetric])
  have "ms div 1000 * 1000 + ms mod 1000 = ms" by (rule div_mult_mod_eq)
  then show "fst (timeval_of ms) * 1000000 + snd (timeval_of ms) = ms * 1000" unfolding d fst_conv snd_conv by linarith
  show "0 \<le> snd (timeval_of ms)" "snd (timeval_of ms) < 1000000" by (simp_all add: d)
qed

lemma timeval_negative: "timeval_of (- 5) = (0, - 5000)"
  by (simp add: timeval_of_def signed_divide_int_def signed_modulo_int_def)

end
