(* ===== verification/Bench.thy ===== *)
theory Bench
  imports Pipeline Synthetic
begin

text \<open>
  The measured bodies of \<^verbatim>\<open>bench/bench.cpp\<close>. The harness decides how often a body runs: \<open>iters\<close>. A
  benchmark is the state its loop leaves and the number of items it reports. \<open>run i\<close> is the result of
  the pipelined replay in iteration \<open>i\<close>, whose threads are those of \<open>Pipeline\<close>.
\<close>

section \<open>The benchmarks\<close>

definition bm_decode :: "nat \<Rightarrow> (bool \<times> Message) \<times> int" where
  "bm_decode iters =
     (let buf = make_synthetic_itch mt_next 1 (mt_seed 7); mlen = rd_len buf 0; body = drop 2 buf
      in (((\<lambda>(ok, m). decode (Some body) mlen m) ^^ iters) (False, Message_init), int iters))"

definition bm_replay_single :: "nat \<Rightarrow> nat \<Rightarrow> nat \<times> int" where
  "bm_replay_single n iters =
     (let data = make_synthetic_itch mt_next n (mt_seed 1);
          applied = ((\<lambda>a :: nat. fst (replay_single_threaded data (length data) (book_new MapLevels))) ^^ iters) 0
      in (applied, int iters * int applied))"

definition bm_replay_pipelined :: "(nat \<Rightarrow> bytes \<Rightarrow> nat \<times> map_book) \<Rightarrow> nat \<Rightarrow> nat \<Rightarrow> nat \<times> int" where
  "bm_replay_pipelined run n iters =
     (let data = make_synthetic_itch mt_next n (mt_seed 1);
          applied = fold (\<lambda>i a. fst (run i data)) [0..<iters] 0
      in (applied, int iters * int applied))"

definition bm_book_ops :: "'l level_ops \<Rightarrow> nat \<Rightarrow> nat \<Rightarrow> nat \<times> int" where
  "bm_book_ops LS n iters =
     (let data = make_synthetic_itch mt_next n (mt_seed 1);
          applied = ((\<lambda>a :: nat. snd (snd (for_each_framed_message data (length data)
                       (\<lambda>m (b, k). (book_apply LS m b, k + 1)) (book_new LS, 0)))) ^^ iters) 0
      in (applied, int iters * int applied))"

text \<open>\<open>None\<close> when the constructor of the ring does not return.\<close>

definition spsc_iter :: "int spsc_ring \<times> int \<Rightarrow> int spsc_ring \<times> int" where
  "spsc_iter = (\<lambda>(ring, v).
     let ring = snd (ring_push 42 ring); (got, ring) = ring_pop ring
     in (ring, case got of Some x \<Rightarrow> x | None \<Rightarrow> v))"

definition bm_spsc_push_pop :: "nat \<Rightarrow> ((int spsc_ring \<times> int) \<times> int) option" where
  "bm_spsc_push_pop iters =
     (case ring_new 0 1024 of None \<Rightarrow> None | Some ring \<Rightarrow> Some ((spsc_iter ^^ iters) (ring, 0), int iters))"

section \<open>They measure the same work\<close>

lemma funpow_const: "0 < k \<Longrightarrow> ((\<lambda>a :: nat. c :: nat) ^^ k) a = c"
  by (cases k) (simp_all add: comp_def)

lemma fold_count: "snd (fold (\<lambda>m (b, k). (f m b, Suc k)) ms (b, k)) = k + length ms"
  by (induction ms arbitrary: b k) auto

lemma spsc_iter_ok:
  assumes "ring_ok r" "ring_contents r = []" "unat (r_cap r) > 0"
  shows "\<exists>r'. spsc_iter (r, v) = (r', 42) \<and> ring_ok r' \<and> ring_contents r' = [] \<and> r_cap r' = r_cap r"
proof -
  obtain r1 where r1: "ring_push 42 r = (True, r1)" "ring_ok r1" "ring_contents r1 = [42]" "r_cap r1 = r_cap r"
    using ring_push_spec [OF assms(1), of 42] assms(2,3) by auto
  obtain r2 where "ring_pop r1 = (Some 42, r2)" "ring_ok r2" "ring_contents r2 = []" "r_cap r2 = r_cap r1"
    using ring_pop_spec [OF r1(2)] r1(3) by auto
  with r1 show ?thesis by (simp add: spsc_iter_def)
qed

text \<open>The four replay benchmarks report the same number of items, one per message and iteration, for
  every level store and every schedule of the pipelined threads.\<close>

theorem bench_same_items:
  assumes "0 < iters" "n \<le> 4000000"
    and "\<And>i data. \<exists>f0 f. pipelined_start 4096 (book_new MapLevels) = Some f0 \<and> pipelined_steps data f0 f \<and>
           fan_final f \<and> run i data = pipelined_result f"
  shows "bm_replay_single n iters = (n, int iters * int n) \<and> bm_replay_pipelined run n iters = (n, int iters * int n) \<and>
    bm_book_ops MapLevels n iters = (n, int iters * int n) \<and> bm_book_ops FlatLevels n iters = (n, int iters * int n) \<and>
    bm_book_ops WindowedLevels n iters = (n, int iters * int n)"
proof -
  let ?d = "make_synthetic_itch mt_next n (mt_seed 1)"
  have n: "length (framed_messages ?d) = n"
    using good_feed_single [OF itch_ok_stream [OF assms(2), of mt_next "mt_seed 1"]] by blast
  have "fst (run i ?d) = n" for i
    using assms(3) [of ?d i] pipelined_final by (metis fst_conv n replay_single_eq)
  then have "fold (\<lambda>i a. fst (run i ?d)) [0..<iters] 0 = n" using assms(1) by (cases iters) simp_all
  then show ?thesis
    by (simp add: bm_replay_single_def bm_replay_pipelined_def bm_book_ops_def replay_single_eq for_each_framed_eq
        fold_count funpow_const [OF assms(1)] n Let_def)
qed

text \<open>The ring benchmark always pushes and pops: its loop ends with the pushed value and an empty ring.\<close>

theorem bench_spsc_roundtrip:
  assumes "0 < iters"
  shows "\<exists>r. bm_spsc_push_pop iters = Some ((r, 42), int iters) \<and> ring_contents r = []"
proof -
  obtain r :: "int spsc_ring" where r: "ring_new 0 1024 = Some r" "ring_ok r" "ring_contents r = []" "unat (1024 :: u64) \<le> unat (r_cap r)"
    by (rule ring_new_ok [of 1024 "0 :: int"]) (simp, blast)
  have "\<exists>r' v. (spsc_iter ^^ k) (r, 0) = (r', v) \<and> (0 < k \<longrightarrow> v = 42) \<and> ring_ok r' \<and> ring_contents r' = [] \<and> r_cap r' = r_cap r" for k
  proof (induction k)
    case (Suc k)
    then obtain r' v where "(spsc_iter ^^ k) (r, 0) = (r', v)" "ring_ok r'" "ring_contents r' = []" "r_cap r' = r_cap r" by blast
    with spsc_iter_ok [of r' v] r(4) show ?case by auto
  qed (use r in simp)
  from this [of iters] r(1) assms show ?thesis by (auto simp: bm_spsc_push_pop_def)
qed

end
