(* ===== verification/Spec2Isabelle.thy ===== *)
theory Spec2Isabelle
  imports Book_Runs Book_Set Mold Ring_Threads Pipeline Tape Synthetic Synthetic_Multi Synthetic_Book
    Fix_Codec Web_Socket Latency_Hist Metrics Mt5_Bridge Apps Ws_Book Latency_Report Ob_Replay Sockets Bench
begin

text \<open>
  A verification library for hft-orderbook, a C++ market-data engine: it decodes NASDAQ ITCH 5.0
  messages from a framed byte stream or from MoldUDP64 datagrams, reconstructs limit order books
  from them on one or several threads, derives a trade tape and metrics, and speaks FIX, WebSocket
  and a line protocol at its edges. All paths below are under \<^verbatim>\<open>src/\<close>.

  \<^bold>\<open>How the parts interact.\<close> A byte stream is cut into records (\<^verbatim>\<open>include/feed/framing.hpp\<close>), each
  record is decoded (\<^verbatim>\<open>src/itch/decoder.cpp\<close>) and handed to a sink: one book, or a book per symbol.
  A book keeps its orders in an object pool, an index from reference to pool handle, and one price
  level store per side; there are three such stores. The pipelines put the single-producer
  single-consumer ring between the decoder and the books. The generators write streams that the
  same path reads back.

  \<^bold>\<open>Theories and the code they model.\<close>

  \<^item> \<open>Prelude\<close>, \<open>Core_Types\<close>: word types, byte lists, shared lemma collections; \<^verbatim>\<open>include/core/types.hpp\<close>.
  \<^item> \<open>Level_Store\<close> states what a book expects of its level store as the locale \<open>level_store\<close>: every
    store shows a ladder, a sorted list of levels, and the laws say how updates act on it and what
    queries return. \<open>Map_Levels\<close>, \<open>Flat_Levels\<close> (\<^verbatim>\<open>include/core/flat_levels.hpp\<close>) and
    \<open>Windowed_Levels\<close> (\<^verbatim>\<open>include/core/windowed_levels.hpp\<close>, with window, overflow map and
    re-centring) interpret it.
  \<^item> \<open>Object_Pool\<close>: \<^verbatim>\<open>include/core/object_pool.hpp\<close>; a fresh handle aliases no live object.
  \<^item> \<open>Itch_Decoder\<close>, \<open>Wire_Encoding\<close>, \<open>Framing\<close>, \<open>Mold\<close>: \<^verbatim>\<open>include/itch/messages.hpp\<close>,
    \<^verbatim>\<open>src/itch/decoder.cpp\<close>, the writers of \<^verbatim>\<open>include/feed/synthetic.hpp\<close>,
    \<^verbatim>\<open>include/feed/framing.hpp\<close> and \<^verbatim>\<open>include/feed/moldudp64.hpp\<close>; when decoding succeeds, that it
    stays in bounds, and the round trips of bodies, frames and datagrams.
  \<^item> \<open>Order_Book\<close>, \<open>Book_Runs\<close>, \<open>Book_Set\<close>: \<^verbatim>\<open>include/book/order_book.hpp\<close> over any level store and
    \<^verbatim>\<open>include/book/book_set.hpp\<close>. The abstract book is a map from references to orders; after every
    feed that keeps the exchange's rules each concrete book shows exactly the abstract one, its own
    \<^verbatim>\<open>invariant_ok\<close> holds, and the three stores are indistinguishable.
  \<^item> \<open>Spsc_Ring\<close>, \<open>Ring_Threads\<close>: \<^verbatim>\<open>include/core/spsc_ring.hpp\<close>, sequentially (interpreting a bounded
    queue interface) and cut at its shared accesses, with every interleaving of two threads
    explored as a step relation: linearizable, race free, wait free.
  \<^item> \<open>Feed_Threads\<close>, \<open>Pipeline\<close>: \<^verbatim>\<open>include/feed/pipeline.hpp\<close> and \<^verbatim>\<open>include/feed/sharded_pipeline.hpp\<close>;
    push and pop are one step each, which \<open>Ring_Threads\<close> justifies, and the result of every
    completed schedule is the single-threaded one.
  \<^item> \<open>Mt19937\<close>, \<open>Feed_Streams\<close>, \<open>Synthetic\<close>, \<open>Synthetic_Multi\<close>, \<open>Synthetic_Book\<close>: the generators of
    \<^verbatim>\<open>include/feed/synthetic.hpp\<close> over any random engine, and \<^verbatim>\<open>std::mt19937\<close> itself.
  \<^item> \<open>Float_Env\<close>, \<open>Tape\<close>, \<open>Metrics\<close>, \<open>Latency_Hist\<close>: \<^verbatim>\<open>include/book/tape.hpp\<close>,
    \<^verbatim>\<open>include/book/metrics.hpp\<close>, \<^verbatim>\<open>include/core/latency_hist.hpp\<close>. Floating point is rational
    arithmetic with a rounding function after every operation; the properties hold for every
    rounding with the named laws (\<open>fp_ok\<close>: monotone and exact on small integers; \<open>fp_halves\<close>,
    \<open>fp_doubles\<close>: properties of binary rounding to nearest).
  \<^item> \<open>Text_Numbers\<close>, \<open>Fix_Codec\<close>: the C++ text functions used, \<^verbatim>\<open>include/fix/fields.hpp\<close> and
    \<^verbatim>\<open>include/fix/message.hpp\<close>.
  \<^item> \<open>Line_Socket\<close>, \<open>Sha1\<close>, \<open>Base64\<close>, \<open>Web_Socket\<close>: the buffered connection of
    \<^verbatim>\<open>include/mt5/tcp.hpp\<close>, whose peer is a list of the chunks and timeouts that \<^verbatim>\<open>recv\<close> will see;
    \<^verbatim>\<open>include/core/sha1.hpp\<close> against RFC 3174 and RFC 4648; \<^verbatim>\<open>include/feed/websocket.hpp\<close>.

  \<^item> \<open>Sockets\<close>: the classes \<^verbatim>\<open>LineSocket\<close>, \<^verbatim>\<open>Listener\<close> (\<^verbatim>\<open>include/mt5/tcp.hpp\<close>) and \<^verbatim>\<open>UdpSocket\<close>
    (\<^verbatim>\<open>include/feed/udp.hpp\<close>) as owners of file descriptors; every sequence of operations is explored
    as a step relation, failures of the system calls included.
  \<^item> \<open>Double_Text\<close>, \<open>Mt5_Json\<close>, \<open>Mt5_Protocol\<close>, \<open>Mt5_Bridge\<close>: the text of doubles (\<^verbatim>\<open>%.ng\<close> and
    \<^verbatim>\<open>strtod\<close>), the field extraction, encoders and parsers of \<^verbatim>\<open>include/mt5/protocol.hpp\<close>, the strategy
    of \<^verbatim>\<open>include/mt5/strategy.hpp\<close> and the session loop of \<^verbatim>\<open>include/mt5/server.hpp\<close>, which refines a
    session of lines and answers whatever the pieces the bytes arrive in.
  \<^item> \<open>App_Base\<close>, \<open>Apps\<close>, \<open>Ws_Book\<close>, \<open>Latency_Report\<close>, \<open>Ob_Replay\<close>, \<open>Bench\<close>: the programs of \<^verbatim>\<open>apps/\<close>, \<^verbatim>\<open>bench/\<close>
    and \<^verbatim>\<open>fuzz/\<close> as functions from arguments and what the operating system provides to exit code and
    output. What they get from outside is a parameter with its contract: the order of a hash table
    (locale \<open>book_iteration\<close>), \<^verbatim>\<open>std::sort\<close> (locale \<open>replay_report\<close>), file contents, clocks, datagrams,
    connections, and finished threads, which are those of \<open>Pipeline\<close>. \<open>Ws_Book\<close> shows which snapshots a
    recording or a WebSocket viewer gets, \<open>Ob_Replay\<close> what the replay report contains, that it never
    uses a missing book and that threads do not change it, \<open>Apps\<close> that the receiver rebuilds the
    sender's books, \<open>Latency_Report\<close> which messages are timed, \<open>Bench\<close> that the benchmarks compare equal
    work.

  \<^bold>\<open>Bounds and fuel.\<close> Every loop of the code is a total function with a measure, except the one of
  \<^verbatim>\<open>round_up_pow2\<close>, which does not return for capacities above \<open>2 ^ 63\<close> and is a partial function
  whose domain is characterised. The generator theorems are stated for at most 4,000,000 messages
  (1,600,000 for the demo book): with at most 1000 (2550) shares an order no level total can then
  reach \<open>2 ^ 32\<close>, where level totals wrap. Ring counters are 64-bit words and may wrap.

  The MT5 round trips are for numbers below \<open>2 ^ 63\<close> and doubles nearest to a decimal number of at
  most ten digits; larger ids collide, which is shown too. Text buffers of \<^verbatim>\<open>snprintf\<close> are cut where
  the code cuts them.

  \<^bold>\<open>Not modelled.\<close> \<^verbatim>\<open>include/core/cpu.hpp\<close>: the pause instruction has no effect on values, the time
  stamp counter and thread affinity are the processor's and the kernel's (the result of pinning is a
  parameter of \<open>mdrecv\<close>). Memory orders of the ring's atomics are taken as sequentially consistent
  (the interleaving semantics). Of the sockets, the flags \<^verbatim>\<open>TCP_NODELAY\<close> and \<^verbatim>\<open>SO_REUSEADDR\<close> change no
  value the programs see. The tests, scripts and the MetaTrader side are not part of the engine.
\<close>

end
